(* ===== verification/Kernel_Prelude.thy ===== *)
theory Kernel_Prelude
  imports Main "HOL-Library.Word"
begin

text \<open>
  What every component of the development shares: the result type of a kernel routine
  (a fault or a value), the sequencing combinator the routines are written with, the
  reading of a C++ loop as a possibly missing result, and the collections of rewrite
  rules the component proofs are run with.

  A routine of the kernel ends in one of two ways: it returns, or the machine leaves the
  program. The second is a \<open>fault\<close>:
  \<^item> \<open>AssertFailed\<close>: an \<open>ACRTOS_ASSERT\<close> did not hold and \<open>acrtos_assert_failed\<close>
    (src/src/assert.cpp) was entered, which by default never returns;
  \<^item> \<open>NullDeref\<close>: the code dereferenced \<open>nullptr\<close>;
  \<^item> \<open>OutOfBounds\<close>: the code indexed \<open>ready_lists_\<close> or \<open>task_table_\<close> outside the array;
  \<^item> \<open>Undefined\<close>: the code called \<open>__builtin_clz\<close> on zero;
  \<^item> \<open>NoReturn\<close>: a loop that follows links ran round a cycle.
\<close>

datatype fault = AssertFailed | NullDeref | OutOfBounds | Undefined | NoReturn

type_synonym 'a res = "fault + 'a"

text \<open>
  Two rule collections. \<open>frame_simps\<close> holds the rules that say which fields an update of
  the state leaves alone; \<open>run_simps\<close> the rules that run a routine past its guards.
\<close>

named_theorems frame_simps "fields that a state update does not touch"
named_theorems run_simps "execution of kernel routines"

subsection \<open>Sequencing\<close>

fun andthen :: "'a res \<Rightarrow> ('a \<Rightarrow> 'b res) \<Rightarrow> 'b res" where
  "andthen (Inl e) f = Inl e"
| "andthen (Inr x) f = f x"

lemma andthen_eq_Inr:
  "andthen m f = Inr y \<longleftrightarrow> (\<exists>x. m = Inr x \<and> f x = Inr y)"
  by (cases m) auto

lemma andthen_assoc: "andthen (andthen m f) g = andthen m (\<lambda>x. andthen (f x) g)"
  by (cases m) auto

lemma andthen_pair:
  "andthen (andthen m (\<lambda>(a, b). f a b)) g = andthen m (\<lambda>(a, b). andthen (f a b) g)"
  by (cases m) auto

text \<open>The result of a loop that may not stop, as the result of a routine.\<close>

definition loop_res :: "'a option \<Rightarrow> 'a res" where
  "loop_res r = (case r of None \<Rightarrow> Inl NoReturn | Some x \<Rightarrow> Inr x)"

lemma loop_res_simps [simp]: "loop_res None = Inl NoReturn" "loop_res (Some x) = Inr x"
  by (simp_all add: loop_res_def)

text \<open>The same for a loop whose body may fault.\<close>

definition loop_join :: "'a res option \<Rightarrow> 'a res" where
  "loop_join r = (case r of None \<Rightarrow> Inl NoReturn | Some x \<Rightarrow> x)"

lemma loop_join_simps [simp]: "loop_join None = Inl NoReturn" "loop_join (Some x) = x"
  by (simp_all add: loop_join_def)

subsection \<open>Lists\<close>

lemma remove1_split: "distinct (as @ t # bs) \<Longrightarrow> remove1 t (as @ t # bs) = as @ bs"
  by (auto simp: remove1_append)

lemma set_around: "insert t (set (takeWhile P xs) \<union> set (dropWhile P xs)) = insert t (set xs)"
proof -
  have "set (takeWhile P xs) \<union> set (dropWhile P xs) = set (takeWhile P xs @ dropWhile P xs)"
    by (simp only: set_append)
  then show ?thesis by (simp only: takeWhile_dropWhile_id)
qed

lemma hd_dropWhile_not: "dropWhile P xs = y # ys \<Longrightarrow> \<not> P y"
  by (metis hd_dropWhile list.distinct(1) list.sel(1))

subsection \<open>Bits of machine words\<close>

unbundle bit_operations_syntax

lemma bit_one_shift [simp]:
  "bit ((2 :: 32 word) ^ n) m \<longleftrightarrow> m = n \<and> n < 32"
  by (auto simp: bit_exp_iff)

lemma word_eq_zero_iff_bits: "(w :: 32 word) = 0 \<longleftrightarrow> (\<forall>n < 32. \<not> bit w n)"
proof
  assume "\<forall>n < 32. \<not> bit w n"
  then show "w = 0"
    by (intro bit_word_eqI) simp
qed simp

lemma unat_add_no_wrap:
  "unat (a :: 32 word) + unat b < 2 ^ 32 \<Longrightarrow> unat (a + b) = unat a + unat b"
  by (simp add: unat_word_ariths)

lemma unat_sub_le: "(b :: 32 word) \<le> a \<Longrightarrow> unat (a - b) = unat a - unat b"
  by (simp add: unat_sub)

lemma unat_32_less [simp]: "unat (a :: 32 word) < 4294967296"
proof -
  have "unat a < 2 ^ LENGTH(32)" by (rule unsigned_less)
  then show ?thesis by simp
qed

lemma word8_less_32: "(p :: 8 word) < 32 \<longleftrightarrow> unat p < 32"
  by (simp add: word_less_nat_alt)

lemma unat_eq_iff_word: "unat a = unat b \<longleftrightarrow> a = (b :: 8 word)"
  by (metis unsigned_word_eqI)

end
