(* ===== verification/Link_Chain.thy ===== *)
theory Link_Chain
  imports Kernel_Prelude
begin

text \<open>
  Doubly linked chains, independent of the kernel: what the links of the nodes must be for
  a pair of end pointers and two link fields to hold a given sequence of nodes. The links
  are described pointwise (\<open>next_in\<close>, \<open>prev_in\<close>), so an update of a link field is
  compared with the links of the new sequence one node at a time. Task lists and the delay
  list are both instances.
\<close>

definition first_of :: "'a list \<Rightarrow> 'a option" where
  "first_of xs = (case xs of [] \<Rightarrow> None | x # _ \<Rightarrow> Some x)"

definition last_of :: "'a list \<Rightarrow> 'a option" where
  "last_of xs = (if xs = [] then None else Some (last xs))"

lemma first_of_simps [simp]:
  "first_of [] = None" "first_of (x # xs) = Some x"
  by (simp_all add: first_of_def)

lemma first_of_append: "first_of (xs @ ys) = (if xs = [] then first_of ys else first_of xs)"
  by (cases xs) auto

lemma first_of_None [simp]: "first_of xs = None \<longleftrightarrow> xs = []"
  by (cases xs) auto

lemma first_of_Some: "first_of xs = Some x \<longleftrightarrow> (\<exists>ys. xs = x # ys)"
  by (cases xs) auto

lemma last_of_simps [simp]:
  "last_of [] = None" "last_of (xs @ [x]) = Some x" "last_of [x] = Some x"
  by (simp_all add: last_of_def)

lemma last_of_append: "last_of (xs @ ys) = (if ys = [] then last_of xs else last_of ys)"
  by (auto simp: last_of_def)

lemma last_of_Cons: "last_of (x # xs) = (if xs = [] then Some x else last_of xs)"
  by (auto simp: last_of_def)

lemma last_of_None [simp]: "last_of xs = None \<longleftrightarrow> xs = []"
  by (auto simp: last_of_def)

lemma last_of_in: "last_of xs = Some x \<Longrightarrow> x \<in> set xs"
  by (auto simp: last_of_def split: if_splits)

lemma first_of_in: "first_of xs = Some x \<Longrightarrow> x \<in> set xs"
  by (auto simp: first_of_Some)

lemma last_of_split: "last_of xs = Some x \<longleftrightarrow> (\<exists>ys. xs = ys @ [x])"
  by (metis append_butlast_last_id last_of_def last_of_simps(2) option.distinct(1) option.inject)

subsection \<open>The neighbours of a node in a sequence\<close>

fun next_in :: "'a list \<Rightarrow> 'a \<Rightarrow> 'a option" where
  "next_in (x # y # zs) a = (if a = x then Some y else next_in (y # zs) a)"
| "next_in xs a = None"

fun prev_in :: "'a list \<Rightarrow> 'a \<Rightarrow> 'a option" where
  "prev_in (x # y # zs) a = (if a = y then Some x else prev_in (y # zs) a)"
| "prev_in xs a = None"

lemma next_in_Cons: "next_in (x # xs) a = (if a = x \<and> xs \<noteq> [] then first_of xs else next_in xs a)"
  by (cases xs) auto

lemma prev_in_Cons: "prev_in (x # xs) a = (if first_of xs = Some a then Some x else prev_in xs a)"
  by (cases xs) auto

lemma next_in_notin: "a \<notin> set xs \<Longrightarrow> next_in xs a = None"
  by (induction xs a rule: next_in.induct) auto

lemma prev_in_notin: "a \<notin> set xs \<Longrightarrow> prev_in xs a = None"
  by (induction xs a rule: prev_in.induct) auto

text \<open>
  The two rules the list operations rest on: the neighbours in a sequence with \<open>t\<close> put
  between \<open>as\<close> and \<open>bs\<close>, in terms of those without it. Appending is the case
  \<open>bs = []\<close>, taking the front is the case \<open>as = []\<close>, and removal reads them backwards.
\<close>

lemma next_in_mid:
  assumes "distinct (as @ t # bs)"
  shows "next_in (as @ t # bs) a =
    (if a = t then first_of bs else if last_of as = Some a then Some t
     else next_in (as @ bs) a)"
  using assms
proof (induction as)
  case Nil
  then show ?case by (auto simp: next_in_Cons next_in_notin)
next
  case (Cons x as)
  then show ?case
    by (auto simp: next_in_Cons first_of_append last_of_Cons last_of_def split: if_splits)
qed

lemma prev_in_mid:
  assumes "distinct (as @ t # bs)"
  shows "prev_in (as @ t # bs) a =
    (if a = t then last_of as else if first_of bs = Some a then Some t
     else prev_in (as @ bs) a)"
  using assms
proof (induction as)
  case Nil
  then show ?case by (auto simp: prev_in_Cons prev_in_notin first_of_Some)
next
  case (Cons x as)
  then show ?case
    by (auto simp: prev_in_Cons first_of_append last_of_Cons first_of_Some split: if_splits)
qed

lemma next_in_last_part:
  assumes "distinct (as @ bs)" and "last_of as = Some a"
  shows "next_in (as @ bs) a = first_of bs"
proof -
  from assms(2) obtain cs where "as = cs @ [a]" by (auto simp: last_of_split)
  with assms(1) show ?thesis using next_in_mid [of cs a bs a] by simp
qed

lemma prev_in_first_part:
  assumes "distinct (as @ bs)" and "first_of bs = Some b"
  shows "prev_in (as @ bs) b = last_of as"
proof -
  from assms(2) obtain cs where "bs = b # cs" by (auto simp: first_of_Some)
  with assms(1) show ?thesis using prev_in_mid [of as b cs b] by simp
qed

subsection \<open>Chains\<close>

definition linked ::
  "('a \<Rightarrow> 'a option) \<Rightarrow> ('a \<Rightarrow> 'a option) \<Rightarrow> 'a option \<Rightarrow> 'a option \<Rightarrow> 'a list \<Rightarrow> bool" where
  "linked nx pv h t xs \<longleftrightarrow>
     distinct xs \<and> h = first_of xs \<and> t = last_of xs \<and>
     (\<forall>x \<in> set xs. nx x = next_in xs x \<and> pv x = prev_in xs x)"

lemma linked_Nil [simp]: "linked nx pv h t [] \<longleftrightarrow> h = None \<and> t = None"
  by (simp add: linked_def)

lemma linked_distinct: "linked nx pv h t xs \<Longrightarrow> distinct xs"
  by (simp add: linked_def)

lemma linked_head: "linked nx pv h t xs \<Longrightarrow> h = first_of xs"
  by (simp add: linked_def)

text \<open>Only the links of the members matter.\<close>

lemma linked_cong:
  assumes "\<And>x. x \<in> set xs \<Longrightarrow> nx' x = nx x" and "\<And>x. x \<in> set xs \<Longrightarrow> pv' x = pv x"
  shows "linked nx' pv' h t xs = linked nx pv h t xs"
  using assms by (auto simp: linked_def)

text \<open>The neighbours of a member, read off the position where it stands.\<close>

lemma linked_next:
  assumes "linked nx pv h t (as @ x # bs)"
  shows "nx x = first_of bs"
  using assms next_in_mid [of as x bs x] by (auto simp: linked_def)

lemma linked_prev:
  assumes "linked nx pv h t (as @ x # bs)"
  shows "pv x = last_of as"
  using assms prev_in_mid [of as x bs x] by (auto simp: linked_def)

text \<open>Two sequences held by the same links from the same head are equal.\<close>

lemma linked_from_unique:
  assumes "\<And>as x bs. xs = as @ x # bs \<Longrightarrow> nx x = first_of bs"
    and "\<And>as x bs. ys = as @ x # bs \<Longrightarrow> nx x = first_of bs"
    and "first_of xs = first_of ys"
  shows "xs = ys"
  using assms
proof (induction xs arbitrary: ys)
  case Nil
  then show ?case by (metis first_of_None first_of_simps(1))
next
  case (Cons x xs)
  from Cons.prems(3) obtain zs where ys: "ys = x # zs" by (metis first_of_Some first_of_simps(2))
  have "first_of xs = first_of zs"
    using Cons.prems(1) [of "[]" x xs] Cons.prems(2) [of "[]" x zs] ys by simp
  moreover have "nx y = first_of bs" if "xs = as @ y # bs" for as y bs
    using Cons.prems(1) [of "x # as" y bs] that by simp
  moreover have "nx y = first_of bs" if "zs = as @ y # bs" for as y bs
    using Cons.prems(2) [of "x # as" y bs] that ys by simp
  ultimately have "xs = zs" by (rule Cons.IH [rotated 2])
  with ys show ?case by simp
qed

lemma linked_unique: "linked nx pv h t xs \<Longrightarrow> linked nx pv h u ys \<Longrightarrow> xs = ys"
  by (rule linked_from_unique [of xs nx ys]) (auto dest: linked_next linked_head)

subsection \<open>Relinking\<close>

text \<open>Putting a node between two parts of a chain, whatever the order of the stores.\<close>

lemma linked_insert:
  assumes "linked nx pv h u (as @ bs)" and "t \<notin> set (as @ bs)"
    and "\<And>x. x \<in> set (as @ t # bs) \<Longrightarrow>
      nx' x = (if x = t then first_of bs else if last_of as = Some x then Some t else nx x)"
    and "\<And>x. x \<in> set (as @ t # bs) \<Longrightarrow>
      pv' x = (if x = t then last_of as else if first_of bs = Some x then Some t else pv x)"
    and "h' = (if as = [] then Some t else h)" and "u' = (if bs = [] then Some t else u)"
  shows "linked nx' pv' h' u' (as @ t # bs)"
proof -
  have d: "distinct (as @ t # bs)" using assms(1,2) by (auto simp: linked_def)
  have "nx' x = next_in (as @ t # bs) x \<and> pv' x = prev_in (as @ t # bs) x"
    if "x \<in> set (as @ t # bs)" for x
    using assms(1,3,4) that
    by (auto simp: next_in_mid [OF d] prev_in_mid [OF d] linked_def)
  then show ?thesis
    using d assms(1,5,6) by (auto simp: linked_def first_of_append last_of_append last_of_Cons)
qed

text \<open>Taking a node out of a chain.\<close>

lemma linked_delete:
  assumes "linked nx pv h u (as @ t # bs)"
    and "\<And>x. x \<in> set (as @ bs) \<Longrightarrow> nx' x = (if last_of as = Some x then first_of bs else nx x)"
    and "\<And>x. x \<in> set (as @ bs) \<Longrightarrow> pv' x = (if first_of bs = Some x then last_of as else pv x)"
    and "h' = (if as = [] then first_of bs else h)" and "u' = (if bs = [] then last_of as else u)"
  shows "linked nx' pv' h' u' (as @ bs)"
proof -
  have d: "distinct (as @ t # bs)" using assms(1) by (rule linked_distinct)
  then have d': "distinct (as @ bs)" by auto
  have "nx' x = next_in (as @ bs) x \<and> pv' x = prev_in (as @ bs) x"
    if x: "x \<in> set (as @ bs)" for x
  proof -
    from x d have "x \<noteq> t" by auto
    with x d' assms(1-3) show ?thesis
      by (auto simp: next_in_mid [OF d] prev_in_mid [OF d] linked_def
          next_in_last_part prev_in_first_part)
  qed
  then show ?thesis
    using d' assms(1,4,5) by (auto simp: linked_def first_of_append last_of_append last_of_Cons)
qed

text \<open>Following a link stays in the sequence, and the link back leads home.\<close>

lemma next_in_split: "next_in xs a = Some b \<Longrightarrow> \<exists>as bs. xs = as @ a # b # bs"
proof (induction xs a rule: next_in.induct)
  case (1 x y zs a)
  show ?case
  proof (cases "a = x")
    case True
    then have "x # y # zs = [] @ a # b # zs" using 1(2) by simp
    then show ?thesis by blast
  next
    case False
    then obtain as bs where "y # zs = as @ a # b # bs" using 1 by auto
    then have "x # y # zs = (x # as) @ a # b # bs" by simp
    then show ?thesis by blast
  qed
qed simp_all

lemma linked_successor:
  assumes "linked nx pv h t xs" and "x \<in> set xs" and "nx x = Some y"
  shows "pv y = Some x" and "\<exists>as bs. xs = as @ x # y # bs"
proof -
  have "next_in xs x = Some y" using assms by (simp add: linked_def)
  from next_in_split [OF this] obtain as bs where xs: "xs = as @ x # y # bs" by blast
  then show "\<exists>as bs. xs = as @ x # y # bs" by blast
  have "pv y = prev_in xs y" using assms(1) xs by (simp add: linked_def)
  then show "pv y = Some x"
    using prev_in_mid [of "as @ [x]" y bs y] linked_distinct [OF assms(1)] xs by (simp add: last_of_append)
qed

end
