(* ===== verification/Kernel_State.thy ===== *)
theory Kernel_State
  imports Link_Chain
begin

text \<open>
  The data of the kernel: configuration constants (acRtosConfig.hpp), time and task states
  (types.hpp), the task control block (task.hpp), the records of the synchronisation
  objects (ipc.hpp, queue.hpp), and the one state every routine reads and writes: the
  \<open>Scheduler\<close> singleton together with the synchronisation objects of the application, the
  memory and the processor state the port touches.

  A \<open>TaskControlBlock*\<close> points into \<open>Scheduler::task_table_\<close>, so a task is named by its
  index in the table (\<open>tid\<close>) and a pointer is a \<open>tptr\<close>, \<open>None\<close> being \<open>nullptr\<close>.
  A \<open>TaskList\<close> lives inside another object; \<open>list_id\<close> names it by that object, and
  \<open>lists\<close> of the state is the store of all of them. Intrusive links, aliasing through
  \<open>wait_list\<close> and stale links of unlinked tasks are therefore all in the model.
\<close>

subsection \<open>Configuration\<close>

definition kMaxTasks :: nat where "kMaxTasks = 15"

definition kStackSize :: nat where "kStackSize = 256"

definition kMaxPriorities :: nat where "kMaxPriorities = 32"

definition kTickRateMs :: "32 word" where "kTickRateMs = 1"

definition kCpuHz :: "32 word" where "kCpuHz = 16000000"

text \<open>The \<open>static_assert\<close>s of the configuration header, for the values above.\<close>

definition config_ok :: bool where
  "config_ok \<longleftrightarrow> kMaxPriorities \<le> 32 \<and> kMaxPriorities > 0 \<and> kMaxTasks > 0 \<and>
     (kStackSize * 4) mod 8 = 0 \<and> kTickRateMs > 0 \<and> kCpuHz \<ge> 1000 \<and>
     1000 mod kTickRateMs = 0"

lemma config_ok: "config_ok"
  by (simp add: config_ok_def kMaxPriorities_def kMaxTasks_def kStackSize_def
      kTickRateMs_def kCpuHz_def)

subsection \<open>Time and task states\<close>

type_synonym tick = "32 word"

definition kWaitForever :: tick where "kWaitForever = 0xFFFFFFFF"

definition kStackCanary :: "32 word" where "kStackCanary = 0xDEADBEEF"

definition ms_to_ticks :: "tick \<Rightarrow> tick" where
  "ms_to_ticks ms =
     (if ms = 0 then 0
      else ms div kTickRateMs + (if ms mod kTickRateMs \<noteq> 0 then 1 else 0))"

datatype task_state = Ready | Running | Blocked | Suspended | Deleted

subsection \<open>Pointers and records\<close>

type_synonym tid = nat
type_synonym tptr = "tid option"
type_synonym prio = "8 word"
type_synonym addr = nat
type_synonym mutex_id = nat

datatype list_id =
    Ready_List prio             \<comment> \<open>\<open>ReadyManager::ready_lists_[p]\<close>\<close>
  | Sem_Wait nat                \<comment> \<open>\<open>Semaphore::wait_\<close> of a semaphore\<close>
  | Mutex_Wait mutex_id         \<comment> \<open>\<open>Mutex::wait_\<close> of a mutex\<close>
  | Queue_Senders nat           \<comment> \<open>\<open>QueueCore::senders_\<close>\<close>
  | Queue_Receivers nat         \<comment> \<open>\<open>QueueCore::receivers_\<close>\<close>
  | Event_Waiters nat           \<comment> \<open>\<open>EventGroup::waiters_\<close>\<close>

fun is_ready_list :: "list_id \<Rightarrow> bool" where
  "is_ready_list (Ready_List p) = True"
| "is_ready_list l = False"

record tcb =
  sp :: addr
  state :: task_state
  delay_ticks :: tick
  stack_base :: addr
  stack_end :: addr
  priority :: prio
  base_priority :: prio
  link_prev :: tptr
  link_next :: tptr
  delay_prev :: tptr
  delay_next :: tptr
  held_mutexes :: "mutex_id option"
  wait_list :: "list_id option"
  in_delay_list :: bool
  timeout_expired :: bool
  xfer_ptr :: "addr option"
  event_wait_mask :: "32 word"
  event_wait_all :: bool
  event_clear_on_exit :: bool

record task_list =
  head :: tptr
  tail :: tptr

record mutex =
  owner :: tptr
  next_held :: "mutex_id option"

record queue_core =
  storage :: addr
  item_size :: nat
  capacity :: nat
  q_head :: nat
  q_tail :: nat
  q_count :: nat

record kernel =
  use_assert :: bool            \<comment> \<open>\<open>ACRTOS_USE_ASSERT\<close>, a compile-time switch\<close>
  tcbs :: "tid \<Rightarrow> tcb"          \<comment> \<open>\<open>Scheduler::task_table_\<close>\<close>
  lists :: "list_id \<Rightarrow> task_list"
  current_task :: tptr
  ready_bitmask :: "32 word"
  delay_head :: tptr            \<comment> \<open>\<open>DelayList::head\<close> of \<open>delay_list_\<close>\<close>
  task_count :: "8 word"
  started :: bool
  tick_count :: tick
  sem_count :: "nat \<Rightarrow> 32 word" \<comment> \<open>\<open>Semaphore::count_\<close>\<close>
  mutexes :: "mutex_id \<Rightarrow> mutex"
  event_bits :: "nat \<Rightarrow> 32 word" \<comment> \<open>\<open>EventGroup::current_bits_\<close>\<close>
  queues :: "nat \<Rightarrow> queue_core"
  mem :: "addr \<Rightarrow> 8 word"
  site_created :: "nat \<Rightarrow> bool" \<comment> \<open>\<open>is_created\<close> of each \<open>create_task\<close> call site\<close>
  current_sp :: addr
  psp :: addr                   \<comment> \<open>process stack pointer\<close>
  primask :: bool
  ipsr :: "32 word"
  pendsv :: bool                \<comment> \<open>\<open>ICSR.PENDSVSET\<close>\<close>
  g_cpu_hz :: "32 word"
  regs :: "32 word \<Rightarrow> 32 word" \<comment> \<open>System Control Space registers\<close>

text \<open>A default-initialised control block: note that its state is \<open>Ready\<close>.\<close>

definition initial_tcb :: tcb where
  "initial_tcb = \<lparr>sp = 0, state = Ready, delay_ticks = 0, stack_base = 0, stack_end = 0,
     priority = 0, base_priority = 0, link_prev = None, link_next = None,
     delay_prev = None, delay_next = None, held_mutexes = None, wait_list = None,
     in_delay_list = False, timeout_expired = False, xfer_ptr = None,
     event_wait_mask = 0, event_wait_all = False, event_clear_on_exit = False\<rparr>"

definition initial_list :: task_list where
  "initial_list = \<lparr>head = None, tail = None\<rparr>"

definition initial_mutex :: mutex where
  "initial_mutex = \<lparr>owner = None, next_held = None\<rparr>"

subsection \<open>Stores into the state\<close>

definition upd_tcb :: "tid \<Rightarrow> (tcb \<Rightarrow> tcb) \<Rightarrow> kernel \<Rightarrow> kernel" where
  "upd_tcb t f k = k\<lparr>tcbs := (tcbs k)(t := f (tcbs k t))\<rparr>"

definition upd_list :: "list_id \<Rightarrow> (task_list \<Rightarrow> task_list) \<Rightarrow> kernel \<Rightarrow> kernel" where
  "upd_list l f k = k\<lparr>lists := (lists k)(l := f (lists k l))\<rparr>"

abbreviation set_next :: "tid \<Rightarrow> tptr \<Rightarrow> kernel \<Rightarrow> kernel" where
  "set_next t v \<equiv> upd_tcb t (\<lambda>b. b\<lparr>link_next := v\<rparr>)"

abbreviation set_prev :: "tid \<Rightarrow> tptr \<Rightarrow> kernel \<Rightarrow> kernel" where
  "set_prev t v \<equiv> upd_tcb t (\<lambda>b. b\<lparr>link_prev := v\<rparr>)"

abbreviation set_head :: "list_id \<Rightarrow> tptr \<Rightarrow> kernel \<Rightarrow> kernel" where
  "set_head l v \<equiv> upd_list l (\<lambda>b. b\<lparr>head := v\<rparr>)"

abbreviation set_tail :: "list_id \<Rightarrow> tptr \<Rightarrow> kernel \<Rightarrow> kernel" where
  "set_tail l v \<equiv> upd_list l (\<lambda>b. b\<lparr>tail := v\<rparr>)"

abbreviation set_delay_next :: "tid \<Rightarrow> tptr \<Rightarrow> kernel \<Rightarrow> kernel" where
  "set_delay_next t v \<equiv> upd_tcb t (\<lambda>b. b\<lparr>delay_next := v\<rparr>)"

abbreviation set_delay_prev :: "tid \<Rightarrow> tptr \<Rightarrow> kernel \<Rightarrow> kernel" where
  "set_delay_prev t v \<equiv> upd_tcb t (\<lambda>b. b\<lparr>delay_prev := v\<rparr>)"

abbreviation set_state :: "tid \<Rightarrow> task_state \<Rightarrow> kernel \<Rightarrow> kernel" where
  "set_state t v \<equiv> upd_tcb t (\<lambda>b. b\<lparr>state := v\<rparr>)"

text \<open>Reading a field after a store.\<close>

lemma upd_tcb_simps [simp]:
  "use_assert (upd_tcb t f k) = use_assert k"
  "tcbs (upd_tcb t f k) = (tcbs k)(t := f (tcbs k t))"
  "lists (upd_tcb t f k) = lists k"
  "current_task (upd_tcb t f k) = current_task k"
  "ready_bitmask (upd_tcb t f k) = ready_bitmask k"
  "delay_head (upd_tcb t f k) = delay_head k"
  "task_count (upd_tcb t f k) = task_count k"
  "started (upd_tcb t f k) = started k"
  "tick_count (upd_tcb t f k) = tick_count k"
  "sem_count (upd_tcb t f k) = sem_count k"
  "mutexes (upd_tcb t f k) = mutexes k"
  "event_bits (upd_tcb t f k) = event_bits k"
  "queues (upd_tcb t f k) = queues k"
  "mem (upd_tcb t f k) = mem k"
  "site_created (upd_tcb t f k) = site_created k"
  "current_sp (upd_tcb t f k) = current_sp k"
  "psp (upd_tcb t f k) = psp k"
  "primask (upd_tcb t f k) = primask k"
  "ipsr (upd_tcb t f k) = ipsr k"
  "pendsv (upd_tcb t f k) = pendsv k"
  "g_cpu_hz (upd_tcb t f k) = g_cpu_hz k"
  "regs (upd_tcb t f k) = regs k"
  by (simp_all add: upd_tcb_def)

lemma upd_list_simps [simp]:
  "use_assert (upd_list l f k) = use_assert k"
  "tcbs (upd_list l f k) = tcbs k"
  "lists (upd_list l f k) = (lists k)(l := f (lists k l))"
  "current_task (upd_list l f k) = current_task k"
  "ready_bitmask (upd_list l f k) = ready_bitmask k"
  "delay_head (upd_list l f k) = delay_head k"
  "task_count (upd_list l f k) = task_count k"
  "started (upd_list l f k) = started k"
  "tick_count (upd_list l f k) = tick_count k"
  "sem_count (upd_list l f k) = sem_count k"
  "mutexes (upd_list l f k) = mutexes k"
  "event_bits (upd_list l f k) = event_bits k"
  "queues (upd_list l f k) = queues k"
  "mem (upd_list l f k) = mem k"
  "site_created (upd_list l f k) = site_created k"
  "current_sp (upd_list l f k) = current_sp k"
  "psp (upd_list l f k) = psp k"
  "primask (upd_list l f k) = primask k"
  "ipsr (upd_list l f k) = ipsr k"
  "pendsv (upd_list l f k) = pendsv k"
  "g_cpu_hz (upd_list l f k) = g_cpu_hz k"
  "regs (upd_list l f k) = regs k"
  by (simp_all add: upd_list_def)

subsection \<open>Assertions and dereferences\<close>

text \<open>
  \<open>ACRTOS_ASSERT(e)\<close> followed by the rest of the routine: with assertions compiled in, a
  false \<open>e\<close> leaves the program; compiled out, it does nothing.
\<close>

definition acr_assert :: "kernel \<Rightarrow> bool \<Rightarrow> 'a res \<Rightarrow> 'a res" where
  "acr_assert k e rest = (if use_assert k \<and> \<not> e then Inl AssertFailed else rest)"

definition deref :: "'p option \<Rightarrow> ('p \<Rightarrow> 'a res) \<Rightarrow> 'a res" where
  "deref p f = (case p of None \<Rightarrow> Inl NullDeref | Some t \<Rightarrow> f t)"

lemma acr_assert_True [simp, run_simps]: "acr_assert k True rest = rest"
  by (simp add: acr_assert_def)

lemma acr_assert_holds [run_simps]: "e \<Longrightarrow> acr_assert k e rest = rest"
  by (simp add: acr_assert_def)

lemma deref_simps [simp, run_simps]:
  "deref None f = Inl NullDeref" "deref (Some t) f = f t"
  by (simp_all add: deref_def)

text \<open>A subscript of \<open>ready_lists_\<close>.\<close>

definition ready_at :: "prio \<Rightarrow> 'a res \<Rightarrow> 'a res" where
  "ready_at p rest = (if unat p < kMaxPriorities then rest else Inl OutOfBounds)"

lemma ready_at_in [simp, run_simps]: "p < 32 \<Longrightarrow> ready_at p rest = rest"
  by (simp add: ready_at_def kMaxPriorities_def word8_less_32)

subsection \<open>Time conversion\<close>

lemma ms_to_ticks_id [simp]: "ms_to_ticks ms = ms"
  by (simp add: ms_to_ticks_def kTickRateMs_def)

end
