(* ===== verification/Task_List.thy ===== *)
theory Task_List
  imports Kernel_State
begin

text \<open>
  \<open>TaskList\<close> (task.hpp 52-78, task.cpp 26-107): the intrusive list of control blocks that
  the ready lists and the wait lists are made of. The operations are the stores of the
  code, in its order. \<open>wf_lists k L\<close> is the abstraction: every list object \<open>l\<close> of the
  state holds exactly the sequence \<open>L l\<close>, and no task is on two lists. Each operation is
  shown to perform the corresponding operation on \<open>L\<close> and to write nothing but links
  (\<open>relinked\<close>).
\<close>

subsection \<open>The operations\<close>

definition is_empty :: "list_id \<Rightarrow> kernel \<Rightarrow> bool" where
  "is_empty l k \<longleftrightarrow> head (lists k l) = None"

definition peek_front :: "list_id \<Rightarrow> kernel \<Rightarrow> tptr" where
  "peek_front l k = head (lists k l)"

definition push_back :: "list_id \<Rightarrow> tptr \<Rightarrow> kernel \<Rightarrow> kernel res" where
  "push_back l task k =
     acr_assert k (task \<noteq> None)
      (deref task (\<lambda>t.
        let k = set_next t None k in
        case tail (lists k l) of
          None \<Rightarrow> Inr (set_tail l (Some t) (set_head l (Some t) (set_prev t None k)))
        | Some u \<Rightarrow>
            let k = set_prev t (Some u) k;
                k = set_next u (Some t) k
            in Inr (set_tail l (Some t) k)))"

text \<open>The search of \<open>insert_by_priority\<close>: the first task of lower priority.\<close>

partial_function (option) lower_from :: "kernel \<Rightarrow> prio \<Rightarrow> tptr \<Rightarrow> tptr option" where
  "lower_from k p current =
     (case current of
        None \<Rightarrow> Some None
      | Some c \<Rightarrow>
          if priority (tcbs k c) \<ge> p then lower_from k p (link_next (tcbs k c))
          else Some (Some c))"

definition insert_by_priority :: "list_id \<Rightarrow> tptr \<Rightarrow> kernel \<Rightarrow> kernel res" where
  "insert_by_priority l task k =
     acr_assert k (task \<noteq> None)
      (if head (lists k l) = None then push_back l task k
       else deref task (\<lambda>t.
         andthen (loop_res (lower_from k (priority (tcbs k t)) (head (lists k l)))) (\<lambda>current.
           case current of
             None \<Rightarrow> push_back l task k
           | Some c \<Rightarrow>
               let k = set_next t (Some c) k;
                   k = set_prev t (link_prev (tcbs k c)) k;
                   k = (case link_prev (tcbs k c) of
                          Some b \<Rightarrow> set_next b (Some t) k
                        | None \<Rightarrow> set_head l (Some t) k)
               in Inr (set_prev c (Some t) k))))"

definition pop_front :: "list_id \<Rightarrow> kernel \<Rightarrow> (tptr \<times> kernel) res" where
  "pop_front l k =
     (case head (lists k l) of
        None \<Rightarrow> Inr (None, k)
      | Some t \<Rightarrow>
          let k = set_head l (link_next (tcbs k t)) k;
              k = (case head (lists k l) of
                     Some h \<Rightarrow> set_prev h None k
                   | None \<Rightarrow> set_tail l None k);
              k = set_next t None k;
              k = set_prev t None k
          in Inr (Some t, k))"

definition list_remove :: "list_id \<Rightarrow> tptr \<Rightarrow> kernel \<Rightarrow> kernel res" where
  "list_remove l task k =
     (case task of
        None \<Rightarrow> Inr k
      | Some t \<Rightarrow>
          let k = (case link_prev (tcbs k t) of
                     Some b \<Rightarrow> set_next b (link_next (tcbs k t)) k
                   | None \<Rightarrow> set_head l (link_next (tcbs k t)) k);
              k = (case link_next (tcbs k t) of
                     Some n \<Rightarrow> set_prev n (link_prev (tcbs k t)) k
                   | None \<Rightarrow> set_tail l (link_prev (tcbs k t)) k);
              k = set_next t None k;
              k = set_prev t None k
          in Inr k)"

subsection \<open>Abstraction to sequences\<close>

definition linked_list :: "kernel \<Rightarrow> list_id \<Rightarrow> tid list \<Rightarrow> bool" where
  "linked_list k l =
     linked (\<lambda>t. link_next (tcbs k t)) (\<lambda>t. link_prev (tcbs k t))
       (head (lists k l)) (tail (lists k l))"

definition wf_lists :: "kernel \<Rightarrow> (list_id \<Rightarrow> tid list) \<Rightarrow> bool" where
  "wf_lists k L \<longleftrightarrow>
     (\<forall>l. linked_list k l (L l)) \<and> (\<forall>l l'. l \<noteq> l' \<longrightarrow> set (L l) \<inter> set (L l') = {})"

lemma wf_lists_linked: "wf_lists k L \<Longrightarrow> linked_list k l (L l)"
  by (simp add: wf_lists_def)

lemma wf_lists_one: "wf_lists k L \<Longrightarrow> t \<in> set (L l) \<Longrightarrow> t \<in> set (L l') \<longleftrightarrow> l' = l"
  by (auto simp: wf_lists_def disjoint_iff)

lemma wf_lists_other: "wf_lists k L \<Longrightarrow> l' \<noteq> l \<Longrightarrow> x \<in> set (L l') \<Longrightarrow> x \<notin> set (L l)"
  by (auto simp: wf_lists_def disjoint_iff)

lemma wf_lists_distinct: "wf_lists k L \<Longrightarrow> distinct (L l)"
  by (auto simp: wf_lists_def linked_list_def linked_def)

lemma wf_lists_unique: "wf_lists k L \<Longrightarrow> wf_lists k L' \<Longrightarrow> L = L'"
  by (rule ext) (auto simp: wf_lists_def linked_list_def intro: linked_unique)

lemma wf_lists_head: "wf_lists k L \<Longrightarrow> head (lists k l) = first_of (L l)"
  by (auto simp: wf_lists_def linked_list_def linked_def)

lemma wf_lists_tail: "wf_lists k L \<Longrightarrow> tail (lists k l) = last_of (L l)"
  by (auto simp: wf_lists_def linked_list_def linked_def)

text \<open>
  Two states that differ in link fields and list ends only. The relation is given by the
  new columns, so that every other field of the second state computes to that of the first.
\<close>

definition set_links ::
  "(tid \<Rightarrow> tptr) \<Rightarrow> (tid \<Rightarrow> tptr) \<Rightarrow> (list_id \<Rightarrow> task_list) \<Rightarrow> kernel \<Rightarrow> kernel" where
  "set_links nx pv ls k =
     k\<lparr>tcbs := (\<lambda>t. (tcbs k t)\<lparr>link_prev := pv t, link_next := nx t\<rparr>), lists := ls\<rparr>"

definition relinked :: "kernel \<Rightarrow> kernel \<Rightarrow> bool" where
  "relinked k k' \<longleftrightarrow> (\<exists>nx pv ls. k' = set_links nx pv ls k)"

lemma relinkedE:
  assumes "relinked k k'"
  obtains nx pv ls where "k' = set_links nx pv ls k"
  using assms by (auto simp: relinked_def)

lemma relinkedI:
  assumes "k' = k\<lparr>tcbs := tcbs k', lists := lists k'\<rparr>"
    and "\<And>t. tcbs k' t = (tcbs k t)\<lparr>link_prev := link_prev (tcbs k' t),
      link_next := link_next (tcbs k' t)\<rparr>"
  shows "relinked k k'"
  unfolding relinked_def set_links_def
  by (rule exI [of _ "\<lambda>t. link_next (tcbs k' t)"], rule exI [of _ "\<lambda>t. link_prev (tcbs k' t)"],
      rule exI [of _ "lists k'"]) (metis (no_types, lifting) assms ext)

lemma relinked_refl [simp]: "relinked k k"
  by (rule relinkedI) simp_all

text \<open>Replacing the sequence of one list.\<close>

lemma wf_lists_upd:
  assumes wf: "wf_lists k L" and new: "linked_list k' l xs"
    and other: "\<And>l'. l' \<noteq> l \<Longrightarrow> lists k' l' = lists k l'"
    and links: "\<And>x. x \<notin> set xs \<Longrightarrow> x \<notin> set (L l) \<Longrightarrow>
      link_next (tcbs k' x) = link_next (tcbs k x) \<and> link_prev (tcbs k' x) = link_prev (tcbs k x)"
    and disj: "\<And>l'. l' \<noteq> l \<Longrightarrow> set xs \<inter> set (L l') = {}"
  shows "wf_lists k' (L(l := xs))"
proof -
  have "linked_list k' l' (L l')" if "l' \<noteq> l" for l'
  proof -
    have "linked_list k l' (L l')" using wf by (rule wf_lists_linked)
    moreover have "x \<notin> set xs \<and> x \<notin> set (L l)" if "x \<in> set (L l')" for x
      using that disj [OF \<open>l' \<noteq> l\<close>] wf_lists_one [OF wf that] \<open>l' \<noteq> l\<close> by auto
    ultimately show ?thesis
      unfolding linked_list_def other [OF that]
      by (subst linked_cong [where nx = "\<lambda>t. link_next (tcbs k t)" and pv = "\<lambda>t. link_prev (tcbs k t)"])
        (auto simp: links)
  qed
  then show ?thesis
    using new wf disj by (auto simp: wf_lists_def disjoint_iff)
qed

subsection \<open>Correctness of the operations\<close>

lemma push_back_ok:
  assumes wf: "wf_lists k L" and new: "\<And>l'. t \<notin> set (L l')"
  shows "\<exists>k'. push_back l (Some t) k = Inr k' \<and> relinked k k' \<and>
           wf_lists k' (L(l := L l @ [t]))"
proof -
  let ?k1 = "set_tail l (Some t) (set_head l (Some t) (set_prev t None (set_next t None k)))"
  let ?k2 = "\<lambda>u. set_tail l (Some t) (set_next u (Some t) (set_prev t (Some u) (set_next t None k)))"
  have lk: "linked_list k l (L l)" using wf by (rule wf_lists_linked)
  show ?thesis
  proof (cases "tail (lists k l)")
    case None
    then have e: "L l = []" using wf by (simp add: wf_lists_tail)
    have "linked_list ?k1 l [t]"
      by (simp add: linked_list_def linked_def)
    then have "wf_lists ?k1 (L(l := [t]))"
      using new by (intro wf_lists_upd [OF wf]) (auto simp: upd_tcb_def upd_list_def)
    moreover have "relinked k ?k1"
      by (rule relinkedI) (simp_all add: upd_tcb_def upd_list_def)
    ultimately show ?thesis
      using None e by (simp add: push_back_def)
  next
    case (Some u)
    then have u: "last_of (L l) = Some u" using wf by (simp add: wf_lists_tail)
    then have ut: "u \<noteq> t" "L l \<noteq> []" using new [of l] by (auto dest: last_of_in)
    have "linked_list (?k2 u) l (L l @ [t])"
      unfolding linked_list_def
      by (rule linked_insert [where bs = "[]", OF _ _ _ _ _, simplified,
            OF lk [unfolded linked_list_def]])
        (use new u ut in auto)
    then have "wf_lists (?k2 u) (L(l := L l @ [t]))"
      using new u ut wf
      by (intro wf_lists_upd [OF wf])
        (auto simp: wf_lists_one dest: last_of_in)
    moreover have "relinked k (?k2 u)"
      by (rule relinkedI) (auto simp: upd_tcb_def upd_list_def)
    ultimately show ?thesis
      using Some by (auto simp: push_back_def Let_def)
  qed
qed

text \<open>The search loop ends, at the first task of lower priority.\<close>

lemma lower_from_ok:
  assumes "linked_list k l (as @ bs)"
  shows "lower_from k p (first_of bs) =
    Some (first_of (dropWhile (\<lambda>x. priority (tcbs k x) \<ge> p) bs))"
  using assms
proof (induction bs arbitrary: as)
  case Nil
  then show ?case by (simp add: lower_from.simps [of k p None])
next
  case (Cons x bs)
  have "link_next (tcbs k x) = first_of bs"
    using Cons.prems by (auto simp: linked_list_def dest: linked_next)
  then show ?case
    using Cons.IH [of "as @ [x]"] Cons.prems by (simp add: lower_from.simps [of k p "Some x"])
qed

text \<open>What \<open>insert_by_priority\<close> does to the sequence.\<close>

definition insert_prio :: "(tid \<Rightarrow> prio) \<Rightarrow> tid \<Rightarrow> tid list \<Rightarrow> tid list" where
  "insert_prio pr t xs =
     takeWhile (\<lambda>x. pr x \<ge> pr t) xs @ t # dropWhile (\<lambda>x. pr x \<ge> pr t) xs"

lemma set_insert_prio [simp]: "set (insert_prio pr t xs) = insert t (set xs)"
  by (simp add: insert_prio_def set_around)

text \<open>Higher priority towards the head; the order a wait list keeps.\<close>

definition prio_sorted :: "(tid \<Rightarrow> prio) \<Rightarrow> tid list \<Rightarrow> bool" where
  "prio_sorted pr xs \<longleftrightarrow> sorted_wrt (\<lambda>x y. pr y \<le> pr x) xs"

lemma prio_sorted_simps [simp]:
  "prio_sorted pr []"
  "prio_sorted pr (x # xs) \<longleftrightarrow> (\<forall>y \<in> set xs. pr y \<le> pr x) \<and> prio_sorted pr xs"
  by (auto simp: prio_sorted_def)

lemma prio_sorted_append: "prio_sorted pr (xs @ ys) \<longleftrightarrow>
    prio_sorted pr xs \<and> prio_sorted pr ys \<and> (\<forall>x \<in> set xs. \<forall>y \<in> set ys. pr y \<le> pr x)"
  by (auto simp: prio_sorted_def sorted_wrt_append)

lemma prio_sorted_cong: "(\<And>x. x \<in> set xs \<Longrightarrow> pr x = pr' x) \<Longrightarrow> prio_sorted pr xs = prio_sorted pr' xs"
  unfolding prio_sorted_def by (induction xs) auto

lemma prio_sorted_remove1: "prio_sorted pr xs \<Longrightarrow> prio_sorted pr (remove1 t xs)"
  by (induction xs) (use notin_set_remove1 in \<open>fastforce+\<close>)

text \<open>
  In a sorted list the place found is after all tasks of at least the same priority and
  before all others: strict priority, first come first served among equals.
\<close>

lemma sorted_takeWhile_filter:
  "prio_sorted pr xs \<Longrightarrow> takeWhile (\<lambda>x. pr x \<ge> p) xs = filter (\<lambda>x. pr x \<ge> p) xs"
proof (induction xs)
  case (Cons x xs)
  show ?case
  proof (cases "pr x \<ge> p")
    case False
    with Cons.prems have "filter (\<lambda>y. pr y \<ge> p) xs = []"
      by (auto simp: filter_empty_conv)
    with False show ?thesis by simp
  qed (use Cons in simp)
qed simp

lemma sorted_dropWhile_filter:
  "prio_sorted pr xs \<Longrightarrow> dropWhile (\<lambda>x. pr x \<ge> p) xs = filter (\<lambda>x. pr x < p) xs"
proof (induction xs)
  case (Cons x xs)
  show ?case
  proof (cases "pr x \<ge> p")
    case False
    with Cons.prems have "filter (\<lambda>y. pr y < p) xs = xs"
      by (auto simp: filter_id_conv)
    with False show ?thesis by simp
  qed (use Cons in auto)
qed simp

lemma insert_prio_filter:
  "prio_sorted pr xs \<Longrightarrow> insert_prio pr t xs =
     filter (\<lambda>x. pr x \<ge> pr t) xs @ t # filter (\<lambda>x. pr x < pr t) xs"
  by (simp add: insert_prio_def sorted_takeWhile_filter sorted_dropWhile_filter)

lemma prio_sorted_filter: "prio_sorted pr xs \<Longrightarrow> prio_sorted pr (filter P xs)"
  by (simp add: prio_sorted_def sorted_wrt_filter)

lemma prio_sorted_insert_prio:
  "prio_sorted pr xs \<Longrightarrow> prio_sorted pr (insert_prio pr t xs)"
  by (auto simp: insert_prio_filter prio_sorted_append prio_sorted_filter)

lemma insert_by_priority_ok:
  assumes wf: "wf_lists k L" and new: "\<And>l'. t \<notin> set (L l')"
  shows "\<exists>k'. insert_by_priority l (Some t) k = Inr k' \<and> relinked k k' \<and>
           wf_lists k' (L(l := insert_prio (\<lambda>x. priority (tcbs k x)) t (L l)))"
proof -
  let ?P = "\<lambda>x. priority (tcbs k x) \<ge> priority (tcbs k t)"
  have scan: "lower_from k (priority (tcbs k t)) (head (lists k l)) =
      Some (first_of (dropWhile ?P (L l)))"
    using lower_from_ok [of k l "[]" "L l" "priority (tcbs k t)"] wf
    by (simp add: wf_lists_head wf_lists_linked)
  show ?thesis
  proof (cases "dropWhile ?P (L l)")
    case Nil
    then have "insert_prio (\<lambda>x. priority (tcbs k x)) t (L l) = L l @ [t]"
      by (metis append_Nil2 insert_prio_def takeWhile_dropWhile_id)
    then show ?thesis
      using push_back_ok [OF wf new, of l] scan Nil by (auto simp: insert_by_priority_def)
  next
    case (Cons c bs)
    define as where "as = takeWhile ?P (L l)"
    have L: "L l = as @ c # bs"
      using Cons by (metis as_def takeWhile_dropWhile_id)
    have lk: "linked_list k l (as @ c # bs)"
      using wf_lists_linked [OF wf, of l] L by simp
    have ct: "c \<noteq> t" "t \<notin> set as" "t \<notin> set bs" using new [of l] L by auto
    have pv: "link_prev (tcbs k c) = last_of as"
      using lk by (auto simp: linked_list_def dest: linked_prev)
    have cas: "c \<notin> set as" "c \<notin> set bs"
      using lk by (auto simp: linked_list_def linked_def)
    have hd: "head (lists k l) = first_of (as @ c # bs)" using wf L by (simp add: wf_lists_head)
    let ?k0 = "set_prev t (last_of as) (set_next t (Some c) k)"
    let ?k1 = "set_prev c (Some t) (case last_of as of Some b \<Rightarrow> set_next b (Some t) ?k0
                 | None \<Rightarrow> set_head l (Some t) ?k0)"
    have run: "insert_by_priority l (Some t) k = Inr ?k1"
      using scan Cons ct pv hd by (auto simp: insert_by_priority_def first_of_append Let_def cong: option.case_cong)
    have lb: "b \<noteq> t \<and> b \<noteq> c \<and> b \<in> set as" if "last_of as = Some b" for b
      using ct cas last_of_in [OF that] by auto
    have "linked_list ?k1 l (as @ t # c # bs)"
      unfolding linked_list_def
      by (rule linked_insert [OF lk [unfolded linked_list_def]])
        (use ct cas lb in \<open>auto split: option.splits\<close>)
    then have "wf_lists ?k1 (L(l := as @ t # c # bs))"
      using new L lb wf_lists_other [OF wf, of _ l]
      by (intro wf_lists_upd [OF wf]) (auto split: option.splits)
    moreover have "relinked k ?k1"
      by (rule relinkedI) (auto simp: upd_tcb_def upd_list_def split: option.splits)
    ultimately show ?thesis
      using run Cons by (auto simp: insert_prio_def as_def)
  qed
qed

lemma pop_front_empty: "wf_lists k L \<Longrightarrow> L l = [] \<Longrightarrow> pop_front l k = Inr (None, k)"
  by (simp add: pop_front_def wf_lists_head)

lemma pop_front_ok:
  assumes wf: "wf_lists k L" and L: "L l = t # bs"
  shows "\<exists>k'. pop_front l k = Inr (Some t, k') \<and> relinked k k' \<and> wf_lists k' (L(l := bs))"
proof -
  have lk: "linked_list k l ([] @ t # bs)" using wf_lists_linked [OF wf, of l] L by simp
  have nx: "link_next (tcbs k t) = first_of bs"
    using lk unfolding linked_list_def by (rule linked_next)
  have tb: "t \<notin> set bs" using wf_lists_distinct [OF wf, of l] L by simp
  let ?k0 = "set_head l (first_of bs) k"
  let ?k1 = "set_prev t None (set_next t None (case first_of bs of Some h \<Rightarrow> set_prev h None ?k0
               | None \<Rightarrow> set_tail l None ?k0))"
  have run: "pop_front l k = Inr (Some t, ?k1)"
    using wf L nx by (simp add: pop_front_def wf_lists_head Let_def)
  have fb: "h \<noteq> t \<and> h \<in> set bs" if "first_of bs = Some h" for h
    using tb first_of_in [OF that] by auto
  have "linked_list ?k1 l ([] @ bs)"
    unfolding linked_list_def
    by (rule linked_delete [OF lk [unfolded linked_list_def]])
      (use tb fb in \<open>auto split: option.splits\<close>)
  then have "wf_lists ?k1 (L(l := bs))"
    using L fb wf_lists_other [OF wf, of _ l]
    by (intro wf_lists_upd [OF wf]) (auto split: option.splits)
  moreover have "relinked k ?k1"
    by (rule relinkedI) (auto simp: upd_tcb_def upd_list_def split: option.splits)
  ultimately show ?thesis using run by blast
qed

lemma list_remove_ok:
  assumes wf: "wf_lists k L" and t: "t \<in> set (L l)"
  shows "\<exists>k'. list_remove l (Some t) k = Inr k' \<and> relinked k k' \<and>
           wf_lists k' (L(l := remove1 t (L l)))"
proof -
  from t obtain as bs where L: "L l = as @ t # bs" by (auto simp: in_set_conv_decomp)
  have lk: "linked_list k l (as @ t # bs)" using wf_lists_linked [OF wf, of l] L by simp
  have tb: "t \<notin> set as" "t \<notin> set bs" and dab: "set as \<inter> set bs = {}"
    using wf_lists_distinct [OF wf, of l] L by auto
  have nx: "link_next (tcbs k t) = first_of bs" and pv: "link_prev (tcbs k t) = last_of as"
    using lk by (auto simp: linked_list_def dest: linked_next linked_prev)
  let ?k0 = "case last_of as of Some b \<Rightarrow> set_next b (first_of bs) k
               | None \<Rightarrow> set_head l (first_of bs) k"
  let ?k1 = "set_prev t None (set_next t None (case first_of bs of
               Some h \<Rightarrow> set_prev h (last_of as) ?k0 | None \<Rightarrow> set_tail l (last_of as) ?k0))"
  have fb: "h \<noteq> t \<and> h \<in> set bs" if "first_of bs = Some h" for h
    using tb first_of_in [OF that] by auto
  have la: "b \<noteq> t \<and> b \<in> set as" if "last_of as = Some b" for b
    using tb last_of_in [OF that] by auto
  have k0: "link_next (tcbs ?k0 t) = first_of bs" "link_prev (tcbs ?k0 t) = last_of as"
    using nx pv la by (auto split: option.splits)
  have run: "list_remove l (Some t) k = Inr ?k1"
    unfolding list_remove_def option.case Let_def nx pv k0 ..
  have "linked_list ?k1 l (as @ bs)"
    unfolding linked_list_def
    by (rule linked_delete [OF lk [unfolded linked_list_def]])
      (use tb fb la dab in \<open>auto split: option.splits\<close>)
  then have "wf_lists ?k1 (L(l := as @ bs))"
    using L fb la wf_lists_other [OF wf, of _ l]
    by (intro wf_lists_upd [OF wf]) (auto split: option.splits)
  moreover have "relinked k ?k1"
    by (rule relinkedI) (auto simp: upd_tcb_def upd_list_def split: option.splits)
  moreover have "remove1 t (L l) = as @ bs"
    using L wf_lists_distinct [OF wf, of l] by (simp add: remove1_split)
  ultimately show ?thesis using run by auto
qed

end
