(* ===== verification/Delay_List.thy ===== *)
theory Delay_List
  imports Kernel_State
begin

text \<open>
  \<open>DelayList\<close> (task.hpp 80-108, task.cpp 109-153): sleeping tasks in order of wake-up, each
  node storing the ticks left after its predecessor expires. \<open>wf_delay k W\<close> is the
  abstraction: \<open>W\<close> lists the sleeping tasks with the number of ticks each has left. An
  insertion adds an entry to \<open>W\<close> and leaves the others alone, although it writes the delta
  of the successor; so does a removal. Advancing time is in theory Delay_Tick.
\<close>

subsection \<open>The operations\<close>

text \<open>The search loop of \<open>insert\<close>, with its three variables.\<close>

partial_function (option) delay_scan ::
  "kernel \<Rightarrow> tick \<Rightarrow> tptr \<Rightarrow> tptr \<Rightarrow> (tick \<times> tptr \<times> tptr) option" where
  "delay_scan k ticks prev current =
     (case current of
        None \<Rightarrow> Some (ticks, prev, None)
      | Some c \<Rightarrow>
          if ticks \<ge> delay_ticks (tcbs k c)
          then delay_scan k (ticks - delay_ticks (tcbs k c)) (Some c) (delay_next (tcbs k c))
          else Some (ticks, prev, current))"

definition delay_insert :: "tptr \<Rightarrow> tick \<Rightarrow> kernel \<Rightarrow> kernel res" where
  "delay_insert task ticks k =
     acr_assert k (task \<noteq> None)
      (deref task (\<lambda>t.
       acr_assert k (\<not> in_delay_list (tcbs k t))
        (andthen (loop_res (delay_scan k ticks None (delay_head k))) (\<lambda>(ticks, prev, current).
          let k = upd_tcb t (\<lambda>b. b\<lparr>delay_ticks := ticks\<rparr>) k;
              k = set_delay_prev t prev k;
              k = set_delay_next t current k;
              k = (case prev of Some p \<Rightarrow> set_delay_next p (Some t) k
                   | None \<Rightarrow> k\<lparr>delay_head := Some t\<rparr>);
              k = (case current of
                     Some c \<Rightarrow> upd_tcb c (\<lambda>b. b\<lparr>delay_ticks := delay_ticks b - ticks\<rparr>)
                                 (set_delay_prev c (Some t) k)
                   | None \<Rightarrow> k)
          in Inr (upd_tcb t (\<lambda>b. b\<lparr>in_delay_list := True\<rparr>) k)))))"

definition delay_remove :: "tptr \<Rightarrow> kernel \<Rightarrow> kernel" where
  "delay_remove task k =
     (case task of
        None \<Rightarrow> k
      | Some t \<Rightarrow>
          if \<not> in_delay_list (tcbs k t) then k
          else
            let k = (case delay_next (tcbs k t) of
                       Some n \<Rightarrow>
                         let k = upd_tcb n (\<lambda>b. b\<lparr>delay_ticks :=
                                   delay_ticks b + delay_ticks (tcbs k t)\<rparr>) k
                         in set_delay_prev n (delay_prev (tcbs k t)) k
                     | None \<Rightarrow> k);
                k = (case delay_prev (tcbs k t) of
                       Some p \<Rightarrow> set_delay_next p (delay_next (tcbs k t)) k
                     | None \<Rightarrow> k\<lparr>delay_head := delay_next (tcbs k t)\<rparr>);
                k = set_delay_next t None k;
                k = set_delay_prev t None k;
                k = upd_tcb t (\<lambda>b. b\<lparr>delay_ticks := 0\<rparr>) k
            in upd_tcb t (\<lambda>b. b\<lparr>in_delay_list := False\<rparr>) k)"

subsection \<open>Abstraction to wake-up times\<close>

text \<open>\<open>deltas d acc W\<close>: the deltas \<open>d\<close> of the nodes add up, from \<open>acc\<close>, to the ticks in \<open>W\<close>.\<close>

fun deltas :: "(tid \<Rightarrow> nat) \<Rightarrow> nat \<Rightarrow> (tid \<times> nat) list \<Rightarrow> bool" where
  "deltas d acc [] = True"
| "deltas d acc ((t, n) # W) = (n = acc + d t \<and> deltas d n W)"

definition last_time :: "nat \<Rightarrow> (tid \<times> nat) list \<Rightarrow> nat" where
  "last_time acc W = (if W = [] then acc else snd (last W))"

lemma last_time_simps [simp]:
  "last_time acc [] = acc" "last_time acc (w # W) = last_time (snd w) W"
  by (simp_all add: last_time_def)

lemma deltas_append: "deltas d acc (A @ B) \<longleftrightarrow> deltas d acc A \<and> deltas d (last_time acc A) B"
  by (induction d acc A rule: deltas.induct) auto

lemma deltas_cong:
  "(\<And>t. t \<in> fst ` set W \<Longrightarrow> d t = d' t) \<Longrightarrow> deltas d acc W = deltas d' acc W"
  by (induction d acc W rule: deltas.induct) auto

lemma deltas_ge: "deltas d acc W \<Longrightarrow> (t, n) \<in> set W \<Longrightarrow> acc \<le> n"
  by (induction d acc W rule: deltas.induct) force+

lemma deltas_sorted: "deltas d acc W \<Longrightarrow> sorted (map snd W)"
  by (induction d acc W rule: deltas.induct) (auto dest: deltas_ge)

abbreviation delta :: "kernel \<Rightarrow> tid \<Rightarrow> nat" where
  "delta k t \<equiv> unat (delay_ticks (tcbs k t))"

definition delay_linked :: "kernel \<Rightarrow> tid list \<Rightarrow> bool" where
  "delay_linked k ts = linked (\<lambda>t. delay_next (tcbs k t)) (\<lambda>t. delay_prev (tcbs k t))
     (delay_head k) (last_of ts) ts"

definition wf_delay :: "kernel \<Rightarrow> (tid \<times> nat) list \<Rightarrow> bool" where
  "wf_delay k W \<longleftrightarrow>
     delay_linked k (map fst W) \<and> deltas (delta k) 0 W \<and>
     (\<forall>(t, n) \<in> set W. n < 2 ^ 32) \<and>
     (\<forall>t. in_delay_list (tcbs k t) \<longleftrightarrow> t \<in> fst ` set W)"

lemma wf_delay_member: "wf_delay k W \<Longrightarrow> in_delay_list (tcbs k t) \<longleftrightarrow> t \<in> fst ` set W"
  by (simp add: wf_delay_def)

lemma wf_delay_head: "wf_delay k W \<Longrightarrow> delay_head k = first_of (map fst W)"
  by (auto simp: wf_delay_def delay_linked_def linked_def)

lemma wf_delay_distinct: "wf_delay k W \<Longrightarrow> distinct (map fst W)"
  by (auto simp: wf_delay_def delay_linked_def linked_def)

lemma wf_delay_sorted: "wf_delay k W \<Longrightarrow> sorted (map snd W)"
  by (auto simp: wf_delay_def dest: deltas_sorted)

text \<open>What the operations do to the abstract list.\<close>

definition insert_wake :: "tid \<Rightarrow> nat \<Rightarrow> (tid \<times> nat) list \<Rightarrow> (tid \<times> nat) list" where
  "insert_wake t n W = takeWhile (\<lambda>w. snd w \<le> n) W @ (t, n) # dropWhile (\<lambda>w. snd w \<le> n) W"

definition remove_wake :: "tid \<Rightarrow> (tid \<times> nat) list \<Rightarrow> (tid \<times> nat) list" where
  "remove_wake t W = filter (\<lambda>w. fst w \<noteq> t) W"

lemma set_insert_wake [simp]: "set (insert_wake t n W) = insert (t, n) (set W)"
  by (simp add: insert_wake_def set_around)

lemma set_remove_wake [simp]: "set (remove_wake t W) = {w \<in> set W. fst w \<noteq> t}"
  by (simp add: remove_wake_def)

lemma remove_wake_split:
  "distinct (map fst (A @ (t, n) # B)) \<Longrightarrow> remove_wake t (A @ (t, n) # B) = A @ B"
  by (auto simp: remove_wake_def filter_id_conv intro!: arg_cong2 [of _ _ _ _ "(@)"])

text \<open>Two states that differ in the delay list only.\<close>

definition delay_relinked :: "kernel \<Rightarrow> kernel \<Rightarrow> bool" where
  "delay_relinked k k' \<longleftrightarrow>
     (\<exists>nx pv dt ind h. k' = k\<lparr>tcbs := (\<lambda>t. (tcbs k t)\<lparr>delay_ticks := dt t, delay_prev := pv t,
        delay_next := nx t, in_delay_list := ind t\<rparr>), delay_head := h\<rparr>)"

lemma delay_relinkedE:
  assumes "delay_relinked k k'"
  obtains nx pv dt ind h where
    "k' = k\<lparr>tcbs := (\<lambda>t. (tcbs k t)\<lparr>delay_ticks := dt t, delay_prev := pv t,
        delay_next := nx t, in_delay_list := ind t\<rparr>), delay_head := h\<rparr>"
  using assms by (auto simp: delay_relinked_def)

lemma delay_relinkedI:
  assumes "k' = k\<lparr>tcbs := tcbs k', delay_head := delay_head k'\<rparr>"
    and "\<And>t. tcbs k' t = (tcbs k t)\<lparr>delay_ticks := delay_ticks (tcbs k' t),
      delay_prev := delay_prev (tcbs k' t), delay_next := delay_next (tcbs k' t),
      in_delay_list := in_delay_list (tcbs k' t)\<rparr>"
  shows "delay_relinked k k'"
  unfolding delay_relinked_def
  by (rule exI [of _ "\<lambda>t. delay_next (tcbs k' t)"], rule exI [of _ "\<lambda>t. delay_prev (tcbs k' t)"],
      rule exI [of _ "\<lambda>t. delay_ticks (tcbs k' t)"], rule exI [of _ "\<lambda>t. in_delay_list (tcbs k' t)"],
      rule exI [of _ "delay_head k'"]) (metis (no_types, lifting) assms ext)

lemma delay_relinked_refl [simp]: "delay_relinked k k"
  by (rule delay_relinkedI) simp_all

subsection \<open>Correctness of insertion\<close>

lemma delay_scan_ok:
  assumes "delay_linked k (map fst (A @ B))" and "deltas (delta k) acc B"
    and "unat ticks = n - acc" and "acc \<le> n" and "n < 2 ^ 32"
    and "B' = dropWhile (\<lambda>w. snd w \<le> n) B" and "A' = A @ takeWhile (\<lambda>w. snd w \<le> n) B"
    and "acc' = last_time acc (takeWhile (\<lambda>w. snd w \<le> n) B)"
  shows "\<exists>ticks'. delay_scan k ticks (last_of (map fst A)) (first_of (map fst B)) =
           Some (ticks', last_of (map fst A'), first_of (map fst B')) \<and>
           unat ticks' = n - acc' \<and> acc' \<le> n"
  using assms
proof (induction B arbitrary: A acc ticks acc' A' B')
  case Nil
  then show ?case by (simp add: delay_scan.simps [of k ticks _ None])
next
  case (Cons w B)
  obtain c m where w: "w = (c, m)" by (cases w)
  from Cons.prems(2) w have m: "m = acc + delta k c" and dl: "deltas (delta k) m B" by auto
  have le: "delay_ticks (tcbs k c) \<le> ticks \<longleftrightarrow> m \<le> n"
    using Cons.prems(3,4) m by (simp add: word_le_nat_alt) linarith
  show ?case
  proof (cases "m \<le> n")
    case False
    then show ?thesis
      using Cons.prems w le by (simp add: delay_scan.simps [of k ticks _ "Some c"])
  next
    case True
    have nx: "delay_next (tcbs k c) = first_of (map fst B)"
      using Cons.prems(1) w unfolding delay_linked_def map_append list.map fst_conv
      by (rule_tac linked_next) auto
    have t': "unat (ticks - delay_ticks (tcbs k c)) = n - m"
      using True le Cons.prems(3) m by (simp add: unat_sub_le)
    have "\<exists>ticks'. delay_scan k (ticks - delay_ticks (tcbs k c)) (last_of (map fst (A @ [w])))
             (first_of (map fst B)) =
           Some (ticks', last_of (map fst A'), first_of (map fst B')) \<and>
           unat ticks' = n - acc' \<and> acc' \<le> n"
      using Cons.prems w True dl t' by (intro Cons.IH) auto
    then show ?thesis
      using w True le nx by (simp add: delay_scan.simps [of k ticks _ "Some c"])
  qed
qed

text \<open>
  Storing the new node between the two parts of the list: the links, then the deltas (only
  the successor's changes).
\<close>

lemma delay_insert_ok:
  assumes wf: "wf_delay k W" and new: "t \<notin> fst ` set W"
  shows "\<exists>k'. delay_insert (Some t) n k = Inr k' \<and> delay_relinked k k' \<and>
           wf_delay k' (insert_wake t (unat n) W)"
proof -
  define A where "A = takeWhile (\<lambda>w. snd w \<le> unat n) W"
  define B where "B = dropWhile (\<lambda>w. snd w \<le> unat n) W"
  have W: "W = A @ B" by (simp add: A_def B_def)
  have lk: "delay_linked k (map fst A @ map fst B)" and dl: "deltas (delta k) 0 (A @ B)"
    and bd: "\<forall>(s, m) \<in> set W. m < 2 ^ 32"
    and ind: "\<And>s. in_delay_list (tcbs k s) \<longleftrightarrow> s \<in> fst ` set W"
    using wf W by (auto simp: wf_delay_def)
  have dst: "distinct (map fst A @ map fst B)" using wf_delay_distinct [OF wf] W by simp
  have "\<exists>ticks'. delay_scan k n (last_of (map fst ([] :: (tid \<times> nat) list))) (first_of (map fst W)) =
          Some (ticks', last_of (map fst A), first_of (map fst B)) \<and>
          unat ticks' = unat n - last_time 0 A \<and> last_time 0 A \<le> unat n"
    by (rule delay_scan_ok [where acc = 0])
      (use wf in \<open>auto simp: wf_delay_def A_def B_def\<close>)
  then obtain d where scan: "delay_scan k n None (delay_head k) =
        Some (d, last_of (map fst A), first_of (map fst B))"
    and d: "unat d = unat n - last_time 0 A" "last_time 0 A \<le> unat n"
    using wf by (auto simp: wf_delay_head)
  have nt: "t \<notin> set (map fst A @ map fst B)" using new W by auto
  let ?k0 = "set_delay_next t (first_of (map fst B)) (set_delay_prev t (last_of (map fst A))
               (upd_tcb t (\<lambda>b. b\<lparr>delay_ticks := d\<rparr>) k))"
  let ?k1 = "case last_of (map fst A) of Some p \<Rightarrow> set_delay_next p (Some t) ?k0
               | None \<Rightarrow> ?k0\<lparr>delay_head := Some t\<rparr>"
  let ?k2 = "case first_of (map fst B) of
               Some c \<Rightarrow> upd_tcb c (\<lambda>b. b\<lparr>delay_ticks := delay_ticks b - d\<rparr>)
                           (set_delay_prev c (Some t) ?k1)
             | None \<Rightarrow> ?k1"
  let ?k3 = "upd_tcb t (\<lambda>b. b\<lparr>in_delay_list := True\<rparr>) ?k2"
  have run: "delay_insert (Some t) n k = Inr ?k3"
    using scan ind new by (simp add: delay_insert_def Let_def run_simps)
  have la: "p \<noteq> t \<and> p \<in> set (map fst A) \<and> p \<notin> set (map fst B)" if "last_of (map fst A) = Some p" for p
    using nt dst last_of_in [OF that] by auto
  have fb: "c \<noteq> t \<and> c \<in> set (map fst B) \<and> c \<notin> set (map fst A)" if "first_of (map fst B) = Some c" for c
    using nt dst first_of_in [OF that] by auto
  have "linked (\<lambda>s. delay_next (tcbs ?k3 s)) (\<lambda>s. delay_prev (tcbs ?k3 s)) (delay_head ?k3)
      (last_of (map fst A @ t # map fst B)) (map fst A @ t # map fst B)"
    by (rule linked_insert [OF lk [unfolded delay_linked_def]])
      (use nt la fb in \<open>auto simp: last_of_append last_of_Cons split: option.splits\<close>)
  moreover have "deltas (delta ?k3) 0 (A @ (t, unat n) # B)"
  proof -
    define D where "D = delta ?k3"
    have Dt: "D t = unat d"
      and Dc: "first_of (map fst B) = Some x \<Longrightarrow> D x = unat (delay_ticks (tcbs k x) - d)"
      and Dx: "x \<noteq> t \<Longrightarrow> first_of (map fst B) \<noteq> Some x \<Longrightarrow> D x = delta k x" for x
      using la fb by (auto simp: D_def split: option.splits)
    have "deltas D 0 A"
      using dl nt fb by (subst deltas_cong [where d' = "delta k"])
        (auto simp: deltas_append intro!: Dx)
    moreover have "deltas D (unat n) B"
    proof (cases B)
      case (Cons w B')
      obtain c m where w: "w = (c, m)" by (cases w)
      have m: "unat n < m" "m = last_time 0 A + delta k c" "deltas (delta k) m B'"
        using Cons w dl hd_dropWhile_not [of "\<lambda>w. snd w \<le> unat n" W w B']
        by (auto simp: B_def deltas_append)
      then have "d \<le> delay_ticks (tcbs k c)"
        using d by (simp add: word_le_nat_alt)
      then have "m = unat n + D c"
        using m d Cons w by (simp add: Dc unat_sub_le)
      moreover have "deltas D m B'"
        using m(3) nt dst Cons w by (subst deltas_cong [where d' = "delta k"])
          (auto simp: image_iff intro!: Dx)
      ultimately show ?thesis using Cons w by simp
    qed simp
    ultimately have "deltas D 0 (A @ (t, unat n) # B)" using d by (simp add: deltas_append Dt)
    then show ?thesis unfolding D_def .
  qed
  moreover have "\<forall>(s, m) \<in> set (A @ (t, unat n) # B). m < 2 ^ 32"
    using bd W by auto
  moreover have "in_delay_list (tcbs ?k3 s) \<longleftrightarrow> s \<in> fst ` set (A @ (t, unat n) # B)" for s
    using ind [of s] W la fb by (auto split: option.splits)
  ultimately have "wf_delay ?k3 (insert_wake t (unat n) W)"
    unfolding wf_delay_def delay_linked_def insert_wake_def A_def [symmetric] B_def [symmetric]
    by simp
  moreover have "delay_relinked k ?k3"
    by (rule delay_relinkedI) (auto simp: upd_tcb_def split: option.splits)
  ultimately show ?thesis using run by blast
qed

subsection \<open>Correctness of removal\<close>

lemma delay_remove_absent:
  "wf_delay k W \<Longrightarrow> t \<notin> fst ` set W \<Longrightarrow> delay_remove (Some t) k = k"
  by (simp add: delay_remove_def wf_delay_member)

lemma delay_remove_present:
  assumes wf: "wf_delay k W" and W: "W = A @ (t, n) # B"
  shows "delay_relinked k (delay_remove (Some t) k) \<and> wf_delay (delay_remove (Some t) k) (A @ B)"
proof -
  have lk: "delay_linked k (map fst A @ t # map fst B)"
    and dl: "deltas (delta k) 0 (A @ (t, n) # B)"
    and bd: "\<forall>(s, m) \<in> set W. m < 2 ^ 32"
    and ind: "\<And>s. in_delay_list (tcbs k s) \<longleftrightarrow> s \<in> fst ` set W"
    using wf W by (auto simp: wf_delay_def)
  have dst: "distinct (map fst A @ t # map fst B)" using wf_delay_distinct [OF wf] W by simp
  have nx: "delay_next (tcbs k t) = first_of (map fst B)"
    and pv: "delay_prev (tcbs k t) = last_of (map fst A)"
    using lk unfolding delay_linked_def by (auto dest: linked_next linked_prev)
  have la: "p \<noteq> t \<and> p \<in> set (map fst A) \<and> p \<notin> set (map fst B)" if "last_of (map fst A) = Some p" for p
    using dst last_of_in [OF that] by auto
  have fb: "c \<noteq> t \<and> c \<in> set (map fst B) \<and> c \<notin> set (map fst A)" if "first_of (map fst B) = Some c" for c
    using dst first_of_in [OF that] by auto
  have member: "in_delay_list (tcbs k t)" using ind [of t] W by simp
  let ?b = "\<lambda>c. upd_tcb c (\<lambda>b. b\<lparr>delay_ticks := delay_ticks b + delay_ticks (tcbs k t)\<rparr>) k"
  define k1 where "k1 = (case first_of (map fst B) of
      Some c \<Rightarrow> set_delay_prev c (last_of (map fst A)) (?b c) | None \<Rightarrow> k)"
  define k2 where "k2 = (case last_of (map fst A) of
      Some p \<Rightarrow> set_delay_next p (first_of (map fst B)) k1
    | None \<Rightarrow> k1\<lparr>delay_head := first_of (map fst B)\<rparr>)"
  define k' where "k' = upd_tcb t (\<lambda>b. b\<lparr>in_delay_list := False\<rparr>)
      (upd_tcb t (\<lambda>b. b\<lparr>delay_ticks := 0\<rparr>) (set_delay_prev t None (set_delay_next t None k2)))"
  have b: "delay_prev (tcbs (?b c) t) = last_of (map fst A)" for c using pv by auto
  have k1: "delay_next (tcbs k1 t) = first_of (map fst B)" "delay_prev (tcbs k1 t) = last_of (map fst A)"
    using nx pv fb by (auto simp: k1_def split: option.splits)
  have k1_fold: "(case first_of (map fst B) of None \<Rightarrow> k | Some n \<Rightarrow>
      set_delay_prev n (delay_prev (tcbs (?b n) t)) (?b n)) = k1"
    unfolding k1_def b ..
  have run: "delay_remove (Some t) k = k'"
    unfolding delay_remove_def Let_def option.case nx k1_fold k1 k2_def [symmetric] k'_def
    using member by simp
  have cols1: "delay_next (tcbs k1 s) = delay_next (tcbs k s)"
      "delay_prev (tcbs k1 s) = (if first_of (map fst B) = Some s then last_of (map fst A)
        else delay_prev (tcbs k s))"
      "delay_ticks (tcbs k1 s) = (if first_of (map fst B) = Some s
        then delay_ticks (tcbs k s) + delay_ticks (tcbs k t) else delay_ticks (tcbs k s))"
      "in_delay_list (tcbs k1 s) = in_delay_list (tcbs k s)"
      "delay_head k1 = delay_head k" for s
    by (auto simp: k1_def split: option.splits)
  have cols2: "delay_next (tcbs k2 s) = (if last_of (map fst A) = Some s then first_of (map fst B)
        else delay_next (tcbs k s))"
      "delay_prev (tcbs k2 s) = delay_prev (tcbs k1 s)" "delay_ticks (tcbs k2 s) = delay_ticks (tcbs k1 s)"
      "in_delay_list (tcbs k2 s) = in_delay_list (tcbs k s)"
      "delay_head k2 = (if A = [] then first_of (map fst B) else delay_head k)" for s
    by (auto simp: k2_def cols1 last_of_def split: option.splits)
  have cols: "delay_next (tcbs k' s) = (if s = t then None
        else if last_of (map fst A) = Some s then first_of (map fst B) else delay_next (tcbs k s))"
      "delay_prev (tcbs k' s) = (if s = t then None
        else if first_of (map fst B) = Some s then last_of (map fst A) else delay_prev (tcbs k s))"
      "delay_ticks (tcbs k' s) = (if s = t then 0 else if first_of (map fst B) = Some s
        then delay_ticks (tcbs k s) + delay_ticks (tcbs k t) else delay_ticks (tcbs k s))"
      "in_delay_list (tcbs k' s) \<longleftrightarrow> s \<noteq> t \<and> in_delay_list (tcbs k s)"
      "delay_head k' = (if A = [] then first_of (map fst B) else delay_head k)" for s
    by (simp_all add: k'_def cols1 cols2)
  have rel: "delay_relinked k k'"
    by (rule delay_relinkedI) (auto simp: k'_def k2_def k1_def upd_tcb_def split: option.splits)
  have "linked (\<lambda>s. delay_next (tcbs k' s)) (\<lambda>s. delay_prev (tcbs k' s)) (delay_head k')
      (last_of (map fst A @ map fst B)) (map fst A @ map fst B)"
    by (rule linked_delete [OF lk [unfolded delay_linked_def]])
      (use dst in \<open>auto simp: cols last_of_append last_of_Cons\<close>)
  moreover have "deltas (delta k') 0 (A @ B)"
  proof -
    define D where "D = delta k'"
    have Dc: "first_of (map fst B) = Some x \<Longrightarrow> D x = unat (delay_ticks (tcbs k x) + delay_ticks (tcbs k t))"
      and Dx: "x \<noteq> t \<Longrightarrow> first_of (map fst B) \<noteq> Some x \<Longrightarrow> D x = delta k x" for x
      using fb by (auto simp: D_def cols)
    have "deltas D 0 A"
      using dl dst fb by (subst deltas_cong [where d' = "delta k"])
        (auto simp: deltas_append intro!: Dx)
    moreover have "deltas D (last_time 0 A) B"
    proof (cases B)
      case (Cons w B')
      obtain c m where w: "w = (c, m)" by (cases w)
      have m: "m = last_time 0 A + delta k t + delta k c" "deltas (delta k) m B'" "m < 2 ^ 32"
        using Cons w dl bd W by (auto simp: deltas_append)
      then have "m = last_time 0 A + D c"
        using Cons w by (simp add: Dc unat_add_no_wrap)
      moreover have "deltas D m B'"
        using m(2) dst Cons w by (subst deltas_cong [where d' = "delta k"])
          (auto simp: image_iff intro!: Dx)
      ultimately show ?thesis using Cons w by simp
    qed simp
    ultimately have "deltas D 0 (A @ B)" by (simp add: deltas_append)
    then show ?thesis unfolding D_def .
  qed
  moreover have "in_delay_list (tcbs k' s) \<longleftrightarrow> s \<in> fst ` set (A @ B)" for s
    using ind [of s] W dst by (auto simp: cols)
  moreover have "\<forall>(s, m) \<in> set (A @ B). m < 2 ^ 32" using bd W by auto
  ultimately have "wf_delay k' (A @ B)"
    by (simp add: wf_delay_def delay_linked_def)
  with rel show ?thesis by (simp add: run)
qed

lemma delay_remove_ok:
  assumes wf: "wf_delay k W"
  shows "delay_relinked k (delay_remove (Some t) k) \<and>
         wf_delay (delay_remove (Some t) k) (remove_wake t W)"
proof (cases "t \<in> fst ` set W")
  case False
  then have "remove_wake t W = W" by (force simp: remove_wake_def filter_id_conv)
  with False wf show ?thesis by (simp add: delay_remove_absent)
next
  case True
  then obtain n A B where W: "W = A @ (t, n) # B" by (auto dest: split_list)
  then have "remove_wake t W = A @ B"
    using wf_delay_distinct [OF wf] by (simp add: remove_wake_split)
  then show ?thesis using delay_remove_present [OF wf W] by simp
qed

end
