(* ===== verification/Port.thy ===== *)
theory Port
  imports Kernel_State
begin

text \<open>
  The Cortex-M4 port (port.hpp, port_cm4.cpp): PRIMASK critical sections, the request for a
  context switch, the initial stack frame of a task, and the programming of SysTick. The
  memory is byte addressed and little-endian, as the Cortex-M4 is configured; the System
  Control Space registers are a separate store. The assembly part of the context switch
  (port_asm.s) is in theory Pend_Sv.
\<close>

subsection \<open>Critical sections\<close>

definition enter_critical :: "kernel \<Rightarrow> bool \<times> kernel" where
  "enter_critical k = (primask k, k\<lparr>primask := True\<rparr>)"

definition exit_critical :: "bool \<Rightarrow> kernel \<Rightarrow> kernel" where
  "exit_critical p k = k\<lparr>primask := p\<rparr>"

text \<open>
  The scope of a \<open>CriticalSection\<close> object: the constructor runs, then the body, then on
  every way out the destructor. \<open>critical_u\<close> is the same for a body without a result.
\<close>

definition critical :: "(kernel \<Rightarrow> ('a \<times> kernel) res) \<Rightarrow> kernel \<Rightarrow> ('a \<times> kernel) res" where
  "critical body k =
     (let (p, k1) = enter_critical k
      in andthen (body k1) (\<lambda>(v, k2). Inr (v, exit_critical p k2)))"

definition critical_u :: "(kernel \<Rightarrow> kernel res) \<Rightarrow> kernel \<Rightarrow> kernel res" where
  "critical_u body k =
     (let (p, k1) = enter_critical k
      in andthen (body k1) (\<lambda>k2. Inr (exit_critical p k2)))"

lemma critical_Inr [run_simps]:
  "body (k\<lparr>primask := True\<rparr>) = Inr (v, k') \<Longrightarrow>
   critical body k = Inr (v, k'\<lparr>primask := primask k\<rparr>)"
  by (simp add: critical_def enter_critical_def exit_critical_def)

lemma critical_u_Inr [run_simps]:
  "body (k\<lparr>primask := True\<rparr>) = Inr k' \<Longrightarrow>
   critical_u body k = Inr (k'\<lparr>primask := primask k\<rparr>)"
  by (simp add: critical_u_def enter_critical_def exit_critical_def)

definition in_isr :: "kernel \<Rightarrow> bool" where
  "in_isr k \<longleftrightarrow> ipsr k \<noteq> 0"

text \<open>\<open>task_yield\<close> (port_asm.s) writes \<open>PENDSVSET\<close>.\<close>

definition task_yield :: "kernel \<Rightarrow> kernel" where
  "task_yield k = k\<lparr>pendsv := True\<rparr>"

subsection \<open>Memory words\<close>

definition store32 :: "addr \<Rightarrow> 32 word \<Rightarrow> (addr \<Rightarrow> 8 word) \<Rightarrow> addr \<Rightarrow> 8 word" where
  "store32 a w m = m(a := ucast w, a + 1 := ucast (drop_bit 8 w),
     a + 2 := ucast (drop_bit 16 w), a + 3 := ucast (drop_bit 24 w))"

definition load32 :: "addr \<Rightarrow> (addr \<Rightarrow> 8 word) \<Rightarrow> 32 word" where
  "load32 a m = ucast (m a) OR push_bit 8 (ucast (m (a + 1))) OR
     push_bit 16 (ucast (m (a + 2))) OR push_bit 24 (ucast (m (a + 3)))"

lemma load32_store32 [simp]: "load32 a (store32 a w m) = w"
proof (rule bit_word_eqI)
  fix n assume "n < LENGTH(32)"
  then consider "n < 8" | "8 \<le> n" "n < 16" | "16 \<le> n" "n < 24" | "24 \<le> n" "n < 32" by fastforce
  then show "bit (load32 a (store32 a w m)) n = bit w n"
    by cases (auto simp: load32_def store32_def bit_simps)
qed

lemma store32_other: "b < a \<or> a + 4 \<le> b \<Longrightarrow> store32 a w m b = m b"
  by (auto simp: store32_def)

lemma load32_store32_other:
  "b + 4 \<le> a \<or> a + 4 \<le> b \<Longrightarrow> load32 b (store32 a w m) = load32 b m"
  by (auto simp: load32_def store32_def)

subsection \<open>The initial stack frame\<close>

text \<open>\<open>*(--sp) = w\<close>.\<close>

definition push32 :: "32 word \<Rightarrow> addr \<times> (addr \<Rightarrow> 8 word) \<Rightarrow> addr \<times> (addr \<Rightarrow> 8 word)" where
  "push32 w s = (fst s - 4, store32 (fst s - 4) w (snd s))"

definition init_task_stack ::
  "addr \<Rightarrow> addr \<Rightarrow> addr \<Rightarrow> (addr \<Rightarrow> 8 word) \<Rightarrow> addr \<times> (addr \<Rightarrow> 8 word)" where
  "init_task_stack stack_top task_func param m =
     (let s = (stack_top, m);
          s = push32 0x01000000 s;
          s = push32 (of_nat task_func OR 1) s;
          s = push32 0 s;
          s = push32 0 s;
          s = push32 0 s;
          s = push32 0 s;
          s = push32 0 s;
          s = push32 (of_nat param) s;
          s = push32 0xFFFFFFFD s
      in (push32 0 ^^ 8) s)"

text \<open>The words of the frame, from its lowest address: r4-r11, r14, then the hardware frame.\<close>

definition frame_words :: "addr \<Rightarrow> addr \<Rightarrow> 32 word list" where
  "frame_words task_func param =
     replicate 8 0 @ [0xFFFFFFFD, of_nat param, 0, 0, 0, 0, 0, of_nat task_func OR 1, 0x01000000]"

lemma init_task_stack_sp: "fst (init_task_stack hi f p m) = hi - 68"
  by (simp add: init_task_stack_def push32_def numeral_eq_Suc Let_def)

text \<open>A stack of words, for any content: what a sequence of pushes leaves in memory.\<close>

fun push_all :: "32 word list \<Rightarrow> addr \<times> (addr \<Rightarrow> 8 word) \<Rightarrow> addr \<times> (addr \<Rightarrow> 8 word)" where
  "push_all [] s = s"
| "push_all (w # ws) s = push_all ws (push32 w s)"

lemma push_all_above:
  "fst s \<le> b \<Longrightarrow> 4 * length ws \<le> fst s \<Longrightarrow> snd (push_all ws s) b = snd s b"
  by (induction ws arbitrary: s) (auto simp: push32_def store32_other)

lemma push_all_below:
  "b < fst s - 4 * length ws \<Longrightarrow> 4 * length ws \<le> fst s \<Longrightarrow> snd (push_all ws s) b = snd s b"
  by (induction ws arbitrary: s) (auto simp: push32_def intro!: store32_other)

lemma push_all_load:
  assumes "i < length ws" and "4 * length ws \<le> fst s"
  shows "load32 (fst s - 4 * Suc i) (snd (push_all ws s)) = ws ! i"
  using assms
proof (induction ws arbitrary: s i)
  case (Cons w ws)
  show ?case
  proof (cases i)
    case 0
    have "snd (push_all ws (push32 w s)) b = snd (push32 w s) b" if "fst s - 4 \<le> b" for b
      using that Cons.prems by (intro push_all_above) (auto simp: push32_def)
    then have "load32 (fst s - 4) (snd (push_all ws (push32 w s))) = load32 (fst s - 4) (snd (push32 w s))"
      by (simp add: load32_def)
    then show ?thesis using 0 by (simp add: push32_def)
  next
    case (Suc j)
    then show ?thesis using Cons.IH [of j "push32 w s"] Cons.prems by (simp add: push32_def)
  qed
qed simp

lemma init_task_stack_pushes:
  "init_task_stack hi f p m = push_all (rev (frame_words f p)) (hi, m)"
  by (simp add: init_task_stack_def frame_words_def Let_def numeral_eq_Suc)

lemma init_task_stack_frame:
  assumes "68 \<le> hi" and "i < 17"
  shows "load32 (hi - 68 + 4 * i) (snd (init_task_stack hi f p m)) = frame_words f p ! i"
proof -
  have len: "length (frame_words f p) = 17" by (simp add: frame_words_def)
  have "hi - 68 + 4 * i = fst (hi, m) - 4 * Suc (16 - i)" using assms by auto
  moreover have "rev (frame_words f p) ! (16 - i) = frame_words f p ! i"
    using assms len by (simp add: rev_nth)
  ultimately show ?thesis
    using push_all_load [of "16 - i" "rev (frame_words f p)" "(hi, m)"] assms len
    by (simp add: init_task_stack_pushes)
qed

lemma init_task_stack_outside:
  assumes "68 \<le> hi" and "a < hi - 68 \<or> hi \<le> a"
  shows "snd (init_task_stack hi f p m) a = m a"
  using assms push_all_above [of "(hi, m)" a "rev (frame_words f p)"]
    push_all_below [of a "(hi, m)" "rev (frame_words f p)"]
  by (auto simp: init_task_stack_pushes frame_words_def)

subsection \<open>SysTick\<close>

definition kShpr3 :: "32 word" where "kShpr3 = 0xE000ED20"
definition kSystickCsr :: "32 word" where "kSystickCsr = 0xE000E010"
definition kSystickRvr :: "32 word" where "kSystickRvr = 0xE000E014"
definition kSystickCvr :: "32 word" where "kSystickCvr = 0xE000E018"
definition kCpacr :: "32 word" where "kCpacr = 0xE000ED88"
definition kFpccr :: "32 word" where "kFpccr = 0xE000EF34"

definition kSystickClkSource :: "32 word" where "kSystickClkSource = push_bit 2 1"
definition kSystickTickInt :: "32 word" where "kSystickTickInt = push_bit 1 1"
definition kSystickEnable :: "32 word" where "kSystickEnable = push_bit 0 1"

definition write_reg :: "32 word \<Rightarrow> 32 word \<Rightarrow> kernel \<Rightarrow> kernel" where
  "write_reg a w k = k\<lparr>regs := (regs k)(a := w)\<rparr>"

definition enable_fpu_lazy_stacking :: "kernel \<Rightarrow> kernel" where
  "enable_fpu_lazy_stacking k =
     (let k = write_reg kCpacr (regs k kCpacr OR push_bit 20 0xF) k
      in write_reg kFpccr (regs k kFpccr OR push_bit 30 3) k)"

definition systick_reload :: "32 word \<Rightarrow> 32 word" where
  "systick_reload hz = hz div (1000 div kTickRateMs) - 1"

definition configure_pendsv_and_systick :: "kernel \<Rightarrow> kernel res" where
  "configure_pendsv_and_systick k =
     (let shpr3 = regs k kShpr3;
          shpr3 = shpr3 AND NOT 0xFFFF0000;
          shpr3 = shpr3 OR push_bit 16 0xFF;
          shpr3 = shpr3 OR push_bit 24 0xFE;
          k = write_reg kShpr3 shpr3 k;
          reload = systick_reload (g_cpu_hz k)
      in acr_assert k (0 < reload \<and> reload \<le> 0x00FFFFFF)
          (let k = write_reg kSystickCsr 0 k;
               k = write_reg kSystickCvr 0 k;
               k = write_reg kSystickRvr reload k
           in Inr (write_reg kSystickCsr (kSystickClkSource OR kSystickTickInt OR kSystickEnable) k)))"

definition set_cpu_hz :: "32 word \<Rightarrow> kernel \<Rightarrow> kernel res" where
  "set_cpu_hz hz k = acr_assert k (hz \<ge> 1000) (Inr (k\<lparr>g_cpu_hz := hz\<rparr>))"

definition cpu_hz :: "kernel \<Rightarrow> 32 word" where
  "cpu_hz k = g_cpu_hz k"

text \<open>
  The routine does not return: the state is the one in which the processor waits for the
  first PendSV. A zero PSP tells the handler that there is no task to save.
\<close>

definition start_hardware_and_yield :: "kernel \<Rightarrow> kernel res" where
  "start_hardware_and_yield k =
     (let k = enable_fpu_lazy_stacking k;
          k = k\<lparr>psp := 0\<rparr>
      in andthen (configure_pendsv_and_systick k) (\<lambda>k. Inr (task_yield k)))"

end
