(* ===== verification/Kernel_Structure.thy ===== *)
theory Kernel_Structure
  imports Ready_Manager
begin

text \<open>
  The structural invariant of the kernel, \<open>wf_kernel k L W\<close>: the task lists hold the
  sequences \<open>L\<close>, the bitmask says which ready lists are not empty, the delay list holds
  \<open>W\<close>. Every primitive the scheduler and the synchronisation objects call on these
  structures gets one lemma: it returns without a fault, it does to \<open>L\<close> and \<open>W\<close> what its
  name says, and it leaves every field of the state that is not a link alone
  (\<open>reshuffled\<close>). The rest of the development never looks at a link again.
\<close>

definition wf_kernel :: "kernel \<Rightarrow> (list_id \<Rightarrow> tid list) \<Rightarrow> (tid \<times> nat) list \<Rightarrow> bool" where
  "wf_kernel k L W \<longleftrightarrow> wf_lists k L \<and> wf_ready k L \<and> wf_delay k W"

lemma wf_kernelD:
  assumes "wf_kernel k L W"
  shows "wf_lists k L" and "wf_ready k L" and "wf_delay k W"
  using assms by (simp_all add: wf_kernel_def)

text \<open>Only the links, the list ends, the bitmask and the deltas matter.\<close>

lemma wf_lists_cong:
  assumes "\<And>t. link_next (tcbs k' t) = link_next (tcbs k t)"
    and "\<And>t. link_prev (tcbs k' t) = link_prev (tcbs k t)" and "lists k' = lists k"
  shows "wf_lists k' L = wf_lists k L"
  using assms by (simp add: wf_lists_def linked_list_def)

lemma wf_lists_mask [simp]: "wf_lists (k\<lparr>ready_bitmask := m\<rparr>) L = wf_lists k L"
  by (rule wf_lists_cong) simp_all

lemma wf_ready_cong: "ready_bitmask k' = ready_bitmask k \<Longrightarrow> wf_ready k' L = wf_ready k L"
  by (simp add: wf_ready_def)

lemma wf_delay_cong:
  assumes "\<And>t. delay_next (tcbs k' t) = delay_next (tcbs k t)"
    and "\<And>t. delay_prev (tcbs k' t) = delay_prev (tcbs k t)"
    and "\<And>t. delay_ticks (tcbs k' t) = delay_ticks (tcbs k t)"
    and "\<And>t. in_delay_list (tcbs k' t) = in_delay_list (tcbs k t)"
    and "delay_head k' = delay_head k"
  shows "wf_delay k' W = wf_delay k W"
  using assms by (simp add: wf_delay_def delay_linked_def)

lemma wf_kernel_cong:
  assumes "\<And>t. link_next (tcbs k' t) = link_next (tcbs k t)"
    and "\<And>t. link_prev (tcbs k' t) = link_prev (tcbs k t)" and "lists k' = lists k"
    and "ready_bitmask k' = ready_bitmask k"
    and "\<And>t. delay_next (tcbs k' t) = delay_next (tcbs k t)"
    and "\<And>t. delay_prev (tcbs k' t) = delay_prev (tcbs k t)"
    and "\<And>t. delay_ticks (tcbs k' t) = delay_ticks (tcbs k t)"
    and "\<And>t. in_delay_list (tcbs k' t) = in_delay_list (tcbs k t)"
    and "delay_head k' = delay_head k"
  shows "wf_kernel k' L W = wf_kernel k L W"
  unfolding wf_kernel_def
  using wf_lists_cong [OF assms(1-3)] wf_ready_cong [OF assms(4)] wf_delay_cong [OF assms(5-9)]
  by simp

text \<open>A store to a control block that is not a store to a link.\<close>

lemma wf_kernel_upd_tcb [simp]:
  "wf_kernel (upd_tcb t (\<lambda>b. b\<lparr>state := s\<rparr>) k) L W = wf_kernel k L W"
  "wf_kernel (upd_tcb t (\<lambda>b. b\<lparr>priority := p\<rparr>) k) L W = wf_kernel k L W"
  "wf_kernel (upd_tcb t (\<lambda>b. b\<lparr>base_priority := p\<rparr>) k) L W = wf_kernel k L W"
  "wf_kernel (upd_tcb t (\<lambda>b. b\<lparr>wait_list := wl\<rparr>) k) L W = wf_kernel k L W"
  "wf_kernel (upd_tcb t (\<lambda>b. b\<lparr>timeout_expired := e\<rparr>) k) L W = wf_kernel k L W"
  "wf_kernel (upd_tcb t (\<lambda>b. b\<lparr>xfer_ptr := x\<rparr>) k) L W = wf_kernel k L W"
  "wf_kernel (upd_tcb t (\<lambda>b. b\<lparr>held_mutexes := h\<rparr>) k) L W = wf_kernel k L W"
  "wf_kernel (upd_tcb t (\<lambda>b. b\<lparr>event_wait_mask := ew\<rparr>) k) L W = wf_kernel k L W"
  "wf_kernel (upd_tcb t (\<lambda>b. b\<lparr>event_wait_all := ea\<rparr>) k) L W = wf_kernel k L W"
  "wf_kernel (upd_tcb t (\<lambda>b. b\<lparr>event_clear_on_exit := ec\<rparr>) k) L W = wf_kernel k L W"
  "wf_kernel (upd_tcb t (\<lambda>b. b\<lparr>sp := a\<rparr>) k) L W = wf_kernel k L W"
  "wf_kernel (upd_tcb t (\<lambda>b. b\<lparr>stack_base := a\<rparr>) k) L W = wf_kernel k L W"
  "wf_kernel (upd_tcb t (\<lambda>b. b\<lparr>stack_end := a\<rparr>) k) L W = wf_kernel k L W"
  by (rule wf_kernel_cong; simp)+

text \<open>A store to a field of the state outside the structures.\<close>

lemma wf_kernel_field [simp]:
  "wf_kernel (k\<lparr>primask := b\<rparr>) L W = wf_kernel k L W"
  "wf_kernel (k\<lparr>pendsv := b\<rparr>) L W = wf_kernel k L W"
  "wf_kernel (k\<lparr>current_task := c\<rparr>) L W = wf_kernel k L W"
  "wf_kernel (k\<lparr>task_count := n\<rparr>) L W = wf_kernel k L W"
  "wf_kernel (k\<lparr>started := b\<rparr>) L W = wf_kernel k L W"
  "wf_kernel (k\<lparr>tick_count := n32\<rparr>) L W = wf_kernel k L W"
  "wf_kernel (k\<lparr>sem_count := sc\<rparr>) L W = wf_kernel k L W"
  "wf_kernel (k\<lparr>mutexes := ms\<rparr>) L W = wf_kernel k L W"
  "wf_kernel (k\<lparr>event_bits := eb\<rparr>) L W = wf_kernel k L W"
  "wf_kernel (k\<lparr>queues := qs\<rparr>) L W = wf_kernel k L W"
  "wf_kernel (k\<lparr>mem := m\<rparr>) L W = wf_kernel k L W"
  "wf_kernel (k\<lparr>current_sp := a\<rparr>) L W = wf_kernel k L W"
  "wf_kernel (k\<lparr>psp := a\<rparr>) L W = wf_kernel k L W"
  "wf_kernel (k\<lparr>regs := r\<rparr>) L W = wf_kernel k L W"
  "wf_kernel (k\<lparr>g_cpu_hz := n32\<rparr>) L W = wf_kernel k L W"
  "wf_kernel (k\<lparr>site_created := si\<rparr>) L W = wf_kernel k L W"
  by (rule wf_kernel_cong; simp)+

subsection \<open>Fields that the primitives leave alone\<close>

definition reshuffled :: "kernel \<Rightarrow> kernel \<Rightarrow> bool" where
  "reshuffled k k' \<longleftrightarrow>
     k' = k\<lparr>tcbs := tcbs k', lists := lists k', ready_bitmask := ready_bitmask k',
            delay_head := delay_head k'\<rparr> \<and>
     (\<forall>t. tcbs k' t = (tcbs k t)\<lparr>link_prev := link_prev (tcbs k' t),
            link_next := link_next (tcbs k' t), delay_ticks := delay_ticks (tcbs k' t),
            delay_prev := delay_prev (tcbs k' t), delay_next := delay_next (tcbs k' t),
            in_delay_list := in_delay_list (tcbs k' t)\<rparr>)"

lemma reshuffled_refl [simp]: "reshuffled k k"
  by (simp add: reshuffled_def)

lemma reshuffled_tcb:
  assumes "reshuffled k k'"
  shows "sp (tcbs k' t) = sp (tcbs k t)" "state (tcbs k' t) = state (tcbs k t)"
    "stack_base (tcbs k' t) = stack_base (tcbs k t)" "stack_end (tcbs k' t) = stack_end (tcbs k t)"
    "priority (tcbs k' t) = priority (tcbs k t)"
    "base_priority (tcbs k' t) = base_priority (tcbs k t)"
    "held_mutexes (tcbs k' t) = held_mutexes (tcbs k t)"
    "wait_list (tcbs k' t) = wait_list (tcbs k t)"
    "timeout_expired (tcbs k' t) = timeout_expired (tcbs k t)"
    "xfer_ptr (tcbs k' t) = xfer_ptr (tcbs k t)"
    "event_wait_mask (tcbs k' t) = event_wait_mask (tcbs k t)"
    "event_wait_all (tcbs k' t) = event_wait_all (tcbs k t)"
    "event_clear_on_exit (tcbs k' t) = event_clear_on_exit (tcbs k t)"
proof -
  from assms have *: "tcbs k' t = (tcbs k t)\<lparr>link_prev := link_prev (tcbs k' t),
            link_next := link_next (tcbs k' t), delay_ticks := delay_ticks (tcbs k' t),
            delay_prev := delay_prev (tcbs k' t), delay_next := delay_next (tcbs k' t),
            in_delay_list := in_delay_list (tcbs k' t)\<rparr>"
    unfolding reshuffled_def by blast
  show "sp (tcbs k' t) = sp (tcbs k t)" "state (tcbs k' t) = state (tcbs k t)"
    "stack_base (tcbs k' t) = stack_base (tcbs k t)" "stack_end (tcbs k' t) = stack_end (tcbs k t)"
    "priority (tcbs k' t) = priority (tcbs k t)"
    "base_priority (tcbs k' t) = base_priority (tcbs k t)"
    "held_mutexes (tcbs k' t) = held_mutexes (tcbs k t)"
    "wait_list (tcbs k' t) = wait_list (tcbs k t)"
    "timeout_expired (tcbs k' t) = timeout_expired (tcbs k t)"
    "xfer_ptr (tcbs k' t) = xfer_ptr (tcbs k t)"
    "event_wait_mask (tcbs k' t) = event_wait_mask (tcbs k t)"
    "event_wait_all (tcbs k' t) = event_wait_all (tcbs k t)"
    "event_clear_on_exit (tcbs k' t) = event_clear_on_exit (tcbs k t)"
    by (subst *; simp)+
qed

lemma reshuffled_kernel:
  assumes "reshuffled k k'"
  shows "use_assert k' = use_assert k" "current_task k' = current_task k"
    "task_count k' = task_count k" "started k' = started k" "tick_count k' = tick_count k"
    "sem_count k' = sem_count k" "mutexes k' = mutexes k" "event_bits k' = event_bits k"
    "queues k' = queues k" "mem k' = mem k" "site_created k' = site_created k"
    "current_sp k' = current_sp k" "psp k' = psp k" "primask k' = primask k"
    "ipsr k' = ipsr k" "pendsv k' = pendsv k" "g_cpu_hz k' = g_cpu_hz k" "regs k' = regs k"
proof -
  obtain tb ls m h where *: "k' = k\<lparr>tcbs := tb, lists := ls, ready_bitmask := m, delay_head := h\<rparr>"
    using assms unfolding reshuffled_def by blast
  show "use_assert k' = use_assert k" "current_task k' = current_task k"
    "task_count k' = task_count k" "started k' = started k" "tick_count k' = tick_count k"
    "sem_count k' = sem_count k" "mutexes k' = mutexes k" "event_bits k' = event_bits k"
    "queues k' = queues k" "mem k' = mem k" "site_created k' = site_created k"
    "current_sp k' = current_sp k" "psp k' = psp k" "primask k' = primask k"
    "ipsr k' = ipsr k" "pendsv k' = pendsv k" "g_cpu_hz k' = g_cpu_hz k" "regs k' = regs k"
    by (simp_all add: *)
qed

lemmas reshuffledD = reshuffled_tcb reshuffled_kernel

text \<open>An explicit form, from which the relation is built up.\<close>

lemma reshuffledI:
  assumes "k' = k\<lparr>tcbs := tb, lists := ls, ready_bitmask := m, delay_head := h\<rparr>"
    and "\<And>t. \<exists>pv nx dt dp dn ind. tb t = (tcbs k t)\<lparr>link_prev := pv, link_next := nx,
      delay_ticks := dt, delay_prev := dp, delay_next := dn, in_delay_list := ind\<rparr>"
  shows "reshuffled k k'"
proof -
  have "tb t = (tcbs k t)\<lparr>link_prev := link_prev (tb t),
            link_next := link_next (tb t), delay_ticks := delay_ticks (tb t),
            delay_prev := delay_prev (tb t), delay_next := delay_next (tb t),
            in_delay_list := in_delay_list (tb t)\<rparr>" for t
  proof -
    obtain pv nx dt dp dn ind where "tb t = (tcbs k t)\<lparr>link_prev := pv, link_next := nx,
      delay_ticks := dt, delay_prev := dp, delay_next := dn, in_delay_list := ind\<rparr>"
      using assms(2) by blast
    then show ?thesis by simp
  qed
  then show ?thesis using assms(1) by (simp add: reshuffled_def)
qed

lemma reshuffledE:
  assumes "reshuffled k k'"
  obtains tb ls m h where "k' = k\<lparr>tcbs := tb, lists := ls, ready_bitmask := m, delay_head := h\<rparr>"
    and "\<And>t. \<exists>pv nx dt dp dn ind. tb t = (tcbs k t)\<lparr>link_prev := pv, link_next := nx,
      delay_ticks := dt, delay_prev := dp, delay_next := dn, in_delay_list := ind\<rparr>"
proof (rule that [where tb = "tcbs k'" and ls = "lists k'" and m = "ready_bitmask k'"
      and h = "delay_head k'"])
  show "k' = k\<lparr>tcbs := tcbs k', lists := lists k', ready_bitmask := ready_bitmask k',
            delay_head := delay_head k'\<rparr>"
    using assms unfolding reshuffled_def by blast
  show "\<exists>pv nx dt dp dn ind. tcbs k' t = (tcbs k t)\<lparr>link_prev := pv, link_next := nx,
      delay_ticks := dt, delay_prev := dp, delay_next := dn, in_delay_list := ind\<rparr>" for t
    using assms unfolding reshuffled_def by blast
qed

lemma relinked_reshuffled:
  assumes "relinked k k'"
  shows "reshuffled k k'"
proof -
  obtain nx pv ls where k': "k' = set_links nx pv ls k" using assms by (rule relinkedE)
  have "\<exists>a b dt dp dn ind. tcbs k' t = (tcbs k t)\<lparr>link_prev := a, link_next := b,
      delay_ticks := dt, delay_prev := dp, delay_next := dn, in_delay_list := ind\<rparr>" for t
    by (rule exI [of _ "pv t"], rule exI [of _ "nx t"], rule exI [of _ "delay_ticks (tcbs k t)"],
        rule exI [of _ "delay_prev (tcbs k t)"], rule exI [of _ "delay_next (tcbs k t)"],
        rule exI [of _ "in_delay_list (tcbs k t)"]) (simp add: k' set_links_def)
  moreover have "k' = k\<lparr>tcbs := tcbs k', lists := lists k', ready_bitmask := ready_bitmask k,
      delay_head := delay_head k\<rparr>"
    by (simp add: k' set_links_def)
  ultimately show ?thesis by (intro reshuffledI)
qed

lemma delay_relinked_reshuffled:
  assumes "delay_relinked k k'"
  shows "reshuffled k k'"
proof -
  obtain nx pv dt ind h where k': "k' = k\<lparr>tcbs := (\<lambda>t. (tcbs k t)\<lparr>delay_ticks := dt t,
        delay_prev := pv t, delay_next := nx t, in_delay_list := ind t\<rparr>), delay_head := h\<rparr>"
    using assms by (rule delay_relinkedE)
  have "\<exists>a b c d e f. tcbs k' t = (tcbs k t)\<lparr>link_prev := a, link_next := b,
      delay_ticks := c, delay_prev := d, delay_next := e, in_delay_list := f\<rparr>" for t
    by (rule exI [of _ "link_prev (tcbs k t)"], rule exI [of _ "link_next (tcbs k t)"],
        rule exI [of _ "dt t"], rule exI [of _ "pv t"], rule exI [of _ "nx t"],
        rule exI [of _ "ind t"]) (simp add: k')
  moreover have "k' = k\<lparr>tcbs := tcbs k', lists := lists k, ready_bitmask := ready_bitmask k,
      delay_head := delay_head k'\<rparr>"
    by (simp add: k')
  ultimately show ?thesis by (intro reshuffledI)
qed

lemma reshuffled_mask:
  assumes "reshuffled k k'"
  shows "reshuffled k (k'\<lparr>ready_bitmask := m\<rparr>)"
proof -
  obtain tb ls n h where "k' = k\<lparr>tcbs := tb, lists := ls, ready_bitmask := n, delay_head := h\<rparr>"
    and "\<And>t. \<exists>pv nx dt dp dn ind. tb t = (tcbs k t)\<lparr>link_prev := pv, link_next := nx,
      delay_ticks := dt, delay_prev := dp, delay_next := dn, in_delay_list := ind\<rparr>"
    using assms by (rule reshuffledE) blast
  then show ?thesis by (intro reshuffledI [where tb = tb and ls = ls and m = m and h = h]) auto
qed

text \<open>A body run in a critical section.\<close>

lemma reshuffled_critical:
  assumes "reshuffled (k\<lparr>primask := b\<rparr>) k'"
  shows "reshuffled k (k'\<lparr>primask := primask k\<rparr>)"
proof -
  obtain tb ls n h where "k' = k\<lparr>primask := b, tcbs := tb, lists := ls, ready_bitmask := n, delay_head := h\<rparr>"
    and "\<And>t. \<exists>pv nx dt dp dn ind. tb t = (tcbs k t)\<lparr>link_prev := pv, link_next := nx,
      delay_ticks := dt, delay_prev := dp, delay_next := dn, in_delay_list := ind\<rparr>"
    using assms by (rule reshuffledE) auto
  then show ?thesis by (intro reshuffledI [where tb = tb and ls = ls and m = n and h = h]) auto
qed

subsection \<open>The primitives on the ready lists\<close>

text \<open>A ready list is relinked and the bitmask stored, in a critical section.\<close>

lemma wf_kernel_requeue:
  assumes wf: "wf_kernel k L W" and rel: "relinked (k\<lparr>primask := b\<rparr>) k1" and wl: "wf_lists k1 L'"
    and wr: "wf_ready (k1\<lparr>ready_bitmask := m\<rparr>) L'"
  shows "reshuffled k (k1\<lparr>ready_bitmask := m, primask := primask k\<rparr>) \<and>
         wf_kernel (k1\<lparr>ready_bitmask := m, primask := primask k\<rparr>) L' W"
proof -
  obtain nx pv ls where k1: "k1 = set_links nx pv ls (k\<lparr>primask := b\<rparr>)" using rel by (rule relinkedE)
  have "wf_delay (k1\<lparr>ready_bitmask := m\<rparr>) W"
    using wf_kernelD(3) [OF wf] by (subst wf_delay_cong [where k = k]) (auto simp: k1 set_links_def)
  with wl wr have "wf_kernel (k1\<lparr>ready_bitmask := m\<rparr>) L' W"
    unfolding wf_kernel_def by simp
  then have "wf_kernel (k1\<lparr>ready_bitmask := m, primask := primask k\<rparr>) L' W" by (simp only: wf_kernel_field)
  moreover have "reshuffled k (k1\<lparr>ready_bitmask := m, primask := primask k\<rparr>)"
    using relinked_reshuffled [OF rel] by (intro reshuffled_critical reshuffled_mask)
  ultimately show ?thesis by blast
qed

lemma rm_add_ok:
  assumes wf: "wf_kernel k L W" and new: "\<And>l. t \<notin> set (L l)"
    and p: "priority (tcbs k t) = p" "p < 32"
  shows "\<exists>k'. rm_add (Some t) k = Inr k' \<and> reshuffled k k' \<and>
           wf_kernel k' (L(Ready_List p := L (Ready_List p) @ [t])) W"
proof -
  let ?k = "k\<lparr>primask := True\<rparr>"
  have wf1: "wf_kernel ?k L W" using wf by simp
  obtain k1 where run: "push_back (Ready_List p) (Some t) ?k = Inr k1" and rel: "relinked ?k k1"
    and wl: "wf_lists k1 (L(Ready_List p := L (Ready_List p) @ [t]))"
    using push_back_ok [OF wf_kernelD(1) [OF wf1] new] by blast
  obtain nx pv ls where k1: "k1 = set_links nx pv ls ?k" using rel by (rule relinkedE)
  let ?k2 = "k1\<lparr>ready_bitmask := ready_bitmask k1 OR push_bit (unat p) 1\<rparr>"
  have "wf_ready ?k2 (L(Ready_List p := L (Ready_List p) @ [t]))"
    by (rule wf_ready_set [OF wf_kernelD(2) [OF wf] p(2)]) (auto simp: k1 set_links_def)
  note wf_kernel_requeue [OF wf rel wl this]
  moreover have "rm_add (Some t) k = Inr (?k2\<lparr>primask := primask k\<rparr>)"
    using run p by (simp add: rm_add_def Let_def critical_u_Inr kMaxPriorities_def word8_less_32 ready_at_def)
  ultimately show ?thesis by blast
qed

lemma rm_remove_ok:
  assumes wf: "wf_kernel k L W" and p: "priority (tcbs k t) = p" "p < 32"
    and t: "t \<in> set (L (Ready_List p))"
  shows "\<exists>k'. rm_remove (Some t) k = Inr k' \<and> reshuffled k k' \<and>
           wf_kernel k' (L(Ready_List p := remove1 t (L (Ready_List p)))) W"
proof -
  let ?k = "k\<lparr>primask := True\<rparr>" and ?L = "L(Ready_List p := remove1 t (L (Ready_List p)))"
  have wf1: "wf_kernel ?k L W" using wf by simp
  obtain k1 where run: "list_remove (Ready_List p) (Some t) ?k = Inr k1" and rel: "relinked ?k k1"
    and wl: "wf_lists k1 ?L"
    using list_remove_ok [OF wf_kernelD(1) [OF wf1] t] by blast
  obtain nx pv ls where k1: "k1 = set_links nx pv ls ?k" using rel by (rule relinkedE)
  let ?m = "if ?L (Ready_List p) = [] then ready_bitmask k1 AND NOT (push_bit (unat p) 1)
            else ready_bitmask k1"
  let ?k2 = "k1\<lparr>ready_bitmask := ?m\<rparr>"
  have e: "is_empty (Ready_List p) k1 \<longleftrightarrow> ?L (Ready_List p) = []"
    using wl by (simp add: is_empty_def wf_lists_head)
  have "wf_ready ?k2 ?L"
  proof (cases "?L (Ready_List p) = []")
    case True
    then show ?thesis
      by (intro wf_ready_clear [OF wf_kernelD(2) [OF wf] p(2)]) (auto simp: k1 set_links_def)
  next
    case False
    then show ?thesis using t
      by (intro wf_ready_keep [OF wf_kernelD(2) [OF wf]]) (auto simp: k1 set_links_def)
  qed
  note wf_kernel_requeue [OF wf rel wl this]
  moreover have "rm_remove (Some t) k = Inr (?k2\<lparr>primask := primask k\<rparr>)"
    using run p e by (simp add: rm_remove_def Let_def critical_u_def enter_critical_def exit_critical_def)
  ultimately show ?thesis by blast
qed

lemma get_highest_ok:
  assumes wf: "wf_kernel k L W" and p: "L (Ready_List p) = t # ts"
    and top: "\<And>q. L (Ready_List q) \<noteq> [] \<Longrightarrow> q \<le> p"
  shows "\<exists>k'. get_highest_priority_task k = Inr (Some t, k') \<and> reshuffled k k' \<and>
           wf_kernel k' (L(Ready_List p := ts)) W"
proof -
  let ?k = "k\<lparr>primask := True\<rparr>" and ?L = "L(Ready_List p := ts)"
  have wf1: "wf_kernel ?k L W" using wf by simp
  have nz: "ready_bitmask k \<noteq> 0" using wf_ready_empty [OF wf_kernelD(2) [OF wf]] p by fastforce
  have tp: "top_priority (ready_bitmask k) = p"
    using wf_ready_top [OF wf_kernelD(2) [OF wf] nz] p top by (metis list.distinct(1) order_antisym)
  have p32: "p < 32" using wf_ready_top(2) [OF wf_kernelD(2) [OF wf] nz] tp by simp
  obtain k1 where run: "pop_front (Ready_List p) ?k = Inr (Some t, k1)" and rel: "relinked ?k k1"
    and wl: "wf_lists k1 ?L"
    using pop_front_ok [OF wf_kernelD(1) [OF wf1] p] by blast
  obtain nx pv ls where k1: "k1 = set_links nx pv ls ?k" using rel by (rule relinkedE)
  let ?m = "if ts = [] then ready_bitmask k1 AND NOT (push_bit (unat p) 1) else ready_bitmask k1"
  let ?k2 = "k1\<lparr>ready_bitmask := ?m\<rparr>"
  have e: "is_empty (Ready_List p) k1 \<longleftrightarrow> ts = []"
    using wl by (simp add: is_empty_def wf_lists_head)
  have "wf_ready ?k2 ?L"
  proof (cases "ts = []")
    case True
    then show ?thesis
      by (intro wf_ready_clear [OF wf_kernelD(2) [OF wf] p32]) (auto simp: k1 set_links_def)
  next
    case False
    then show ?thesis using p
      by (intro wf_ready_keep [OF wf_kernelD(2) [OF wf]]) (auto simp: k1 set_links_def)
  qed
  note wf_kernel_requeue [OF wf rel wl this]
  moreover have "get_highest_priority_task k = Inr (Some t, ?k2\<lparr>primask := primask k\<rparr>)"
    using run tp nz e
    by (simp add: get_highest_priority_task_def Let_def critical_def enter_critical_def exit_critical_def)
  ultimately show ?thesis by blast
qed

lemma get_highest_none:
  assumes "wf_kernel k L W" and "\<And>p. L (Ready_List p) = []"
  shows "get_highest_priority_task k = Inr (None, k)"
proof -
  have "ready_bitmask k = 0"
    using wf_ready_top(1) [OF wf_kernelD(2) [OF assms(1)]] assms(2) by blast
  then show ?thesis
    by (simp add: get_highest_priority_task_def critical_def enter_critical_def exit_critical_def)
qed

subsection \<open>The primitives on wait lists\<close>

lemma wf_kernel_relinked:
  assumes wf: "wf_kernel k L W" and rel: "relinked k k'" and wl: "wf_lists k' (L(l := xs))"
    and l: "\<not> is_ready_list l"
  shows "reshuffled k k' \<and> wf_kernel k' (L(l := xs)) W"
proof -
  obtain nx pv ls where k': "k' = set_links nx pv ls k" using rel by (rule relinkedE)
  have "wf_ready k' (L(l := xs))"
    using l by (intro wf_ready_keep [OF wf_kernelD(2) [OF wf]]) (auto simp: k' set_links_def)
  moreover have "wf_delay k' W"
    using wf_kernelD(3) [OF wf] by (subst wf_delay_cong [where k = k]) (auto simp: k' set_links_def)
  ultimately show ?thesis using wl relinked_reshuffled [OF rel] by (simp add: wf_kernel_def)
qed

lemma wait_insert_ok:
  assumes wf: "wf_kernel k L W" and l: "\<not> is_ready_list l" and new: "\<And>l. t \<notin> set (L l)"
  shows "\<exists>k'. insert_by_priority l (Some t) k = Inr k' \<and> reshuffled k k' \<and>
           wf_kernel k' (L(l := insert_prio (\<lambda>x. priority (tcbs k x)) t (L l))) W"
  using insert_by_priority_ok [OF wf_kernelD(1) [OF wf] new, of l] wf_kernel_relinked [OF wf _ _ l]
  by blast

lemma wait_remove_ok:
  assumes wf: "wf_kernel k L W" and l: "\<not> is_ready_list l" and t: "t \<in> set (L l)"
  shows "\<exists>k'. list_remove l (Some t) k = Inr k' \<and> reshuffled k k' \<and>
           wf_kernel k' (L(l := remove1 t (L l))) W"
  using list_remove_ok [OF wf_kernelD(1) [OF wf] t] wf_kernel_relinked [OF wf _ _ l] by blast

lemma wait_pop_ok:
  assumes wf: "wf_kernel k L W" and l: "\<not> is_ready_list l" and L: "L l = t # ts"
  shows "\<exists>k'. pop_front l k = Inr (Some t, k') \<and> reshuffled k k' \<and> wf_kernel k' (L(l := ts)) W"
  using pop_front_ok [OF wf_kernelD(1) [OF wf] L] wf_kernel_relinked [OF wf _ _ l] by blast

lemma wait_pop_empty:
  "wf_kernel k L W \<Longrightarrow> L l = [] \<Longrightarrow> pop_front l k = Inr (None, k)"
  by (rule pop_front_empty [OF wf_kernelD(1)])

lemma peek_front_ok: "wf_kernel k L W \<Longrightarrow> peek_front l k = first_of (L l)"
  by (simp add: peek_front_def wf_lists_head [OF wf_kernelD(1)])

lemma wf_kernel_next:
  assumes "wf_kernel k L W" and "L l = as @ t # bs"
  shows "link_next (tcbs k t) = first_of bs"
proof -
  have "linked_list k l (as @ t # bs)"
    using wf_lists_linked [OF wf_kernelD(1) [OF assms(1)], of l] assms(2) by simp
  then show ?thesis unfolding linked_list_def by (rule linked_next)
qed

subsection \<open>The primitives on the delay list\<close>

lemma wf_kernel_delay_relinked:
  assumes wf: "wf_kernel k L W" and rel: "delay_relinked k k'" and wd: "wf_delay k' W'"
  shows "reshuffled k k' \<and> wf_kernel k' L W'"
proof -
  obtain nx pv dt ind h where k': "k' = k\<lparr>tcbs := (\<lambda>t. (tcbs k t)\<lparr>delay_ticks := dt t,
        delay_prev := pv t, delay_next := nx t, in_delay_list := ind t\<rparr>), delay_head := h\<rparr>"
    using rel by (rule delay_relinkedE)
  have "wf_lists k' L" using wf_kernelD(1) [OF wf]
    by (subst wf_lists_cong [where k = k]) (auto simp: k')
  moreover have "wf_ready k' L" using wf_kernelD(2) [OF wf]
    by (subst wf_ready_cong [where k = k]) (auto simp: k')
  ultimately show ?thesis using wd delay_relinked_reshuffled [OF rel] by (simp add: wf_kernel_def)
qed

lemma sleep_insert_ok:
  assumes wf: "wf_kernel k L W" and "t \<notin> fst ` set W"
  shows "\<exists>k'. delay_insert (Some t) n k = Inr k' \<and> reshuffled k k' \<and>
           wf_kernel k' L (insert_wake t (unat n) W)"
  using delay_insert_ok [OF wf_kernelD(3) [OF wf] assms(2)] wf_kernel_delay_relinked [OF wf]
  by blast

lemma sleep_remove_ok:
  assumes "wf_kernel k L W"
  shows "reshuffled k (delay_remove (Some t) k) \<and>
         wf_kernel (delay_remove (Some t) k) L (remove_wake t W)"
  using delay_remove_ok [OF wf_kernelD(3) [OF assms]] wf_kernel_delay_relinked [OF assms] by blast

lemma wf_kernel_in_delay: "wf_kernel k L W \<Longrightarrow> in_delay_list (tcbs k t) \<longleftrightarrow> t \<in> fst ` set W"
  by (rule wf_delay_member [OF wf_kernelD(3)])

end
