(* ===== verification/Kernel_Frame.thy ===== *)
theory Kernel_Frame
  imports Kernel_Structure
begin

text \<open>
  Frames as equations. \<open>plain k\<close> is the state with the structure columns (links, list ends,
  bitmask, delay list) blanked out; two states are \<open>reshuffled\<close> copies of each other iff
  their plain parts agree. What an operation does to everything that is not a link is then
  one equation \<open>plain k' = plain (F k)\<close>, where \<open>F\<close> lists its stores, and simplification
  chains such equations through a routine.
\<close>

definition plain_tcb :: "tcb \<Rightarrow> tcb" where
  "plain_tcb b = b\<lparr>link_prev := None, link_next := None, delay_ticks := 0,
     delay_prev := None, delay_next := None, in_delay_list := False\<rparr>"

definition plain :: "kernel \<Rightarrow> kernel" where
  "plain k = k\<lparr>tcbs := \<lambda>t. plain_tcb (tcbs k t), lists := \<lambda>_. initial_list,
     ready_bitmask := 0, delay_head := None\<rparr>"

lemma plain_tcb_simps [simp]:
  "sp (plain_tcb b) = sp b" "state (plain_tcb b) = state b"
  "stack_base (plain_tcb b) = stack_base b" "stack_end (plain_tcb b) = stack_end b"
  "priority (plain_tcb b) = priority b" "base_priority (plain_tcb b) = base_priority b"
  "held_mutexes (plain_tcb b) = held_mutexes b" "wait_list (plain_tcb b) = wait_list b"
  "timeout_expired (plain_tcb b) = timeout_expired b" "xfer_ptr (plain_tcb b) = xfer_ptr b"
  "event_wait_mask (plain_tcb b) = event_wait_mask b"
  "event_wait_all (plain_tcb b) = event_wait_all b"
  "event_clear_on_exit (plain_tcb b) = event_clear_on_exit b"
  "plain_tcb (b\<lparr>state := s\<rparr>) = (plain_tcb b)\<lparr>state := s\<rparr>"
  "plain_tcb (b\<lparr>priority := p\<rparr>) = (plain_tcb b)\<lparr>priority := p\<rparr>"
  "plain_tcb (b\<lparr>base_priority := p\<rparr>) = (plain_tcb b)\<lparr>base_priority := p\<rparr>"
  "plain_tcb (b\<lparr>wait_list := wl\<rparr>) = (plain_tcb b)\<lparr>wait_list := wl\<rparr>"
  "plain_tcb (b\<lparr>timeout_expired := e\<rparr>) = (plain_tcb b)\<lparr>timeout_expired := e\<rparr>"
  "plain_tcb (b\<lparr>xfer_ptr := x\<rparr>) = (plain_tcb b)\<lparr>xfer_ptr := x\<rparr>"
  "plain_tcb (b\<lparr>held_mutexes := h\<rparr>) = (plain_tcb b)\<lparr>held_mutexes := h\<rparr>"
  "plain_tcb (b\<lparr>event_wait_mask := ew\<rparr>) = (plain_tcb b)\<lparr>event_wait_mask := ew\<rparr>"
  "plain_tcb (b\<lparr>event_wait_all := ea\<rparr>) = (plain_tcb b)\<lparr>event_wait_all := ea\<rparr>"
  "plain_tcb (b\<lparr>event_clear_on_exit := ec\<rparr>) = (plain_tcb b)\<lparr>event_clear_on_exit := ec\<rparr>"
  "plain_tcb (b\<lparr>sp := a\<rparr>) = (plain_tcb b)\<lparr>sp := a\<rparr>"
  "plain_tcb (b\<lparr>stack_base := a\<rparr>) = (plain_tcb b)\<lparr>stack_base := a\<rparr>"
  "plain_tcb (b\<lparr>stack_end := a\<rparr>) = (plain_tcb b)\<lparr>stack_end := a\<rparr>"
  "plain_tcb (plain_tcb b) = plain_tcb b"
  by (simp_all add: plain_tcb_def)

lemma plain_simps [simp]:
  "plain (k\<lparr>primask := b\<rparr>) = (plain k)\<lparr>primask := b\<rparr>"
  "plain (k\<lparr>pendsv := b\<rparr>) = (plain k)\<lparr>pendsv := b\<rparr>"
  "plain (k\<lparr>current_task := c\<rparr>) = (plain k)\<lparr>current_task := c\<rparr>"
  "plain (k\<lparr>task_count := n\<rparr>) = (plain k)\<lparr>task_count := n\<rparr>"
  "plain (k\<lparr>started := b\<rparr>) = (plain k)\<lparr>started := b\<rparr>"
  "plain (k\<lparr>tick_count := n32\<rparr>) = (plain k)\<lparr>tick_count := n32\<rparr>"
  "plain (k\<lparr>sem_count := sc\<rparr>) = (plain k)\<lparr>sem_count := sc\<rparr>"
  "plain (k\<lparr>mutexes := ms\<rparr>) = (plain k)\<lparr>mutexes := ms\<rparr>"
  "plain (k\<lparr>event_bits := eb\<rparr>) = (plain k)\<lparr>event_bits := eb\<rparr>"
  "plain (k\<lparr>queues := qs\<rparr>) = (plain k)\<lparr>queues := qs\<rparr>"
  "plain (k\<lparr>mem := m\<rparr>) = (plain k)\<lparr>mem := m\<rparr>"
  "plain (k\<lparr>current_sp := a\<rparr>) = (plain k)\<lparr>current_sp := a\<rparr>"
  "plain (k\<lparr>psp := a\<rparr>) = (plain k)\<lparr>psp := a\<rparr>"
  "plain (k\<lparr>regs := r\<rparr>) = (plain k)\<lparr>regs := r\<rparr>"
  "plain (k\<lparr>g_cpu_hz := n32\<rparr>) = (plain k)\<lparr>g_cpu_hz := n32\<rparr>"
  "plain (k\<lparr>site_created := si\<rparr>) = (plain k)\<lparr>site_created := si\<rparr>"
  "plain (plain k) = plain k"
  by (simp_all add: plain_def)

lemma plain_fields [simp]:
  "use_assert (plain k) = use_assert k" "current_task (plain k) = current_task k"
  "task_count (plain k) = task_count k" "started (plain k) = started k"
  "tick_count (plain k) = tick_count k" "sem_count (plain k) = sem_count k"
  "mutexes (plain k) = mutexes k" "event_bits (plain k) = event_bits k"
  "queues (plain k) = queues k" "mem (plain k) = mem k" "site_created (plain k) = site_created k"
  "current_sp (plain k) = current_sp k" "psp (plain k) = psp k" "primask (plain k) = primask k"
  "ipsr (plain k) = ipsr k" "pendsv (plain k) = pendsv k" "g_cpu_hz (plain k) = g_cpu_hz k"
  "regs (plain k) = regs k" "tcbs (plain k) = (\<lambda>t. plain_tcb (tcbs k t))"
  by (simp_all add: plain_def)

lemma plain_primask [simp]: "(plain k)\<lparr>primask := primask k\<rparr> = plain k"
  by (simp add: plain_def)

lemma plain_upd_tcb:
  assumes "\<And>b. plain_tcb (f b) = f (plain_tcb b)"
  shows "plain (upd_tcb t f k) = upd_tcb t f (plain k)"
  using assms by (simp add: plain_def upd_tcb_def fun_eq_iff)

lemma plain_upd_tcb_simps [simp]:
  "plain (upd_tcb t (\<lambda>b. b\<lparr>state := s\<rparr>) k) = upd_tcb t (\<lambda>b. b\<lparr>state := s\<rparr>) (plain k)"
  "plain (upd_tcb t (\<lambda>b. b\<lparr>priority := p\<rparr>) k) = upd_tcb t (\<lambda>b. b\<lparr>priority := p\<rparr>) (plain k)"
  "plain (upd_tcb t (\<lambda>b. b\<lparr>base_priority := p\<rparr>) k) = upd_tcb t (\<lambda>b. b\<lparr>base_priority := p\<rparr>) (plain k)"
  "plain (upd_tcb t (\<lambda>b. b\<lparr>wait_list := wl\<rparr>) k) = upd_tcb t (\<lambda>b. b\<lparr>wait_list := wl\<rparr>) (plain k)"
  "plain (upd_tcb t (\<lambda>b. b\<lparr>timeout_expired := e\<rparr>) k) = upd_tcb t (\<lambda>b. b\<lparr>timeout_expired := e\<rparr>) (plain k)"
  "plain (upd_tcb t (\<lambda>b. b\<lparr>xfer_ptr := x\<rparr>) k) = upd_tcb t (\<lambda>b. b\<lparr>xfer_ptr := x\<rparr>) (plain k)"
  "plain (upd_tcb t (\<lambda>b. b\<lparr>held_mutexes := h\<rparr>) k) = upd_tcb t (\<lambda>b. b\<lparr>held_mutexes := h\<rparr>) (plain k)"
  "plain (upd_tcb t (\<lambda>b. b\<lparr>event_wait_mask := ew\<rparr>) k) = upd_tcb t (\<lambda>b. b\<lparr>event_wait_mask := ew\<rparr>) (plain k)"
  "plain (upd_tcb t (\<lambda>b. b\<lparr>event_wait_all := ea\<rparr>) k) = upd_tcb t (\<lambda>b. b\<lparr>event_wait_all := ea\<rparr>) (plain k)"
  "plain (upd_tcb t (\<lambda>b. b\<lparr>event_clear_on_exit := ec\<rparr>) k) = upd_tcb t (\<lambda>b. b\<lparr>event_clear_on_exit := ec\<rparr>) (plain k)"
  "plain (upd_tcb t (\<lambda>b. b\<lparr>sp := a\<rparr>) k) = upd_tcb t (\<lambda>b. b\<lparr>sp := a\<rparr>) (plain k)"
  "plain (upd_tcb t (\<lambda>b. b\<lparr>stack_base := a\<rparr>) k) = upd_tcb t (\<lambda>b. b\<lparr>stack_base := a\<rparr>) (plain k)"
  "plain (upd_tcb t (\<lambda>b. b\<lparr>stack_end := a\<rparr>) k) = upd_tcb t (\<lambda>b. b\<lparr>stack_end := a\<rparr>) (plain k)"
  by (rule plain_upd_tcb; simp)+

text \<open>Stores into other fields come out of a store into a control block.\<close>

lemma upd_tcb_field [simp]:
  "upd_tcb t f (k\<lparr>primask := b\<rparr>) = (upd_tcb t f k)\<lparr>primask := b\<rparr>"
  "upd_tcb t f (k\<lparr>pendsv := b\<rparr>) = (upd_tcb t f k)\<lparr>pendsv := b\<rparr>"
  "upd_tcb t f (k\<lparr>current_task := c\<rparr>) = (upd_tcb t f k)\<lparr>current_task := c\<rparr>"
  "upd_tcb t f (k\<lparr>tick_count := n32\<rparr>) = (upd_tcb t f k)\<lparr>tick_count := n32\<rparr>"
  "upd_tcb t f (k\<lparr>sem_count := sc\<rparr>) = (upd_tcb t f k)\<lparr>sem_count := sc\<rparr>"
  "upd_tcb t f (k\<lparr>mutexes := ms\<rparr>) = (upd_tcb t f k)\<lparr>mutexes := ms\<rparr>"
  "upd_tcb t f (k\<lparr>event_bits := eb\<rparr>) = (upd_tcb t f k)\<lparr>event_bits := eb\<rparr>"
  "upd_tcb t f (k\<lparr>queues := qs\<rparr>) = (upd_tcb t f k)\<lparr>queues := qs\<rparr>"
  "upd_tcb t f (k\<lparr>mem := m\<rparr>) = (upd_tcb t f k)\<lparr>mem := m\<rparr>"
  "upd_tcb t f (k\<lparr>task_count := n\<rparr>) = (upd_tcb t f k)\<lparr>task_count := n\<rparr>"
  by (simp_all add: upd_tcb_def)

lemma plain_tcb_eq_iff:
  "plain_tcb b' = plain_tcb b \<longleftrightarrow>
     b' = b\<lparr>link_prev := link_prev b', link_next := link_next b',
            delay_ticks := delay_ticks b', delay_prev := delay_prev b',
            delay_next := delay_next b', in_delay_list := in_delay_list b'\<rparr>"
  by (cases b; cases b') (auto simp: plain_tcb_def)

lemma plain_eq_iff:
  "plain k' = plain k \<longleftrightarrow>
     k' = k\<lparr>tcbs := tcbs k', lists := lists k', ready_bitmask := ready_bitmask k',
            delay_head := delay_head k'\<rparr> \<and> (\<forall>t. plain_tcb (tcbs k' t) = plain_tcb (tcbs k t))"
  by (cases k; cases k') (auto simp: plain_def fun_eq_iff)

lemma reshuffled_plain: "reshuffled k k' \<longleftrightarrow> plain k' = plain k"
  unfolding plain_eq_iff plain_tcb_eq_iff reshuffled_def ..

text \<open>Reading a field through an equation of plain parts.\<close>

lemma plainD:
  assumes "plain k' = plain k"
  shows "sp (tcbs k' t) = sp (tcbs k t)" "state (tcbs k' t) = state (tcbs k t)"
    "stack_base (tcbs k' t) = stack_base (tcbs k t)" "stack_end (tcbs k' t) = stack_end (tcbs k t)"
    "priority (tcbs k' t) = priority (tcbs k t)"
    "base_priority (tcbs k' t) = base_priority (tcbs k t)"
    "held_mutexes (tcbs k' t) = held_mutexes (tcbs k t)"
    "wait_list (tcbs k' t) = wait_list (tcbs k t)"
    "timeout_expired (tcbs k' t) = timeout_expired (tcbs k t)"
    "xfer_ptr (tcbs k' t) = xfer_ptr (tcbs k t)"
    "event_wait_mask (tcbs k' t) = event_wait_mask (tcbs k t)"
    "event_wait_all (tcbs k' t) = event_wait_all (tcbs k t)"
    "event_clear_on_exit (tcbs k' t) = event_clear_on_exit (tcbs k t)"
    "use_assert k' = use_assert k" "current_task k' = current_task k"
    "task_count k' = task_count k" "started k' = started k" "tick_count k' = tick_count k"
    "sem_count k' = sem_count k" "mutexes k' = mutexes k" "event_bits k' = event_bits k"
    "queues k' = queues k" "mem k' = mem k" "site_created k' = site_created k"
    "current_sp k' = current_sp k" "psp k' = psp k" "primask k' = primask k"
    "ipsr k' = ipsr k" "pendsv k' = pendsv k" "g_cpu_hz k' = g_cpu_hz k" "regs k' = regs k"
  using reshuffledD [OF assms [folded reshuffled_plain]] by simp_all

text \<open>Two stores into one control block; a store of the value that is there.\<close>

lemma upd_tcb_twice: "upd_tcb t f (upd_tcb t g k) = upd_tcb t (\<lambda>b. f (g b)) k"
  by (simp add: upd_tcb_def)

lemma primask_same [simp]: "primask k = p \<Longrightarrow> k\<lparr>primask := p\<rparr> = k"
  by (cases k) simp

lemma upd_tcb_cong: "f (tcbs k t) = g (tcbs k t) \<Longrightarrow> upd_tcb t f k = upd_tcb t g k"
  by (simp add: upd_tcb_def)

lemma upd_tcb_same: "f (tcbs k t) = tcbs k t \<Longrightarrow> upd_tcb t f k = k"
  by (cases k) (simp add: upd_tcb_def)

lemma upd_priority_same:
  "priority (tcbs k t) = p \<Longrightarrow> upd_tcb t (\<lambda>b. b\<lparr>priority := p\<rparr>) k = k"
  by (rule upd_tcb_same) (cases "tcbs k t", simp)

text \<open>A request for a context switch that depends on a condition.\<close>

definition yield_if :: "bool \<Rightarrow> kernel \<Rightarrow> kernel" where
  "yield_if c k = (if c then task_yield k else k)"

lemma yield_if_simps [simp]:
  "plain (yield_if c k) = yield_if c (plain k)"
  "wf_kernel (yield_if c k) L W = wf_kernel k L W"
  "tcbs (yield_if c k) = tcbs k" "lists (yield_if c k) = lists k"
  "current_task (yield_if c k) = current_task k" "task_count (yield_if c k) = task_count k"
  "tick_count (yield_if c k) = tick_count k" "sem_count (yield_if c k) = sem_count k"
  "mutexes (yield_if c k) = mutexes k" "event_bits (yield_if c k) = event_bits k"
  "queues (yield_if c k) = queues k" "mem (yield_if c k) = mem k"
  "primask (yield_if c k) = primask k" "started (yield_if c k) = started k"
  "use_assert (yield_if c k) = use_assert k" "ipsr (yield_if c k) = ipsr k"
  "pendsv (yield_if c k) \<longleftrightarrow> pendsv k \<or> c"
  "yield_if False k = k" "yield_if True k = task_yield k"
  by (auto simp: yield_if_def task_yield_def)

lemma yield_if_field [simp]:
  "(yield_if c k)\<lparr>primask := b\<rparr> = yield_if c (k\<lparr>primask := b\<rparr>)"
  "upd_tcb t f (yield_if c k) = yield_if c (upd_tcb t f k)"
  by (auto simp: yield_if_def task_yield_def)

lemma task_yield_simps [simp]:
  "plain (task_yield k) = task_yield (plain k)" "wf_kernel (task_yield k) L W = wf_kernel k L W"
  "tcbs (task_yield k) = tcbs k" "current_task (task_yield k) = current_task k"
  "task_count (task_yield k) = task_count k" "mem (task_yield k) = mem k"
  "started (task_yield k) = started k" "tick_count (task_yield k) = tick_count k"
  "mutexes (task_yield k) = mutexes k" "sem_count (task_yield k) = sem_count k"
  "event_bits (task_yield k) = event_bits k" "queues (task_yield k) = queues k"
  "primask (task_yield k) = primask k" "use_assert (task_yield k) = use_assert k"
  by (simp_all add: task_yield_def)

end
