(* ===== verification/Kernel_Invariant.thy ===== *)
theory Kernel_Invariant
  imports Kernel_Frame
begin

text \<open>
  The invariant of the kernel, \<open>kinv k L W\<close>. Besides the structures it says that the state
  of every task agrees with the lists it is on: Ready tasks are exactly those on the ready
  list of their priority, a task is on the wait list its \<open>wait_list\<close> names and on no other,
  Blocked tasks are exactly those that wait or sleep, only the current task is Running, and
  wait lists are in priority order.

  Every operation of the scheduler takes a task out of the lists, writes its control block
  and puts it back somewhere. The state in between is \<open>detached t\<close>: the invariant for all
  other tasks, and \<open>t\<close> on no list. The lemmas of this theory are the ways into that state,
  the stores allowed in it, and the ways out of it.
\<close>

definition ntasks :: "kernel \<Rightarrow> nat" where
  "ntasks k = unat (task_count k)"

definition task_ok :: "kernel \<Rightarrow> (list_id \<Rightarrow> tid list) \<Rightarrow> (tid \<times> nat) list \<Rightarrow> tid \<Rightarrow> bool" where
  "task_ok k L W t \<longleftrightarrow>
     (\<forall>p. t \<in> set (L (Ready_List p)) \<longleftrightarrow>
        state (tcbs k t) = Ready \<and> priority (tcbs k t) = p) \<and>
     (\<forall>l. \<not> is_ready_list l \<longrightarrow> (t \<in> set (L l) \<longleftrightarrow> wait_list (tcbs k t) = Some l)) \<and>
     (\<forall>l. wait_list (tcbs k t) = Some l \<longrightarrow> \<not> is_ready_list l) \<and>
     (wait_list (tcbs k t) \<noteq> None \<or> t \<in> fst ` set W \<longleftrightarrow> state (tcbs k t) = Blocked) \<and>
     priority (tcbs k t) < 32 \<and> base_priority (tcbs k t) \<le> priority (tcbs k t)"

definition wait_sorted :: "kernel \<Rightarrow> (list_id \<Rightarrow> tid list) \<Rightarrow> bool" where
  "wait_sorted k L \<longleftrightarrow>
     (\<forall>l. \<not> is_ready_list l \<longrightarrow> prio_sorted (\<lambda>x. priority (tcbs k x)) (L l))"

definition detached_from :: "(list_id \<Rightarrow> tid list) \<Rightarrow> (tid \<times> nat) list \<Rightarrow> tid \<Rightarrow> bool" where
  "detached_from L W t \<longleftrightarrow> (\<forall>l. t \<notin> set (L l)) \<and> t \<notin> fst ` set W"

text \<open>Only the current task is Running, and the current task exists.\<close>

definition only_current_runs :: "tid set \<Rightarrow> kernel \<Rightarrow> bool" where
  "only_current_runs X k \<longleftrightarrow>
     (\<forall>t < ntasks k. t \<notin> X \<longrightarrow> state (tcbs k t) = Running \<longrightarrow> current_task k = Some t)"

definition current_valid :: "kernel \<Rightarrow> bool" where
  "current_valid k \<longleftrightarrow> (\<forall>t. current_task k = Some t \<longrightarrow> t < ntasks k)"

text \<open>The invariant for all tasks but those in \<open>X\<close>.\<close>

definition kinv_but ::
  "tid set \<Rightarrow> kernel \<Rightarrow> (list_id \<Rightarrow> tid list) \<Rightarrow> (tid \<times> nat) list \<Rightarrow> bool" where
  "kinv_but X k L W \<longleftrightarrow>
     wf_kernel k L W \<and> wait_sorted k L \<and> ntasks k \<le> kMaxTasks \<and>
     (\<forall>t < ntasks k. t \<notin> X \<longrightarrow> task_ok k L W t) \<and>
     (\<forall>t \<ge> ntasks k. detached_from L W t) \<and>
     only_current_runs X k \<and> current_valid k"

text \<open>While time advances, an expired task may be on the delay list with no tick left.\<close>

definition awake_none :: "(tid \<times> nat) list \<Rightarrow> bool" where
  "awake_none W \<longleftrightarrow> (\<forall>w \<in> set W. 0 < snd w)"

definition kinv :: "kernel \<Rightarrow> (list_id \<Rightarrow> tid list) \<Rightarrow> (tid \<times> nat) list \<Rightarrow> bool" where
  "kinv k L W \<longleftrightarrow> kinv_but {} k L W \<and> awake_none W"

definition detached ::
  "tid \<Rightarrow> kernel \<Rightarrow> (list_id \<Rightarrow> tid list) \<Rightarrow> (tid \<times> nat) list \<Rightarrow> bool" where
  "detached t k L W \<longleftrightarrow> kinv_but {t} k L W \<and> t < ntasks k \<and> detached_from L W t"

subsection \<open>Reading the invariant\<close>

lemma kinv_but_wf: "kinv_but X k L W \<Longrightarrow> wf_kernel k L W"
  by (simp add: kinv_but_def)

lemma kinv_wf: "kinv k L W \<Longrightarrow> wf_kernel k L W"
  by (simp add: kinv_def kinv_but_def)

lemma kinv_task: "kinv k L W \<Longrightarrow> t < ntasks k \<Longrightarrow> task_ok k L W t"
  by (simp add: kinv_def kinv_but_def)

lemma kinv_current: "kinv k L W \<Longrightarrow> current_task k = Some t \<Longrightarrow> t < ntasks k"
  by (simp add: kinv_def kinv_but_def current_valid_def)

lemma kinv_running:
  "kinv k L W \<Longrightarrow> t < ntasks k \<Longrightarrow> state (tcbs k t) = Running \<Longrightarrow> current_task k = Some t"
  unfolding kinv_def kinv_but_def only_current_runs_def by blast

lemma kinv_but_member: "kinv_but X k L W \<Longrightarrow> t \<in> set (L l) \<Longrightarrow> t < ntasks k"
  unfolding kinv_but_def detached_from_def by (meson linorder_not_less)

lemma kinv_but_sleeper: "kinv_but X k L W \<Longrightarrow> (t, n) \<in> set W \<Longrightarrow> t < ntasks k"
  unfolding kinv_but_def detached_from_def by (metis image_eqI fst_conv linorder_not_less)

lemma kinv_member: "kinv k L W \<Longrightarrow> t \<in> set (L l) \<Longrightarrow> t < ntasks k"
  unfolding kinv_def by (blast intro: kinv_but_member)

lemma kinv_awake: "kinv k L W \<Longrightarrow> awake_none W"
  by (simp add: kinv_def)

lemma kinv_sleeper: "kinv k L W \<Longrightarrow> (t, n) \<in> set W \<Longrightarrow> t < ntasks k"
  unfolding kinv_def by (blast intro: kinv_but_sleeper)

lemma task_ok_ready:
  "task_ok k L W t \<Longrightarrow> t \<in> set (L (Ready_List p)) \<longleftrightarrow>
     state (tcbs k t) = Ready \<and> priority (tcbs k t) = p"
  by (simp add: task_ok_def)

lemma task_ok_wait:
  "task_ok k L W t \<Longrightarrow> \<not> is_ready_list l \<Longrightarrow> t \<in> set (L l) \<longleftrightarrow> wait_list (tcbs k t) = Some l"
  by (simp add: task_ok_def)

lemma task_ok_wait_list:
  "task_ok k L W t \<Longrightarrow> wait_list (tcbs k t) = Some l \<Longrightarrow> \<not> is_ready_list l \<and> t \<in> set (L l)"
  by (simp add: task_ok_def)

lemma task_ok_blocked:
  "task_ok k L W t \<Longrightarrow>
     wait_list (tcbs k t) \<noteq> None \<or> t \<in> fst ` set W \<longleftrightarrow> state (tcbs k t) = Blocked"
  by (simp add: task_ok_def)

lemma task_ok_priority: "task_ok k L W t \<Longrightarrow> priority (tcbs k t) < 32"
  by (simp add: task_ok_def)

lemma task_ok_base: "task_ok k L W t \<Longrightarrow> base_priority (tcbs k t) \<le> priority (tcbs k t)"
  by (simp add: task_ok_def)

lemma kinv_ready_member:
  assumes "kinv k L W" and "t \<in> set (L (Ready_List p))"
  shows "t < ntasks k" and "state (tcbs k t) = Ready" and "priority (tcbs k t) = p"
proof -
  show n: "t < ntasks k" by (rule kinv_member [OF assms])
  show "state (tcbs k t) = Ready" "priority (tcbs k t) = p"
    using task_ok_ready [OF kinv_task [OF assms(1) n]] assms(2) by simp_all
qed

text \<open>A task that is neither Ready nor Blocked is on no list.\<close>

lemma task_ok_detached:
  assumes "task_ok k L W t" and "state (tcbs k t) \<noteq> Ready" and "state (tcbs k t) \<noteq> Blocked"
  shows "detached_from L W t"
proof -
  have "t \<notin> set (L l)" for l
  proof (cases l)
    case (Ready_List p)
    then show ?thesis using assms by (simp add: task_ok_ready)
  qed (use assms in \<open>auto simp: task_ok_wait dest: task_ok_blocked\<close>)
  then show ?thesis using assms task_ok_blocked [OF assms(1)] by (auto simp: detached_from_def)
qed

subsection \<open>Stores that the invariant does not see\<close>

lemma task_ok_cong:
  assumes "state (tcbs k' t) = state (tcbs k t)" and "priority (tcbs k' t) = priority (tcbs k t)"
    and "base_priority (tcbs k' t) = base_priority (tcbs k t)"
    and "wait_list (tcbs k' t) = wait_list (tcbs k t)"
    and "\<And>l. t \<in> set (L' l) \<longleftrightarrow> t \<in> set (L l)" and "t \<in> fst ` set W' \<longleftrightarrow> t \<in> fst ` set W"
  shows "task_ok k' L' W' t = task_ok k L W t"
  using assms by (simp add: task_ok_def)

lemma kinv_but_cong:
  assumes "wf_kernel k' L W = wf_kernel k L W"
    and "\<And>t. state (tcbs k' t) = state (tcbs k t)"
    and "\<And>t. priority (tcbs k' t) = priority (tcbs k t)"
    and "\<And>t. base_priority (tcbs k' t) = base_priority (tcbs k t)"
    and "\<And>t. wait_list (tcbs k' t) = wait_list (tcbs k t)"
    and "task_count k' = task_count k" and "current_task k' = current_task k"
  shows "kinv_but X k' L W = kinv_but X k L W"
proof -
  have "task_ok k' L W t = task_ok k L W t" for t
    by (rule task_ok_cong) (simp_all add: assms)
  then show ?thesis
    by (simp add: kinv_but_def wait_sorted_def ntasks_def only_current_runs_def current_valid_def assms)
qed

lemma kinv_but_field [simp]:
  "kinv_but X (k\<lparr>primask := b\<rparr>) L W = kinv_but X k L W"
  "kinv_but X (k\<lparr>pendsv := b\<rparr>) L W = kinv_but X k L W"
  "kinv_but X (k\<lparr>started := b\<rparr>) L W = kinv_but X k L W"
  "kinv_but X (k\<lparr>tick_count := n32\<rparr>) L W = kinv_but X k L W"
  "kinv_but X (k\<lparr>sem_count := sc\<rparr>) L W = kinv_but X k L W"
  "kinv_but X (k\<lparr>mutexes := ms\<rparr>) L W = kinv_but X k L W"
  "kinv_but X (k\<lparr>event_bits := eb\<rparr>) L W = kinv_but X k L W"
  "kinv_but X (k\<lparr>queues := qs\<rparr>) L W = kinv_but X k L W"
  "kinv_but X (k\<lparr>mem := m\<rparr>) L W = kinv_but X k L W"
  "kinv_but X (k\<lparr>current_sp := a\<rparr>) L W = kinv_but X k L W"
  "kinv_but X (k\<lparr>psp := a\<rparr>) L W = kinv_but X k L W"
  "kinv_but X (k\<lparr>regs := r\<rparr>) L W = kinv_but X k L W"
  "kinv_but X (k\<lparr>g_cpu_hz := n32\<rparr>) L W = kinv_but X k L W"
  "kinv_but X (k\<lparr>site_created := si\<rparr>) L W = kinv_but X k L W"
  "kinv_but X (yield_if b k) L W = kinv_but X k L W"
  "kinv_but X (task_yield k) L W = kinv_but X k L W"
  by (rule kinv_but_cong; simp)+

lemma kinv_but_upd_tcb [simp]:
  "kinv_but X (upd_tcb t (\<lambda>b. b\<lparr>timeout_expired := e\<rparr>) k) L W = kinv_but X k L W"
  "kinv_but X (upd_tcb t (\<lambda>b. b\<lparr>xfer_ptr := x\<rparr>) k) L W = kinv_but X k L W"
  "kinv_but X (upd_tcb t (\<lambda>b. b\<lparr>held_mutexes := h\<rparr>) k) L W = kinv_but X k L W"
  "kinv_but X (upd_tcb t (\<lambda>b. b\<lparr>event_wait_mask := ew\<rparr>) k) L W = kinv_but X k L W"
  "kinv_but X (upd_tcb t (\<lambda>b. b\<lparr>event_wait_all := ea\<rparr>) k) L W = kinv_but X k L W"
  "kinv_but X (upd_tcb t (\<lambda>b. b\<lparr>event_clear_on_exit := ec\<rparr>) k) L W = kinv_but X k L W"
  "kinv_but X (upd_tcb t (\<lambda>b. b\<lparr>sp := a\<rparr>) k) L W = kinv_but X k L W"
  "kinv_but X (upd_tcb t (\<lambda>b. b\<lparr>stack_base := a\<rparr>) k) L W = kinv_but X k L W"
  "kinv_but X (upd_tcb t (\<lambda>b. b\<lparr>stack_end := a\<rparr>) k) L W = kinv_but X k L W"
  by (rule kinv_but_cong; simp)+

lemma ntasks_simps [simp]:
  "ntasks (upd_tcb t f k) = ntasks k"
  "ntasks (k\<lparr>primask := b\<rparr>) = ntasks k" "ntasks (k\<lparr>pendsv := b\<rparr>) = ntasks k"
  "ntasks (k\<lparr>current_task := c\<rparr>) = ntasks k" "ntasks (k\<lparr>tick_count := n32\<rparr>) = ntasks k"
  "ntasks (k\<lparr>sem_count := sc\<rparr>) = ntasks k" "ntasks (k\<lparr>mutexes := ms\<rparr>) = ntasks k"
  "ntasks (k\<lparr>event_bits := eb\<rparr>) = ntasks k" "ntasks (k\<lparr>queues := qs\<rparr>) = ntasks k"
  "ntasks (k\<lparr>mem := m\<rparr>) = ntasks k" "ntasks (k\<lparr>current_sp := a\<rparr>) = ntasks k"
  "ntasks (k\<lparr>started := b\<rparr>) = ntasks k" "ntasks (yield_if e k) = ntasks k"
  "ntasks (task_yield k) = ntasks k"
  by (simp_all add: ntasks_def)

lemma reshuffled_ntasks: "reshuffled k k' \<Longrightarrow> ntasks k' = ntasks k"
  by (simp add: ntasks_def reshuffled_kernel)

text \<open>
  A primitive changed the structures from \<open>L\<close>, \<open>W\<close> to \<open>L'\<close>, \<open>W'\<close>. Where it moved only
  tasks of \<open>X\<close>, the invariant for the other tasks is kept.
\<close>

lemma kinv_but_reshuffled:
  assumes inv: "kinv_but X k L W" and rel: "reshuffled k k'" and wf: "wf_kernel k' L' W'"
    and L: "\<And>t l. t \<notin> X \<Longrightarrow> t \<in> set (L' l) \<longleftrightarrow> t \<in> set (L l)"
    and W: "\<And>t. t \<notin> X \<Longrightarrow> t \<in> fst ` set W' \<longleftrightarrow> t \<in> fst ` set W"
    and X: "\<And>t. t \<in> X \<Longrightarrow> t < ntasks k"
    and ws: "wait_sorted k L'"
  shows "kinv_but X k' L' W'"
proof -
  note fr = reshuffled_tcb [OF rel] reshuffled_kernel [OF rel] reshuffled_ntasks [OF rel]
  have "task_ok k' L' W' t = task_ok k L W t" if "t \<notin> X" for t
    by (rule task_ok_cong) (simp_all add: fr L W that)
  moreover have "detached_from L' W' t" if "ntasks k \<le> t" for t
  proof -
    have "t \<notin> X" using X that by fastforce
    moreover have "detached_from L W t" using inv that by (simp add: kinv_but_def)
    ultimately show ?thesis using L W by (simp add: detached_from_def)
  qed
  moreover have "wait_sorted k' L'" using ws by (simp add: wait_sorted_def fr)
  moreover have "only_current_runs X k' = only_current_runs X k" "current_valid k' = current_valid k"
    by (simp_all add: only_current_runs_def current_valid_def fr)
  ultimately show ?thesis using inv wf by (simp add: kinv_but_def fr)
qed

lemma kinv_but_mono: "kinv_but X k L W \<Longrightarrow> X \<subseteq> Y \<Longrightarrow> kinv_but Y k L W"
  unfolding kinv_but_def only_current_runs_def by blast

lemma kinv_but_any: "kinv_but {} k L W \<Longrightarrow> kinv_but X k L W"
  by (erule kinv_but_mono) simp

lemma wait_sorted_upd:
  "wait_sorted k L \<Longrightarrow> is_ready_list l \<or> prio_sorted (\<lambda>x. priority (tcbs k x)) xs \<Longrightarrow>
   wait_sorted k (L(l := xs))"
  by (auto simp: wait_sorted_def)

lemma kinv_but_sorted: "kinv_but X k L W \<Longrightarrow> wait_sorted k L"
  by (simp add: kinv_but_def)

lemma kinv_but_wait_sorted:
  "kinv_but X k L W \<Longrightarrow> \<not> is_ready_list l \<Longrightarrow> prio_sorted (\<lambda>x. priority (tcbs k x)) (L l)"
  by (simp add: kinv_but_def wait_sorted_def)

subsection \<open>Detached tasks\<close>

lemma detachedD:
  assumes "detached t k L W"
  shows "kinv_but {t} k L W" and "t < ntasks k" and "\<And>l. t \<notin> set (L l)" and "t \<notin> fst ` set W"
    and "wf_kernel k L W"
  using assms by (auto simp: detached_def detached_from_def intro: kinv_but_wf)

text \<open>Any store to the control block of a detached task, but to its links, is allowed.\<close>

lemma kinv_but_upd:
  assumes inv: "kinv_but {t} k L W" and new: "\<And>l. t \<notin> set (L l)"
    and wf: "wf_kernel (upd_tcb t f k) L W = wf_kernel k L W"
  shows "kinv_but {t} (upd_tcb t f k) L W"
proof -
  let ?k = "upd_tcb t f k"
  have "task_ok ?k L W s = task_ok k L W s" if "s \<noteq> t" for s
    using that by (intro task_ok_cong) simp_all
  moreover have "wait_sorted ?k L"
    unfolding wait_sorted_def
  proof (intro allI impI)
    fix l assume "\<not> is_ready_list l"
    then have "prio_sorted (\<lambda>x. priority (tcbs k x)) (L l)"
      using inv by (simp add: kinv_but_wait_sorted)
    then show "prio_sorted (\<lambda>x. priority (tcbs ?k x)) (L l)"
      using new [of l] by (subst prio_sorted_cong [where pr' = "\<lambda>x. priority (tcbs k x)"]) auto
  qed
  moreover have "only_current_runs {t} ?k = only_current_runs {t} k" "current_valid ?k = current_valid k"
    by (auto simp: only_current_runs_def current_valid_def)
  ultimately show ?thesis
    using inv wf by (auto simp: kinv_but_def)
qed

lemma detached_upd:
  assumes "detached t k L W" and "wf_kernel (upd_tcb t f k) L W = wf_kernel k L W"
  shows "detached t (upd_tcb t f k) L W"
proof -
  have "kinv_but {t} (upd_tcb t f k) L W"
    by (rule kinv_but_upd [OF detachedD(1) [OF assms(1)] detachedD(3) [OF assms(1)] assms(2)])
  then show ?thesis using assms(1) by (simp add: detached_def)
qed

lemma detachedI:
  "kinv_but {t} k L W \<Longrightarrow> t < ntasks k \<Longrightarrow> (\<And>l. t \<notin> set (L l)) \<Longrightarrow> t \<notin> fst ` set W \<Longrightarrow> detached t k L W"
  by (simp add: detached_def detached_from_def)

lemma detached_field [simp]:
  "detached t (k\<lparr>primask := b\<rparr>) L W = detached t k L W"
  "detached t (k\<lparr>pendsv := b\<rparr>) L W = detached t k L W"
  "detached t (k\<lparr>tick_count := n32\<rparr>) L W = detached t k L W"
  "detached t (k\<lparr>sem_count := sc\<rparr>) L W = detached t k L W"
  "detached t (k\<lparr>mutexes := ms\<rparr>) L W = detached t k L W"
  "detached t (k\<lparr>event_bits := eb\<rparr>) L W = detached t k L W"
  "detached t (k\<lparr>queues := qs\<rparr>) L W = detached t k L W"
  "detached t (k\<lparr>mem := m\<rparr>) L W = detached t k L W"
  by (simp_all add: detached_def)

lemma kinv_field [simp]:
  "kinv (k\<lparr>primask := b\<rparr>) L W = kinv k L W"
  "kinv (k\<lparr>pendsv := b\<rparr>) L W = kinv k L W"
  "kinv (k\<lparr>started := b\<rparr>) L W = kinv k L W"
  "kinv (k\<lparr>tick_count := n32\<rparr>) L W = kinv k L W"
  "kinv (k\<lparr>sem_count := sc\<rparr>) L W = kinv k L W"
  "kinv (k\<lparr>mutexes := ms\<rparr>) L W = kinv k L W"
  "kinv (k\<lparr>event_bits := eb\<rparr>) L W = kinv k L W"
  "kinv (k\<lparr>queues := qs\<rparr>) L W = kinv k L W"
  "kinv (k\<lparr>mem := m\<rparr>) L W = kinv k L W"
  "kinv (k\<lparr>current_sp := a\<rparr>) L W = kinv k L W"
  "kinv (k\<lparr>psp := a\<rparr>) L W = kinv k L W"
  "kinv (k\<lparr>regs := r\<rparr>) L W = kinv k L W"
  "kinv (k\<lparr>g_cpu_hz := n32\<rparr>) L W = kinv k L W"
  "kinv (k\<lparr>site_created := si\<rparr>) L W = kinv k L W"
  "kinv (upd_tcb t (\<lambda>b. b\<lparr>timeout_expired := e\<rparr>) k) L W = kinv k L W"
  "kinv (upd_tcb t (\<lambda>b. b\<lparr>xfer_ptr := x\<rparr>) k) L W = kinv k L W"
  "kinv (upd_tcb t (\<lambda>b. b\<lparr>held_mutexes := h\<rparr>) k) L W = kinv k L W"
  "kinv (upd_tcb t (\<lambda>b. b\<lparr>event_wait_mask := ew\<rparr>) k) L W = kinv k L W"
  "kinv (upd_tcb t (\<lambda>b. b\<lparr>event_wait_all := ea\<rparr>) k) L W = kinv k L W"
  "kinv (upd_tcb t (\<lambda>b. b\<lparr>event_clear_on_exit := ec\<rparr>) k) L W = kinv k L W"
  "kinv (upd_tcb t (\<lambda>b. b\<lparr>sp := a\<rparr>) k) L W = kinv k L W"
  "kinv (task_yield k) L W = kinv k L W" "kinv (yield_if c k) L W = kinv k L W"
  by (simp_all add: kinv_def task_yield_def yield_if_def)

subsection \<open>Pointers\<close>

lemma kinv_ntasks: "kinv k L W \<Longrightarrow> ntasks k \<le> kMaxTasks"
  by (simp add: kinv_def kinv_but_def)

lemma kinv_ends:
  assumes inv: "kinv k L W"
  shows "current_task k = Some t \<Longrightarrow> t < ntasks k" and "delay_head k = Some t \<Longrightarrow> t < ntasks k"
    and "head (lists k l) = Some t \<Longrightarrow> t < ntasks k" and "tail (lists k l) = Some t \<Longrightarrow> t < ntasks k"
proof -
  note wf = kinv_wf [OF inv]
  show "current_task k = Some t \<Longrightarrow> t < ntasks k" by (rule kinv_current [OF inv])
  show "t < ntasks k" if "delay_head k = Some t"
  proof -
    have "t \<in> fst ` set W"
      using that wf_delay_head [OF wf_kernelD(3) [OF wf]] first_of_in [of "map fst W" t] by simp
    then show ?thesis using kinv_sleeper [OF inv] by auto
  qed
  show "t < ntasks k" if "head (lists k l) = Some t"
    using that wf_lists_head [OF wf_kernelD(1) [OF wf]] by (auto intro: kinv_member [OF inv] dest: first_of_in)
  show "t < ntasks k" if "tail (lists k l) = Some t"
    using that wf_lists_tail [OF wf_kernelD(1) [OF wf]] by (auto intro: kinv_member [OF inv] dest: last_of_in)
qed

text \<open>The successor of a task on a list.\<close>

lemma kinv_neighbour:
  assumes inv: "kinv k L W" and t: "t < ntasks k" "state (tcbs k t) = Ready \<or> wait_list (tcbs k t) \<noteq> None"
    and n: "link_next (tcbs k t) = Some n"
  shows "n < ntasks k" and "link_prev (tcbs k n) = Some t" and "state (tcbs k n) = state (tcbs k t)"
    and "wait_list (tcbs k n) = wait_list (tcbs k t)" and "priority (tcbs k n) \<le> priority (tcbs k t)"
proof -
  have okt: "task_ok k L W t" by (rule kinv_task [OF inv t(1)])
  define l where "l = (case wait_list (tcbs k t) of None \<Rightarrow> Ready_List (priority (tcbs k t)) | Some l \<Rightarrow> l)"
  have tl: "t \<in> set (L l)"
    using t(2) task_ok_ready [OF okt] task_ok_wait_list [OF okt] by (auto simp: l_def split: option.split)
  have "linked_list k l (L l)" by (rule wf_lists_linked [OF wf_kernelD(1) [OF kinv_wf [OF inv]]])
  note lk = linked_successor [OF this [unfolded linked_list_def] tl n]
  show "link_prev (tcbs k n) = Some t" by (rule lk(1))
  obtain as bs where split: "L l = as @ t # n # bs" using lk(2) by blast
  then have nl: "n \<in> set (L l)" by simp
  show nk: "n < ntasks k" by (rule kinv_member [OF inv nl])
  have okn: "task_ok k L W n" by (rule kinv_task [OF inv nk])
  have "state (tcbs k n) = state (tcbs k t) \<and> wait_list (tcbs k n) = wait_list (tcbs k t) \<and>
      priority (tcbs k n) \<le> priority (tcbs k t)"
  proof (cases "wait_list (tcbs k t)")
    case None
    then have "l = Ready_List (priority (tcbs k t))" by (simp add: l_def)
    then show ?thesis using task_ok_ready [OF okn] nl t(2) None task_ok_blocked [OF okn] by auto
  next
    case (Some w)
    then have w: "l = w" "\<not> is_ready_list w" using task_ok_wait_list [OF okt] by (simp_all add: l_def)
    then have "wait_list (tcbs k n) = Some w" using task_ok_wait [OF okn] nl by simp
    moreover have "prio_sorted (\<lambda>x. priority (tcbs k x)) (L w)"
      using inv w(2) by (simp add: kinv_def kinv_but_def wait_sorted_def)
    ultimately show ?thesis
      using Some split w(1) task_ok_blocked [OF okt] task_ok_blocked [OF okn] by (simp add: prio_sorted_append)
  qed
  then show "state (tcbs k n) = state (tcbs k t)" "wait_list (tcbs k n) = wait_list (tcbs k t)"
    "priority (tcbs k n) \<le> priority (tcbs k t)" by simp_all
qed

lemma kinv_sleeping_neighbour:
  assumes inv: "kinv k L W" and t: "in_delay_list (tcbs k t)" and n: "delay_next (tcbs k t) = Some n"
  shows "n < ntasks k" and "in_delay_list (tcbs k n)" and "delay_prev (tcbs k n) = Some t"
proof -
  note wf = wf_kernelD(3) [OF kinv_wf [OF inv]]
  have lk: "linked (\<lambda>t. delay_next (tcbs k t)) (\<lambda>t. delay_prev (tcbs k t)) (delay_head k)
      (last_of (map fst W)) (map fst W)"
    using wf by (simp add: wf_delay_def delay_linked_def)
  have "t \<in> set (map fst W)" using t wf_delay_member [OF wf] by simp
  note nb = linked_successor [OF lk this n]
  show "delay_prev (tcbs k n) = Some t" by (rule nb(1))
  have "n \<in> set (map fst W)" using nb(2) by (auto simp del: set_map)
  then show "in_delay_list (tcbs k n)" "n < ntasks k"
    using wf_delay_member [OF wf] kinv_sleeper [OF inv] by auto
qed

subsection \<open>Taking a task out\<close>

lemma detach_ready:
  assumes inv: "kinv_but {} k L W" and t: "t < ntasks k" "state (tcbs k t) = Ready"
    and p: "p = priority (tcbs k t)"
  shows "\<exists>k'. rm_remove (Some t) k = Inr k' \<and> reshuffled k k' \<and>
           detached t k' (L(Ready_List p := remove1 t (L (Ready_List p)))) W"
proof -
  let ?L = "L(Ready_List p := remove1 t (L (Ready_List p)))"
  have ok: "task_ok k L W t" using inv t by (simp add: kinv_but_def)
  have tin: "t \<in> set (L (Ready_List p))" using ok t p by (simp add: task_ok_ready)
  note wf = kinv_but_wf [OF inv]
  obtain k' where run: "rm_remove (Some t) k = Inr k'" "reshuffled k k'" "wf_kernel k' ?L W"
    using rm_remove_ok [OF wf p [symmetric] _ tin] ok p by (auto dest: task_ok_priority)
  have out: "t \<notin> set (?L l)" for l
    using wf_lists_one [OF wf_kernelD(1) [OF wf] tin] wf_lists_distinct [OF wf_kernelD(1) [OF wf]]
    by (auto simp: distinct_remove1_removeAll)
  have tw: "t \<notin> fst ` set W" using ok t by (auto dest: task_ok_blocked)
  have "kinv_but {t} k' ?L W"
  proof (rule kinv_but_reshuffled [OF kinv_but_mono [OF inv] run(2,3)])
    show "wait_sorted k ?L" by (rule wait_sorted_upd [OF kinv_but_sorted [OF inv]]) simp
  qed (use t in auto)
  then have "detached t k' ?L W"
    using t out tw reshuffled_ntasks [OF run(2)] by (intro detachedI) auto
  with run show ?thesis by blast
qed

text \<open>A task leaves the wait list it is on; the invariant need not hold for it.\<close>

lemma out_of_wait:
  assumes inv: "kinv_but {t} k L W" and t: "t < ntasks k" "\<not> is_ready_list l" "t \<in> set (L l)"
    and rel: "reshuffled k k'" and wf': "wf_kernel k' (L(l := remove1 t (L l))) W"
  shows "kinv_but {t} k' (L(l := remove1 t (L l))) W \<and> (\<forall>l'. t \<notin> set ((L(l := remove1 t (L l))) l'))"
proof -
  let ?L = "L(l := remove1 t (L l))"
  note wf = kinv_but_wf [OF inv]
  have "kinv_but {t} k' ?L W"
  proof (rule kinv_but_reshuffled [OF inv rel wf'])
    show "wait_sorted k ?L"
      by (rule wait_sorted_upd [OF kinv_but_sorted [OF inv]])
        (simp add: prio_sorted_remove1 kinv_but_wait_sorted [OF inv t(2)])
  qed (use t in auto)
  moreover have "t \<notin> set (?L l')" for l'
    using wf_lists_one [OF wf_kernelD(1) [OF wf] t(3)] wf_lists_distinct [OF wf_kernelD(1) [OF wf]]
    by (auto simp: distinct_remove1_removeAll)
  ultimately show ?thesis by blast
qed

lemma leave_wait:
  assumes inv: "kinv_but {t} k L W" and t: "t < ntasks k" "\<not> is_ready_list l" "t \<in> set (L l)"
  shows "\<exists>k'. list_remove l (Some t) k = Inr k' \<and> reshuffled k k' \<and>
           kinv_but {t} k' (L(l := remove1 t (L l))) W \<and>
           (\<forall>l'. t \<notin> set ((L(l := remove1 t (L l))) l'))"
proof -
  obtain k' where "list_remove l (Some t) k = Inr k'" "reshuffled k k'"
    "wf_kernel k' (L(l := remove1 t (L l))) W"
    using wait_remove_ok [OF kinv_but_wf [OF inv] t(2,3)] by blast
  with out_of_wait [OF inv t] show ?thesis by blast
qed

lemma pop_wait:
  assumes inv: "kinv_but {} k L W" and l: "\<not> is_ready_list l" and L: "L l = t # ts"
  shows "\<exists>k'. pop_front l k = Inr (Some t, k') \<and> reshuffled k k' \<and>
           kinv_but {t} k' (L(l := ts)) W \<and> (\<forall>l'. t \<notin> set ((L(l := ts)) l')) \<and> t < ntasks k \<and>
           wait_list (tcbs k t) = Some l"
proof -
  have t: "t < ntasks k" using kinv_but_member [OF inv, of t l] L by simp
  then have "task_ok k L W t" using inv by (simp add: kinv_but_def)
  then have w: "wait_list (tcbs k t) = Some l" using l L task_ok_wait by fastforce
  obtain k' where run: "pop_front l k = Inr (Some t, k')" "reshuffled k k'" "wf_kernel k' (L(l := ts)) W"
    using wait_pop_ok [OF kinv_but_wf [OF inv] l L] by blast
  have eq: "remove1 t (L l) = ts" using L by simp
  have "kinv_but {t} k L W" by (rule kinv_but_mono [OF inv]) simp
  from out_of_wait [OF this t l _ run(2)] L run(3) eq
  have "kinv_but {t} k' (L(l := ts)) W \<and> (\<forall>l'. t \<notin> set ((L(l := ts)) l'))" by simp
  with run t w show ?thesis by blast
qed

lemma leave_delay:
  assumes inv: "kinv_but {t} k L W" and t: "t < ntasks k"
  shows "reshuffled k (delay_remove (Some t) k) \<and>
         kinv_but {t} (delay_remove (Some t) k) L (remove_wake t W) \<and> t \<notin> fst ` set (remove_wake t W)"
proof -
  note run = sleep_remove_ok [OF kinv_but_wf [OF inv], of t]
  have "kinv_but {t} (delay_remove (Some t) k) L (remove_wake t W)"
  proof (rule kinv_but_reshuffled [OF inv conjunct1 [OF run] conjunct2 [OF run]])
    show "wait_sorted k L" by (rule kinv_but_sorted [OF inv])
  qed (use t in force)+
  then show ?thesis using run by auto
qed

lemma awake_none_remove: "awake_none W \<Longrightarrow> awake_none (remove_wake t W)"
  by (simp add: awake_none_def)

lemma awake_none_insert: "awake_none W \<Longrightarrow> 0 < n \<Longrightarrow> awake_none (insert_wake t n W)"
  by (simp add: awake_none_def)

lemma detach_resting:
  assumes inv: "kinv_but {} k L W" and t: "t < ntasks k"
    and "state (tcbs k t) \<noteq> Ready" "state (tcbs k t) \<noteq> Blocked"
  shows "detached t k L W"
proof -
  have "task_ok k L W t" using inv t by (simp add: kinv_but_def)
  then have "detached_from L W t" using assms(3,4) by (rule task_ok_detached)
  with kinv_but_mono [OF inv, of "{t}"] t show ?thesis by (simp add: detached_def)
qed

subsection \<open>Putting a task back\<close>

lemma kinv_but_attach:
  assumes inv: "kinv_but {t} k L W" and t: "task_ok k L W t"
    and run: "state (tcbs k t) = Running \<Longrightarrow> current_task k = Some t"
  shows "kinv_but {} k L W"
  using assms unfolding kinv_but_def only_current_runs_def by blast

lemma attach_ready:
  assumes d: "detached t k L W" and st: "state (tcbs k t) = Ready" "wait_list (tcbs k t) = None"
    and p: "p = priority (tcbs k t)" "p < 32" "base_priority (tcbs k t) \<le> p"
  shows "\<exists>k'. rm_add (Some t) k = Inr k' \<and> reshuffled k k' \<and>
           kinv_but {} k' (L(Ready_List p := L (Ready_List p) @ [t])) W"
proof -
  let ?L = "L(Ready_List p := L (Ready_List p) @ [t])"
  obtain k' where run: "rm_add (Some t) k = Inr k'" "reshuffled k k'" "wf_kernel k' ?L W"
    using rm_add_ok [OF detachedD(5,3) [OF d] p(1) [symmetric] p(2)] by blast
  note fr = reshuffled_tcb [OF run(2)] reshuffled_kernel [OF run(2)]
  have "kinv_but {t} k' ?L W"
  proof (rule kinv_but_reshuffled [OF detachedD(1) [OF d] run(2,3)])
    show "wait_sorted k ?L"
      by (rule wait_sorted_upd [OF kinv_but_sorted [OF detachedD(1) [OF d]]]) simp
  qed (use detachedD(2) [OF d] in auto)
  moreover have "task_ok k' ?L W t"
    using st p detachedD(3,4) [OF d] by (auto simp: task_ok_def fr)
  ultimately have "kinv_but {} k' ?L W"
    by (rule kinv_but_attach) (simp add: fr st)
  with run show ?thesis by blast
qed

lemma attach_resting:
  assumes d: "detached t k L W" and st: "state (tcbs k t) \<noteq> Ready" "state (tcbs k t) \<noteq> Blocked"
    and cur: "state (tcbs k t) = Running \<Longrightarrow> current_task k = Some t"
    and w: "wait_list (tcbs k t) = None"
    and p: "priority (tcbs k t) < 32" "base_priority (tcbs k t) \<le> priority (tcbs k t)"
  shows "kinv_but {} k L W"
proof (rule kinv_but_attach [OF detachedD(1) [OF d] _ cur])
  show "task_ok k L W t"
    using st w p detachedD(3,4) [OF d] by (auto simp: task_ok_def)
qed

text \<open>A task with a time limit stays on the delay list while it waits.\<close>

lemma attach_wait:
  assumes inv: "kinv_but {t} k L W" and t: "t < ntasks k" and new: "\<And>l. t \<notin> set (L l)"
    and st: "state (tcbs k t) = Blocked" "wait_list (tcbs k t) = Some l"
    and l: "\<not> is_ready_list l"
    and p: "priority (tcbs k t) < 32" "base_priority (tcbs k t) \<le> priority (tcbs k t)"
  shows "\<exists>k'. insert_by_priority l (Some t) k = Inr k' \<and> reshuffled k k' \<and>
           kinv_but {} k' (L(l := insert_prio (\<lambda>x. priority (tcbs k x)) t (L l))) W"
proof -
  let ?L = "L(l := insert_prio (\<lambda>x. priority (tcbs k x)) t (L l))"
  obtain k' where run: "insert_by_priority l (Some t) k = Inr k'" "reshuffled k k'" "wf_kernel k' ?L W"
    using wait_insert_ok [OF kinv_but_wf [OF inv] l new] by blast
  note fr = reshuffled_tcb [OF run(2)] reshuffled_kernel [OF run(2)]
  have "kinv_but {t} k' ?L W"
  proof (rule kinv_but_reshuffled [OF inv run(2,3)])
    show "wait_sorted k ?L"
      by (rule wait_sorted_upd [OF kinv_but_sorted [OF inv]])
        (simp add: prio_sorted_insert_prio kinv_but_wait_sorted [OF inv l])
  qed (use t in auto)
  moreover have "task_ok k' ?L W t"
    using st p l new by (auto simp: task_ok_def fr)
  ultimately have "kinv_but {} k' ?L W"
    by (rule kinv_but_attach) (simp add: fr st)
  with run show ?thesis by blast
qed

lemma attach_sleep:
  assumes d: "detached t k L W" and st: "state (tcbs k t) = Blocked" "wait_list (tcbs k t) = None"
    and p: "priority (tcbs k t) < 32" "base_priority (tcbs k t) \<le> priority (tcbs k t)"
  shows "\<exists>k'. delay_insert (Some t) n k = Inr k' \<and> reshuffled k k' \<and>
           kinv_but {} k' L (insert_wake t (unat n) W)"
proof -
  let ?W = "insert_wake t (unat n) W"
  obtain k' where run: "delay_insert (Some t) n k = Inr k'" "reshuffled k k'" "wf_kernel k' L ?W"
    using sleep_insert_ok [OF detachedD(5,4) [OF d]] by blast
  note fr = reshuffled_tcb [OF run(2)] reshuffled_kernel [OF run(2)]
  have "kinv_but {t} k' L ?W"
  proof (rule kinv_but_reshuffled [OF detachedD(1) [OF d] run(2,3)])
    show "wait_sorted k L" by (rule kinv_but_sorted [OF detachedD(1) [OF d]])
  qed (use detachedD(2) [OF d] in auto)
  moreover have "task_ok k' L ?W t"
    using st p detachedD(3,4) [OF d] by (auto simp: task_ok_def fr)
  ultimately have "kinv_but {} k' L ?W"
    by (rule kinv_but_attach) (simp add: fr st)
  with run show ?thesis by blast
qed

text \<open>A waiting task gets a time limit.\<close>

lemma attach_timeout:
  assumes inv: "kinv_but {} k L W" and t: "t < ntasks k" "state (tcbs k t) = Blocked"
    and new: "t \<notin> fst ` set W"
  shows "\<exists>k'. delay_insert (Some t) n k = Inr k' \<and> reshuffled k k' \<and>
           kinv_but {} k' L (insert_wake t (unat n) W)"
proof -
  let ?W = "insert_wake t (unat n) W"
  have ok: "task_ok k L W t" using inv t by (simp add: kinv_but_def)
  obtain k' where run: "delay_insert (Some t) n k = Inr k'" "reshuffled k k'" "wf_kernel k' L ?W"
    using sleep_insert_ok [OF kinv_but_wf [OF inv] new] by blast
  note fr = reshuffled_tcb [OF run(2)] reshuffled_kernel [OF run(2)]
  have "kinv_but {t} k' L ?W"
  proof (rule kinv_but_reshuffled [OF kinv_but_mono [OF inv] run(2,3)])
    show "wait_sorted k L" by (rule kinv_but_sorted [OF inv])
  qed (use t in auto)
  moreover have "task_ok k' L ?W t"
    using ok t by (auto simp: task_ok_def fr)
  ultimately have "kinv_but {} k' L ?W"
    by (rule kinv_but_attach) (simp add: fr t)
  with run show ?thesis by blast
qed

end
