(* ===== verification/Ready_Queue.thy ===== *)
theory Ready_Queue
  imports Kernel_Invariant
begin

text \<open>
  The interface between the ready manager and the scheduler. \<open>ready_queue\<close> has the three
  operations the scheduler calls, with what each does to the sequences: \<open>put\<close> appends a
  detached task to the list of its priority, \<open>take\<close> unlinks a ready task, \<open>best\<close> takes the
  first task of the highest priority. From these laws alone follow the three moves all of
  the scheduler consists of: making a task ready (\<open>admit\<close>, \<open>readmit\<close>), giving a ready task
  another priority (\<open>move\<close>), and putting the best task on the processor (\<open>dispatch\<close>). The
  interpretation \<open>rq\<close> proves the laws of \<open>ReadyManager\<close>.
\<close>

subsection \<open>The sequences\<close>

definition enqueue :: "kernel \<Rightarrow> tid \<Rightarrow> (list_id \<Rightarrow> tid list) \<Rightarrow> list_id \<Rightarrow> tid list" where
  "enqueue k t L = (let p = priority (tcbs k t) in L(Ready_List p := L (Ready_List p) @ [t]))"

lemma enqueue_cong: "priority (tcbs k' t) = priority (tcbs k t) \<Longrightarrow> enqueue k' t L = enqueue k t L"
  by (simp add: enqueue_def)

definition without :: "tid \<Rightarrow> (list_id \<Rightarrow> tid list) \<Rightarrow> list_id \<Rightarrow> tid list" where
  "without t L = (\<lambda>l. remove1 t (L l))"

lemma without_fresh: "(\<And>l. t \<notin> set (L l)) \<Longrightarrow> without t L = L"
  by (simp add: without_def remove1_idem fun_eq_iff)

lemma without_one:
  "(\<And>l'. t \<notin> set ((L(l := remove1 t (L l))) l')) \<Longrightarrow> L(l := remove1 t (L l)) = without t L"
  by (force simp: without_def fun_eq_iff remove1_idem split: if_splits)

definition highest_ready :: "(list_id \<Rightarrow> tid list) \<Rightarrow> prio \<Rightarrow> bool" where
  "highest_ready L p \<longleftrightarrow>
     L (Ready_List p) \<noteq> [] \<and> (\<forall>q. L (Ready_List q) \<noteq> [] \<longrightarrow> q \<le> p)"

definition none_running :: "kernel \<Rightarrow> bool" where
  "none_running k \<longleftrightarrow> (\<forall>s < ntasks k. state (tcbs k s) \<noteq> Running)"

subsection \<open>The contract\<close>

locale ready_queue =
  fixes put :: "tptr \<Rightarrow> kernel \<Rightarrow> kernel res"
    and take :: "tptr \<Rightarrow> kernel \<Rightarrow> kernel res"
    and best :: "kernel \<Rightarrow> (tptr \<times> kernel) res"
  assumes put: "\<lbrakk>detached t k L W; state (tcbs k t) = Ready; wait_list (tcbs k t) = None;
      priority (tcbs k t) < 32; base_priority (tcbs k t) \<le> priority (tcbs k t)\<rbrakk> \<Longrightarrow>
      \<exists>k'. put (Some t) k = Inr k' \<and> plain k' = plain k \<and> kinv_but {} k' (enqueue k t L) W"
    and take: "\<lbrakk>kinv_but {} k L W; t < ntasks k; state (tcbs k t) = Ready\<rbrakk> \<Longrightarrow>
      \<exists>k'. take (Some t) k = Inr k' \<and> plain k' = plain k \<and> detached t k' (without t L) W"
    and best: "\<lbrakk>kinv_but {} k L W; highest_ready L p; L (Ready_List p) = t # ts\<rbrakk> \<Longrightarrow>
      \<exists>k'. best k = Inr (Some t, k') \<and> plain k' = plain k \<and> detached t k' (L(Ready_List p := ts)) W"
    and best_none: "\<lbrakk>kinv_but {} k L W; \<And>p. L (Ready_List p) = []\<rbrakk> \<Longrightarrow> best k = Inr (None, k)"
begin

lemma admit:
  assumes d: "detached t k L W" and w: "wait_list (tcbs k t) = None"
    and p: "priority (tcbs k t) < 32" "base_priority (tcbs k t) \<le> priority (tcbs k t)"
  shows "\<exists>k'. put (Some t) (set_state t Ready k) = Inr k' \<and>
           plain k' = plain (set_state t Ready k) \<and> kinv_but {} k' (enqueue k t L) W"
proof -
  have "detached t (set_state t Ready k) L W" by (intro detached_upd d) simp
  from put [OF this] w p show ?thesis
    using enqueue_cong [of "set_state t Ready k" t k L] by simp
qed

text \<open>A task that is on no list, as the running one.\<close>

lemma readmit:
  assumes inv: "kinv k L W" and t: "t < ntasks k"
    and st: "state (tcbs k t) \<noteq> Ready" "state (tcbs k t) \<noteq> Blocked"
  shows "\<exists>k'. put (Some t) (set_state t Ready k) = Inr k' \<and>
           plain k' = plain (set_state t Ready k) \<and> kinv k' (enqueue k t L) W"
proof -
  have b: "kinv_but {} k L W" using inv by (simp add: kinv_def)
  have ok: "task_ok k L W t" by (rule kinv_task [OF inv t])
  have w: "wait_list (tcbs k t) = None" using task_ok_blocked [OF ok] st by auto
  show ?thesis
    using admit [OF detach_resting [OF b t] w task_ok_priority [OF ok] task_ok_base [OF ok]] st
      kinv_awake [OF inv]
    by (simp add: kinv_def)
qed

lemma move:
  assumes inv: "kinv k L W" and t: "t < ntasks k" "state (tcbs k t) = Ready"
    and p: "p < 32" "base_priority (tcbs k t) \<le> p"
  shows "\<exists>k'. andthen (take (Some t) k) (\<lambda>k.
             put (Some t) (upd_tcb t (\<lambda>b. b\<lparr>priority := p\<rparr>) k)) = Inr k' \<and>
           plain k' = plain (upd_tcb t (\<lambda>b. b\<lparr>priority := p\<rparr>) k) \<and>
           kinv k' ((without t L)(Ready_List p := without t L (Ready_List p) @ [t])) W"
proof -
  have b: "kinv_but {} k L W" using inv by (simp add: kinv_def)
  have w: "wait_list (tcbs k t) = None" using task_ok_blocked [OF kinv_task [OF inv t(1)]] t(2) by auto
  obtain k1 where k1: "take (Some t) k = Inr k1" "plain k1 = plain k" "detached t k1 (without t L) W"
    using take [OF b t] by blast
  note f = plainD [OF k1(2)]
  let ?k = "upd_tcb t (\<lambda>b. b\<lparr>priority := p\<rparr>) k1"
  have "detached t ?k (without t L) W" by (intro detached_upd k1(3)) simp
  from put [OF this] t(2) w p show ?thesis
    using k1(1,2) kinv_awake [OF inv] by (auto simp: f enqueue_def kinv_def)
qed

lemma dispatch:
  assumes inv: "kinv k L W" and none: "none_running k"
    and p: "highest_ready L p" "L (Ready_List p) = n # ts"
  shows "\<exists>k'. best k = Inr (Some n, k') \<and> plain k' = plain k \<and>
           kinv ((set_state n Running k')\<lparr>current_task := Some n\<rparr>) (L(Ready_List p := ts)) W"
proof -
  let ?L = "L(Ready_List p := ts)"
  have b: "kinv_but {} k L W" using inv by (simp add: kinv_def)
  have nin: "n \<in> set (L (Ready_List p))" using p by simp
  have n: "n < ntasks k" by (rule kinv_member [OF inv nin])
  have ok: "task_ok k L W n" by (rule kinv_task [OF inv n])
  have w: "wait_list (tcbs k n) = None"
    using task_ok_blocked [OF ok] task_ok_ready [OF ok] nin by auto
  obtain k' where k': "best k = Inr (Some n, k')" "plain k' = plain k" "detached n k' ?L W"
    using best [OF b p] by blast
  note f = plainD [OF k'(2)]
  let ?k = "(set_state n Running k')\<lparr>current_task := Some n\<rparr>"
  have 1: "detached n (set_state n Running k') ?L W" by (intro detached_upd k'(3)) simp
  have nt: "ntasks k' = ntasks k" by (simp add: ntasks_def f)
  have "only_current_runs {n} ?k" "current_valid ?k"
    using none n nt by (auto simp: only_current_runs_def current_valid_def none_running_def f)
  moreover have "task_ok ?k = task_ok (set_state n Running k')"
    by (simp add: task_ok_def fun_eq_iff)
  moreover have "wait_sorted ?k = wait_sorted (set_state n Running k')"
    by (simp add: wait_sorted_def fun_eq_iff)
  ultimately have "kinv_but {n} ?k ?L W" using detachedD(1) [OF 1] by (simp add: kinv_but_def)
  then have "detached n ?k ?L W" using detachedD [OF 1] by (intro detachedI) simp_all
  then have "kinv_but {} ?k ?L W"
    by (rule attach_resting)
      (use task_ok_priority [OF ok] task_ok_base [OF ok] w in \<open>simp_all add: f\<close>)
  then show ?thesis using k'(1,2) kinv_awake [OF inv] by (auto simp: kinv_def)
qed

end

subsection \<open>The ready manager satisfies the contract\<close>

lemma rm_add_law:
  assumes "detached t k L W" and "state (tcbs k t) = Ready" and "wait_list (tcbs k t) = None"
    and "priority (tcbs k t) < 32" and "base_priority (tcbs k t) \<le> priority (tcbs k t)"
  shows "\<exists>k'. rm_add (Some t) k = Inr k' \<and> plain k' = plain k \<and> kinv_but {} k' (enqueue k t L) W"
  using attach_ready [OF assms(1-3) refl assms(4,5)] by (auto simp: reshuffled_plain enqueue_def Let_def)

lemma rm_remove_law:
  assumes "kinv_but {} k L W" and "t < ntasks k" and "state (tcbs k t) = Ready"
  shows "\<exists>k'. rm_remove (Some t) k = Inr k' \<and> plain k' = plain k \<and> detached t k' (without t L) W"
proof -
  let ?p = "priority (tcbs k t)"
  obtain k' where k': "rm_remove (Some t) k = Inr k'" "plain k' = plain k"
    "detached t k' (L(Ready_List ?p := remove1 t (L (Ready_List ?p)))) W"
    using detach_ready [OF assms refl] by (auto simp: reshuffled_plain)
  moreover have "L(Ready_List ?p := remove1 t (L (Ready_List ?p))) = without t L"
    by (rule without_one) (rule detachedD(3) [OF k'(3)])
  ultimately show ?thesis by simp
qed

lemma get_highest_law:
  assumes inv: "kinv_but {} k L W" and p: "highest_ready L p" "L (Ready_List p) = n # ts"
  shows "\<exists>k'. get_highest_priority_task k = Inr (Some n, k') \<and> plain k' = plain k \<and>
           detached n k' (L(Ready_List p := ts)) W"
proof -
  let ?L = "L(Ready_List p := ts)"
  note wf = kinv_but_wf [OF inv]
  have nin: "n \<in> set (L (Ready_List p))" using p by simp
  have n: "n < ntasks k" by (rule kinv_but_member [OF inv nin])
  have ok: "task_ok k L W n" using inv n by (simp add: kinv_but_def)
  have w: "n \<notin> fst ` set W" using task_ok_blocked [OF ok] task_ok_ready [OF ok] nin by auto
  have out: "n \<notin> set (?L l)" for l
    using wf_lists_one [OF wf_kernelD(1) [OF wf] nin] wf_lists_distinct [OF wf_kernelD(1) [OF wf], of "Ready_List p"]
      p(2) by auto
  obtain k' where k': "get_highest_priority_task k = Inr (Some n, k')" "reshuffled k k'" "wf_kernel k' ?L W"
    using get_highest_ok [OF wf p(2)] p(1) by (auto simp: highest_ready_def)
  have "kinv_but {n} k' ?L W"
  proof (rule kinv_but_reshuffled [OF kinv_but_any [OF inv] k'(2,3)])
    show "wait_sorted k ?L" by (rule wait_sorted_upd [OF kinv_but_sorted [OF inv]]) simp
  qed (use n p(2) in auto)
  then have "detached n k' ?L W"
    using n w out reshuffled_ntasks [OF k'(2)] by (intro detachedI) auto
  then show ?thesis using k'(1,2) by (auto simp: reshuffled_plain)
qed

lemma get_highest_none_law:
  "kinv_but {} k L W \<Longrightarrow> (\<And>p. L (Ready_List p) = []) \<Longrightarrow> get_highest_priority_task k = Inr (None, k)"
  by (rule get_highest_none [OF kinv_but_wf])

interpretation rq: ready_queue rm_add rm_remove get_highest_priority_task
  by unfold_locales (rule rm_add_law rm_remove_law get_highest_law get_highest_none_law; assumption | simp)+

end
