(* ===== verification/Time_Limits.thy ===== *)
theory Time_Limits
  imports Ready_Queue
begin

text \<open>
  The interface of the delay list to its callers. \<open>timer\<close> has the two operations they call:
  \<open>start\<close> gives a blocked task a wake-up time, \<open>stop\<close> takes it off the list, whether it is on
  it or not. The laws speak of the abstract delay list \<open>W\<close> only. From them follow how a task
  falls asleep, how the wait of a blocked task is limited, and how a task that has left its
  wait list becomes detached. The interpretation \<open>dl\<close> proves the laws of \<open>DelayList\<close>.
\<close>

subsection \<open>The contract\<close>

lemma remove_wake_fresh: "t \<notin> fst ` set W \<Longrightarrow> remove_wake t W = W"
  by (force simp: remove_wake_def filter_id_conv)

locale timer =
  fixes start :: "tptr \<Rightarrow> tick \<Rightarrow> kernel \<Rightarrow> kernel res"
    and stop :: "tptr \<Rightarrow> kernel \<Rightarrow> kernel"
  assumes start_detached: "\<lbrakk>detached t k L W; state (tcbs k t) = Blocked; wait_list (tcbs k t) = None;
      priority (tcbs k t) < 32; base_priority (tcbs k t) \<le> priority (tcbs k t)\<rbrakk> \<Longrightarrow>
      \<exists>k'. start (Some t) n k = Inr k' \<and> plain k' = plain k \<and> kinv_but {} k' L (insert_wake t (unat n) W)"
    and start_waiting: "\<lbrakk>kinv_but {} k L W; t < ntasks k; state (tcbs k t) = Blocked; t \<notin> fst ` set W\<rbrakk> \<Longrightarrow>
      \<exists>k'. start (Some t) n k = Inr k' \<and> plain k' = plain k \<and> kinv_but {} k' L (insert_wake t (unat n) W)"
    and stop: "\<lbrakk>kinv_but {t} k L W; t < ntasks k\<rbrakk> \<Longrightarrow>
      plain (stop (Some t) k) = plain k \<and> kinv_but {t} (stop (Some t) k) L (remove_wake t W) \<and>
      t \<notin> fst ` set (remove_wake t W)"
begin

text \<open>The running task sleeps.\<close>

lemma fall_asleep:
  assumes inv: "kinv k L W" and t: "t < ntasks k" "state (tcbs k t) = Running" and n: "0 < n"
  shows "\<exists>k'. start (Some t) n (set_state t Blocked k) = Inr k' \<and>
           plain k' = plain (set_state t Blocked k) \<and> kinv k' L (insert_wake t (unat n) W)"
proof -
  have ok: "task_ok k L W t" by (rule kinv_task [OF inv t(1)])
  have b: "kinv_but {} k L W" using inv by (simp add: kinv_def)
  have d: "detached t (set_state t Blocked k) L W"
    using detach_resting [OF b t(1)] t(2) by (intro detached_upd) simp_all
  have w: "wait_list (tcbs k t) = None" using task_ok_blocked [OF ok] t(2) by auto
  have "0 < unat n" using n by (simp add: word_less_nat_alt)
  then show ?thesis
    using start_detached [OF d, of n] w task_ok_priority [OF ok] task_ok_base [OF ok]
      awake_none_insert [OF kinv_awake [OF inv]]
    by (auto simp: kinv_def)
qed

text \<open>A task that waits on a list gets a time limit.\<close>

lemma limit:
  assumes inv: "kinv k L W" and t: "t < ntasks k" "state (tcbs k t) = Blocked" "t \<notin> fst ` set W"
    and n: "0 < n"
  shows "\<exists>k'. start (Some t) n k = Inr k' \<and> plain k' = plain k \<and> kinv k' L (insert_wake t (unat n) W)"
proof -
  have "kinv_but {} k L W" using inv by (simp add: kinv_def)
  moreover have "0 < unat n" using n by (simp add: word_less_nat_alt)
  ultimately show ?thesis
    using start_waiting [of k L W t n] t awake_none_insert [OF kinv_awake [OF inv]] by (auto simp: kinv_def)
qed

text \<open>A task that is on no other list becomes detached.\<close>

lemma cut:
  assumes inv: "kinv_but {t} k L W" and t: "t < ntasks k" and out: "\<forall>l. t \<notin> set (L l)"
  shows "plain (stop (Some t) k) = plain k" and "detached t (stop (Some t) k) L (remove_wake t W)"
proof -
  note st = stop [OF inv t]
  show pl: "plain (stop (Some t) k) = plain k" using st by blast
  then have "t < ntasks (stop (Some t) k)" using t by (simp add: ntasks_def plainD(16) [OF pl])
  then show "detached t (stop (Some t) k) L (remove_wake t W)"
    using st out by (intro detachedI) auto
qed

end

subsection \<open>The delay list satisfies the contract\<close>

lemma delay_insert_detached:
  assumes "detached t k L W" and "state (tcbs k t) = Blocked" and "wait_list (tcbs k t) = None"
    and "priority (tcbs k t) < 32" and "base_priority (tcbs k t) \<le> priority (tcbs k t)"
  shows "\<exists>k'. delay_insert (Some t) n k = Inr k' \<and> plain k' = plain k \<and> kinv_but {} k' L (insert_wake t (unat n) W)"
  using attach_sleep [OF assms(1), of n] assms(2-5) by (auto simp: reshuffled_plain)

lemma delay_insert_waiting:
  assumes "kinv_but {} k L W" and "t < ntasks k" and "state (tcbs k t) = Blocked" and "t \<notin> fst ` set W"
  shows "\<exists>k'. delay_insert (Some t) n k = Inr k' \<and> plain k' = plain k \<and> kinv_but {} k' L (insert_wake t (unat n) W)"
  using attach_timeout [OF assms, of n] by (auto simp: reshuffled_plain)

lemma delay_remove_law:
  assumes "kinv_but {t} k L W" and "t < ntasks k"
  shows "plain (delay_remove (Some t) k) = plain k \<and>
    kinv_but {t} (delay_remove (Some t) k) L (remove_wake t W) \<and> t \<notin> fst ` set (remove_wake t W)"
  using leave_delay [OF assms] by (simp add: reshuffled_plain)

interpretation dl: timer delay_insert delay_remove
  by unfold_locales (rule delay_insert_detached delay_insert_waiting delay_remove_law; assumption)+

end
