(* ===== verification/Delay_Tick.thy ===== *)
theory Delay_Tick
  imports Time_Limits
begin

text \<open>
  \<open>DelayList::tick\<close> (task.cpp 155-180): time advances by one tick, every task whose time
  is up leaves the delay list, and its wait list if it was waiting with a time limit, and
  becomes Ready. The loop follows the delay list, so its result is an option.

  On the abstract side one tick takes one from every entry of \<open>W\<close>; the tasks with nothing
  left are woken in list order.
\<close>

subsection \<open>The operation\<close>

text \<open>The body of the loop, for the node \<open>t\<close> at the head.\<close>

definition expire_head :: "tid \<Rightarrow> kernel \<Rightarrow> kernel res" where
  "expire_head t k =
     (let k = k\<lparr>delay_head := delay_next (tcbs k t)\<rparr>;
          k = (case delay_head k of Some h \<Rightarrow> set_delay_prev h None k | None \<Rightarrow> k);
          k = set_delay_next t None k;
          k = set_delay_prev t None k;
          k = upd_tcb t (\<lambda>b. b\<lparr>in_delay_list := False\<rparr>) k
      in andthen
           (case wait_list (tcbs k t) of
              None \<Rightarrow> Inr k
            | Some l \<Rightarrow> andthen (list_remove l (Some t) k) (\<lambda>k.
                let k = upd_tcb t (\<lambda>b. b\<lparr>wait_list := None\<rparr>) k
                in Inr (upd_tcb t (\<lambda>b. b\<lparr>timeout_expired := True\<rparr>) k)))
           (\<lambda>k. rm_add (Some t) (set_state t Ready k)))"

partial_function (option) expire_loop :: "kernel \<Rightarrow> kernel res option" where
  "expire_loop k =
     (case delay_head k of
        None \<Rightarrow> Some (Inr k)
      | Some t \<Rightarrow>
          if delay_ticks (tcbs k t) = 0
          then (case expire_head t k of Inl e \<Rightarrow> Some (Inl e) | Inr k \<Rightarrow> expire_loop k)
          else Some (Inr k))"

definition delay_tick :: "kernel \<Rightarrow> kernel res" where
  "delay_tick k =
     (case delay_head k of
        None \<Rightarrow> Inr k
      | Some h \<Rightarrow>
          let k = (if delay_ticks (tcbs k h) > 0
                   then upd_tcb h (\<lambda>b. b\<lparr>delay_ticks := delay_ticks b - 1\<rparr>) k else k)
          in loop_join (expire_loop k))"

subsection \<open>Specification\<close>

text \<open>What waking a task does to its control block and to the sequences.\<close>

definition woken :: "tcb \<Rightarrow> tcb" where
  "woken b = b\<lparr>state := Ready, wait_list := None,
     timeout_expired := (wait_list b \<noteq> None \<or> timeout_expired b)\<rparr>"

definition waken :: "kernel \<Rightarrow> tid \<Rightarrow> (list_id \<Rightarrow> tid list) \<Rightarrow> list_id \<Rightarrow> tid list" where
  "waken k t L =
     (let L = (case wait_list (tcbs k t) of None \<Rightarrow> L | Some l \<Rightarrow> L(l := remove1 t (L l)));
          p = priority (tcbs k t)
      in L(Ready_List p := L (Ready_List p) @ [t]))"

definition woken_set :: "tid set \<Rightarrow> kernel \<Rightarrow> kernel" where
  "woken_set S k = k\<lparr>tcbs := \<lambda>t. if t \<in> S then woken (tcbs k t) else tcbs k t\<rparr>"

definition one_tick :: "(tid \<times> nat) list \<Rightarrow> (tid \<times> nat) list" where
  "one_tick W = map (\<lambda>(t, n). (t, n - 1)) W"

definition expired :: "(tid \<times> nat) list \<Rightarrow> tid list" where
  "expired W = map fst (filter (\<lambda>w. snd w = 0) W)"

definition pending :: "(tid \<times> nat) list \<Rightarrow> (tid \<times> nat) list" where
  "pending W = filter (\<lambda>w. snd w \<noteq> 0) W"

lemma awake_pending [simp]: "awake_none (pending W)"
  by (auto simp: awake_none_def pending_def)

lemma woken_set_empty [simp]: "woken_set {} k = k"
  by (simp add: woken_set_def)

lemma plain_woken_set [simp]: "plain (woken_set S k) = woken_set S (plain k)"
  by (simp add: plain_def woken_set_def woken_def plain_tcb_def fun_eq_iff)

lemma woken_set_simps [simp]:
  "woken_set S (k\<lparr>primask := b\<rparr>) = (woken_set S k)\<lparr>primask := b\<rparr>"
  "woken_set S (k\<lparr>tick_count := n32\<rparr>) = (woken_set S k)\<lparr>tick_count := n32\<rparr>"
  "primask (woken_set S k) = primask k" "current_task (woken_set S k) = current_task k"
  "tick_count (woken_set S k) = tick_count k"
  by (simp_all add: woken_set_def cong: if_cong)

lemma woken_set_insert:
  "woken_set S (upd_tcb t woken k) = woken_set (insert t S) k" if "t \<notin> S"
  using that by (auto simp: woken_set_def upd_tcb_def fun_eq_iff)

lemma plain_upd_woken [simp]: "plain (upd_tcb t woken k) = upd_tcb t woken (plain k)"
  by (rule plain_upd_tcb) (simp add: woken_def)

lemma upd_woken:
  "wait_list (tcbs k t) = None \<Longrightarrow> upd_tcb t woken k = set_state t Ready k"
  "wait_list (tcbs k t) = Some l \<Longrightarrow> upd_tcb t woken k = set_state t Ready
     (upd_tcb t (\<lambda>b. b\<lparr>timeout_expired := True\<rparr>) (upd_tcb t (\<lambda>b. b\<lparr>wait_list := None\<rparr>) k))"
  by (cases "tcbs k t"; simp add: upd_tcb_def woken_def)+

subsection \<open>The loop body\<close>

text \<open>
  Unlinking the head whose delta is zero is what \<open>DelayList::remove\<close> does to it: the delta
  handed to the successor is zero.
\<close>

lemma expire_unlink:
  assumes wf: "wf_delay k ((t, 0) # W)"
  shows "expire_head t k =
    andthen
      (let k = delay_remove (Some t) k
       in case wait_list (tcbs k t) of
              None \<Rightarrow> Inr k
            | Some l \<Rightarrow> andthen (list_remove l (Some t) k) (\<lambda>k.
                let k = upd_tcb t (\<lambda>b. b\<lparr>wait_list := None\<rparr>) k
                in Inr (upd_tcb t (\<lambda>b. b\<lparr>timeout_expired := True\<rparr>) k)))
      (\<lambda>k. rm_add (Some t) (set_state t Ready k))"
proof -
  have d: "delay_ticks (tcbs k t) = 0" "in_delay_list (tcbs k t)"
    using wf by (auto simp: wf_delay_def unat_eq_zero)
  have pv: "delay_prev (tcbs k t) = None" and nx: "delay_next (tcbs k t) \<noteq> Some t"
    using linked_prev [of _ _ _ _ "[]" t "map fst W"] linked_next [of _ _ _ _ "[]" t "map fst W"]
      wf wf_delay_distinct [OF wf] first_of_in [of "map fst W" t]
    by (auto simp: wf_delay_def delay_linked_def)
  have "delay_remove (Some t) k =
    (let k = k\<lparr>delay_head := delay_next (tcbs k t)\<rparr>;
          k = (case delay_head k of Some h \<Rightarrow> set_delay_prev h None k | None \<Rightarrow> k);
          k = set_delay_next t None k;
          k = set_delay_prev t None k
      in upd_tcb t (\<lambda>b. b\<lparr>in_delay_list := False\<rparr>) k)"
    using d pv nx
    by (cases k) (auto simp: delay_remove_def Let_def upd_tcb_def fun_eq_iff split: option.splits)
  then show ?thesis by (simp only: expire_head_def Let_def)
qed

lemma kinv_but_waiting:
  assumes "kinv_but {} k L W" and "t < ntasks k" and "wait_list (tcbs k t) = Some l"
  shows "\<not> is_ready_list l \<and> t \<in> set (L l)"
  using assms by (auto simp: kinv_but_def dest: task_ok_wait_list)

lemma kinv_but_not_listed:
  assumes inv: "kinv_but {} k L W" and t: "t < ntasks k" "state (tcbs k t) \<noteq> Ready"
    and "wait_list (tcbs k t) = None"
  shows "t \<notin> set (L l)"
proof -
  have "task_ok k L W t" using inv t by (simp add: kinv_but_def)
  then show ?thesis using t assms(4)
    by (cases l) (auto simp: task_ok_ready task_ok_wait)
qed

lemma expire_head_ok:
  assumes inv: "kinv_but {} k L ((t, 0) # W)"
  shows "\<exists>k'. expire_head t k = Inr k' \<and> plain k' = plain (upd_tcb t woken k) \<and>
           kinv_but {} k' (waken k t L) W"
proof -
  have t: "t < ntasks k" by (rule kinv_but_sleeper [OF inv, of t 0]) simp
  note wf = wf_kernelD(3) [OF kinv_but_wf [OF inv]]
  have ok: "task_ok k L ((t, 0) # W) t" using inv t by (simp add: kinv_but_def)
  have st: "state (tcbs k t) = Blocked" using task_ok_blocked [OF ok] by simp
  have rw: "remove_wake t ((t, 0) # W) = W"
    using wf_delay_distinct [OF wf] by (force simp: remove_wake_def filter_id_conv)
  define k1 where "k1 = delay_remove (Some t) k"
  have k1: "plain k1 = plain k" "kinv_but {t} k1 L W" "t \<notin> fst ` set W"
    using dl.stop [OF kinv_but_any [OF inv] t] unfolding k1_def rw by blast+
  then have k1t: "t < ntasks k1" using t by (simp add: ntasks_def plainD(16) [OF k1(1)])
  note f1 = plainD [OF k1(1)]
  let ?m = "case wait_list (tcbs k1 t) of None \<Rightarrow> Inr k1
            | Some l \<Rightarrow> andthen (list_remove l (Some t) k1) (\<lambda>k.
                let k = upd_tcb t (\<lambda>b. b\<lparr>wait_list := None\<rparr>) k
                in Inr (upd_tcb t (\<lambda>b. b\<lparr>timeout_expired := True\<rparr>) k))"
  let ?L = "case wait_list (tcbs k t) of None \<Rightarrow> L | Some l \<Rightarrow> L(l := remove1 t (L l))"
  have "\<exists>k2. ?m = Inr k2 \<and> detached t (set_state t Ready k2) ?L W \<and>
          plain (set_state t Ready k2) = plain (upd_tcb t woken k)"
  proof (cases "wait_list (tcbs k t)")
    case None
    have "detached t k1 L W"
      using k1 k1t kinv_but_not_listed [OF inv t] st None by (intro detachedI) auto
    then show ?thesis using None k1(1) by (auto simp: f1 upd_woken intro!: detached_upd)
  next
    case (Some l)
    have l: "\<not> is_ready_list l" "t \<in> set (L l)" using kinv_but_waiting [OF inv t Some] by auto
    obtain k2 where k2: "list_remove l (Some t) k1 = Inr k2" "plain k2 = plain k1"
      "kinv_but {t} k2 (L(l := remove1 t (L l))) W" "\<forall>l'. t \<notin> set ((L(l := remove1 t (L l))) l')"
      using leave_wait [OF k1(2) k1t l] by (auto simp: reshuffled_plain)
    have "t < ntasks k2" using k1t plainD [OF k2(2)] by (simp add: ntasks_def)
    with k2 k1(3) have "detached t k2 (L(l := remove1 t (L l))) W"
      by (intro detachedI) auto
    then show ?thesis using Some k2(1,2) k1(1) by (auto simp: f1 upd_woken intro!: detached_upd)
  qed
  then obtain k2 where k2: "?m = Inr k2" "detached t (set_state t Ready k2) ?L W"
    "plain (set_state t Ready k2) = plain (upd_tcb t woken k)" by blast
  define k3 where "k3 = set_state t Ready k2"
  have k3: "plain k3 = plain (upd_tcb t woken k)" "detached t k3 ?L W" using k2 by (simp_all add: k3_def)
  note f3 = plainD [OF k3(1)]
  have t3: "state (tcbs k3 t) = Ready" "wait_list (tcbs k3 t) = None"
    "priority (tcbs k3 t) = priority (tcbs k t)" "base_priority (tcbs k3 t) = base_priority (tcbs k t)"
    by (simp_all add: f3 woken_def)
  have "enqueue k3 t ?L = waken k t L" by (simp add: enqueue_def waken_def Let_def t3)
  then obtain k4 where "rm_add (Some t) k3 = Inr k4" "plain k4 = plain k3" "kinv_but {} k4 (waken k t L) W"
    using rq.put [OF k3(2) t3(1,2)] task_ok_priority [OF ok] task_ok_base [OF ok] by (auto simp: t3)
  then show ?thesis
    using k2(1) k3(1) expire_unlink [OF wf] by (auto simp: Let_def k1_def [symmetric] k3_def)
qed

subsection \<open>The loop\<close>

lemma expired_Cons: "expired ((t, n) # W) = (if n = 0 then t # expired W else expired W)"
  by (simp add: expired_def)

lemma pending_Cons: "pending ((t, n) # W) = (if n = 0 then pending W else (t, n) # pending W)"
  by (simp add: pending_def)

lemma expired_late:
  assumes "sorted (map snd W)" and "W \<noteq> []" and "0 < snd (hd W)"
  shows "expired W = []" and "pending W = W"
  using assms by (cases W; fastforce simp: expired_def pending_def filter_empty_conv filter_id_conv)+

lemma fold_waken_cong:
  assumes "\<And>s. s \<in> set ts \<Longrightarrow> wait_list (tcbs k' s) = wait_list (tcbs k s)"
    and "\<And>s. s \<in> set ts \<Longrightarrow> priority (tcbs k' s) = priority (tcbs k s)"
  shows "fold (waken k') ts = fold (waken k) ts"
proof
  fix L show "fold (waken k') ts L = fold (waken k) ts L"
    using assms by (induction ts arbitrary: L) (auto simp: waken_def)
qed

lemma expire_loop_ok:
  assumes "kinv_but {} k L W"
  shows "\<exists>k'. expire_loop k = Some (Inr k') \<and> plain k' = plain (woken_set (set (expired W)) k) \<and>
           kinv_but {} k' (fold (waken k) (expired W) L) (pending W)"
  using assms
proof (induction W arbitrary: k L)
  case Nil
  then have "delay_head k = None" using wf_delay_head [OF wf_kernelD(3) [OF kinv_but_wf]] by fastforce
  then show ?case using Nil by (simp add: expire_loop.simps [of k] expired_def pending_def)
next
  case (Cons w W)
  obtain t n where w: "w = (t, n)" by (cases w)
  note wf = wf_kernelD(3) [OF kinv_but_wf [OF Cons.prems]]
  have hd: "delay_head k = Some t" using wf_delay_head [OF wf] w by simp
  have n: "n = unat (delay_ticks (tcbs k t))" using wf w by (simp add: wf_delay_def)
  show ?case
  proof (cases "n = 0")
    case False
    then have "expired (w # W) = []" "pending (w # W) = w # W"
      using expired_late [OF wf_delay_sorted [OF wf]] w by simp_all
    moreover have "expire_loop k = Some (Inr k)"
      using hd n False by (subst expire_loop.simps) auto
    ultimately show ?thesis using Cons.prems by simp
  next
    case True
    obtain k1 where k1: "expire_head t k = Inr k1" "plain k1 = plain (upd_tcb t woken k)"
      "kinv_but {} k1 (waken k t L) W"
      using expire_head_ok Cons.prems w True by blast
    note f1 = plainD [OF k1(2)]
    obtain k2 where k2: "expire_loop k1 = Some (Inr k2)"
      "plain k2 = plain (woken_set (set (expired W)) k1)"
      "kinv_but {} k2 (fold (waken k1) (expired W) (waken k t L)) (pending W)"
      using Cons.IH [OF k1(3)] by blast
    have "t \<notin> fst ` set W" using wf_delay_distinct [OF wf] w by simp
    then have t: "t \<notin> set (expired W)" by (auto simp: expired_def)
    have "fold (waken k1) (expired W) = fold (waken k) (expired W)"
      using t by (intro fold_waken_cong) (auto simp: f1)
    moreover have "expire_loop k = Some (Inr k2)"
      using hd n True k1(1) k2(1) by (simp add: expire_loop.simps [of k] unat_eq_zero)
    moreover have "plain k2 = plain (woken_set (insert t (set (expired W))) k)"
      using k1(2) k2(2) t by (simp add: woken_set_insert)
    ultimately show ?thesis using k2(3) w True by (simp add: expired_Cons pending_Cons)
  qed
qed

subsection \<open>One tick\<close>

lemma one_tick_simps [simp]:
  "one_tick [] = []" "one_tick ((t, n) # W) = (t, n - 1) # one_tick W"
  "map fst (one_tick W) = map fst W" "fst ` set (one_tick W) = fst ` set W"
  by (simp_all add: one_tick_def image_image case_prod_beta comp_def)

lemma deltas_one_tick: "deltas d acc W \<Longrightarrow> 0 < acc \<Longrightarrow> deltas d (acc - 1) (one_tick W)"
  by (induction d acc W rule: deltas.induct) auto

lemma wf_delay_one_tick:
  assumes wf: "wf_delay k ((h, n) # W)" and n: "0 < n"
  shows "wf_delay (upd_tcb h (\<lambda>b. b\<lparr>delay_ticks := delay_ticks b - 1\<rparr>) k) (one_tick ((h, n) # W))"
proof -
  let ?k = "upd_tcb h (\<lambda>b. b\<lparr>delay_ticks := delay_ticks b - 1\<rparr>) k"
  have d: "n = delta k h" and dl: "deltas (delta k) n W"
    and bd: "\<forall>(t, m) \<in> set ((h, n) # W). m < 2 ^ 32"
    using wf by (auto simp: wf_delay_def)
  have "delta ?k h = n - 1"
    using d n by (simp add: unat_sub_le word_le_nat_alt)
  moreover have "deltas (delta ?k) n W"
    using wf_delay_distinct [OF wf] dl by (subst deltas_cong [where d' = "delta k"]) auto
  moreover have "delay_linked ?k (map fst (one_tick ((h, n) # W)))"
  proof -
    have "delay_linked ?k ts = delay_linked k ts" for ts
      unfolding delay_linked_def by (simp, rule linked_cong; simp)
    then show ?thesis using wf by (simp add: wf_delay_def)
  qed
  moreover have "in_delay_list (tcbs ?k t) \<longleftrightarrow> t \<in> fst ` set (one_tick ((h, n) # W))" for t
    using wf_delay_member [OF wf, of t] by auto
  moreover have "\<forall>(t, m) \<in> set (one_tick ((h, n) # W)). m < 2 ^ 32"
    using bd by (fastforce simp: one_tick_def)
  ultimately show ?thesis using deltas_one_tick n by (simp add: wf_delay_def)
qed

lemma kinv_but_head_tick:
  assumes inv: "kinv_but {} k L ((h, n) # W)" and n: "0 < n"
  shows "kinv_but {} (upd_tcb h (\<lambda>b. b\<lparr>delay_ticks := delay_ticks b - 1\<rparr>) k) L (one_tick ((h, n) # W))"
proof -
  let ?k = "upd_tcb h (\<lambda>b. b\<lparr>delay_ticks := delay_ticks b - 1\<rparr>) k"
  note wf = kinv_but_wf [OF inv]
  have "plain ?k = plain k"
    by (simp add: plain_def plain_tcb_def upd_tcb_def fun_eq_iff)
  moreover have "wf_kernel ?k L (one_tick ((h, n) # W))"
    using wf_delay_one_tick [OF wf_kernelD(3) [OF wf] n] wf_kernelD(1,2) [OF wf]
      wf_lists_cong [of ?k k L] wf_ready_cong [of ?k k L]
    by (simp add: wf_kernel_def del: one_tick_simps(2))
  ultimately show ?thesis
    using kinv_but_sorted [OF inv]
    by (intro kinv_but_reshuffled [OF inv]) (simp_all add: reshuffled_plain)
qed

lemma delay_tick_ok:
  assumes inv: "kinv k L W"
  shows "\<exists>k'. delay_tick k = Inr k' \<and> plain k' = plain (woken_set (set (expired (one_tick W))) k) \<and>
           kinv k' (fold (waken k) (expired (one_tick W)) L) (pending (one_tick W))"
proof (cases W)
  case Nil
  then have "delay_head k = None" using wf_delay_head [OF wf_kernelD(3) [OF kinv_wf [OF inv]]] by simp
  then show ?thesis using Nil inv by (simp add: delay_tick_def expired_def pending_def)
next
  case (Cons w W')
  obtain h n where w: "w = (h, n)" by (cases w)
  have b: "kinv_but {} k L ((h, n) # W')" and n: "0 < n"
    using inv Cons w by (simp_all add: kinv_def awake_none_def)
  note wf = wf_kernelD(3) [OF kinv_but_wf [OF b]]
  have hd: "delay_head k = Some h" and dn: "n = unat (delay_ticks (tcbs k h))"
    using wf_delay_head [OF wf] wf by (simp_all add: wf_delay_def)
  let ?k = "upd_tcb h (\<lambda>b. b\<lparr>delay_ticks := delay_ticks b - 1\<rparr>) k"
  have pl: "plain ?k = plain k"
    by (simp add: plain_def plain_tcb_def upd_tcb_def fun_eq_iff)
  obtain k' where k': "expire_loop ?k = Some (Inr k')"
    "plain k' = plain (woken_set (set (expired (one_tick W))) ?k)"
    "kinv_but {} k' (fold (waken ?k) (expired (one_tick W)) L) (pending (one_tick W))"
    using expire_loop_ok [OF kinv_but_head_tick [OF b n]] Cons w by blast
  have "delay_tick k = Inr k'"
    using hd dn n k'(1) by (simp add: delay_tick_def word_less_nat_alt)
  moreover have "fold (waken ?k) (expired (one_tick W)) = fold (waken k) (expired (one_tick W))"
    by (rule fold_waken_cong) auto
  moreover have "plain k' = plain (woken_set (set (expired (one_tick W))) k)"
    using k'(2) pl by simp
  ultimately show ?thesis using k'(3) by (simp add: kinv_def)
qed

end
