(* ===== verification/Scheduler.thy ===== *)
theory Scheduler
  imports Delay_Tick
begin

text \<open>
  The scheduler (scheduler.hpp 62-206, scheduler.cpp): creation, suspension, deletion and
  priority of tasks, sleeping, the tick, and the choice of the next task. Every method is
  written with its guards, its critical section and its request for a context switch.

  A \<open>noexcept\<close> method that takes a \<open>TaskControlBlock*\<close> takes a \<open>tptr\<close> here, so that its
  null checks, and the places where it has none, are part of the model.
\<close>

subsection \<open>Creating tasks\<close>

definition add_to_ready_queue :: "tptr \<Rightarrow> kernel \<Rightarrow> kernel res" where
  "add_to_ready_queue tcb =
     critical_u (\<lambda>k. deref tcb (\<lambda>t. rm_add (Some t) (set_state t Ready k)))"

definition allocate_tcb :: "kernel \<Rightarrow> (tptr \<times> kernel) res" where
  "allocate_tcb =
     critical (\<lambda>k.
       if unat (task_count k) \<ge> kMaxTasks then Inr (None, k)
       else
         let t = unat (task_count k);
             k = k\<lparr>task_count := task_count k + 1\<rparr>;
             k = set_state t Suspended k;
             k = upd_tcb t (\<lambda>b. b\<lparr>wait_list := None\<rparr>) k;
             k = set_prev t None k;
             k = set_next t None k
         in Inr (Some t, k))"

text \<open>Whether a task made ready is to preempt the running one.\<close>

definition outranks_current :: "tid \<Rightarrow> kernel \<Rightarrow> bool" where
  "outranks_current t k \<longleftrightarrow>
     started k \<and>
     (case current_task k of None \<Rightarrow> False | Some c \<Rightarrow> priority (tcbs k t) > priority (tcbs k c))"

definition create_task_impl ::
  "addr \<Rightarrow> nat \<Rightarrow> addr \<Rightarrow> addr \<Rightarrow> prio \<Rightarrow> kernel \<Rightarrow> (tptr \<times> kernel) res" where
  "create_task_impl stack_buf stack_words trampoline callable_ptr prio k =
     acr_assert k (unat prio < kMaxPriorities)
      (if unat prio \<ge> kMaxPriorities then Inr (None, k)
       else
         andthen (allocate_tcb k) (\<lambda>(tcb, k).
           acr_assert k (tcb \<noteq> None)
            (case tcb of
               None \<Rightarrow> Inr (None, k)
             | Some t \<Rightarrow>
                 let k = upd_tcb t (\<lambda>b. b\<lparr>stack_base := stack_buf\<rparr>) k;
                     k = upd_tcb t (\<lambda>b. b\<lparr>stack_end := stack_buf + 4 * stack_words\<rparr>) k;
                     k = k\<lparr>mem := store32 stack_buf kStackCanary (mem k)\<rparr>;
                     (s, m) = init_task_stack callable_ptr trampoline callable_ptr (mem k);
                     k = k\<lparr>mem := m\<rparr>;
                     k = upd_tcb t (\<lambda>b. b\<lparr>sp := s\<rparr>) k;
                     k = upd_tcb t (\<lambda>b. b\<lparr>priority := prio\<rparr>) k;
                     k = upd_tcb t (\<lambda>b. b\<lparr>base_priority := prio\<rparr>) k
                 in andthen (add_to_ready_queue (Some t) k) (\<lambda>k.
                      Inr (Some t, if outranks_current t k then task_yield k else k)))))"

text \<open>
  The template \<open>create_task\<close>, for a call site with its own \<open>is_created\<close> flag and stack
  buffer. The callable is application code: its size and the effect of moving it into
  place (\<open>construct\<close>, the placement new) are parameters.
\<close>

definition callable_slot :: "addr \<Rightarrow> nat \<Rightarrow> nat \<Rightarrow> addr" where
  "callable_slot storage_addr words obj_size =
     (let stack_bytes = storage_addr + 4 * words;
          stack_bytes = stack_bytes - obj_size;
          align_offset = stack_bytes mod 8
      in stack_bytes - align_offset)"

definition create_task ::
  "nat \<Rightarrow> addr \<Rightarrow> nat \<Rightarrow> nat \<Rightarrow> (addr \<Rightarrow> (addr \<Rightarrow> 8 word) \<Rightarrow> addr \<Rightarrow> 8 word) \<Rightarrow> addr \<Rightarrow> prio \<Rightarrow>
   kernel \<Rightarrow> (tptr \<times> kernel) res" where
  "create_task site storage_addr words obj_size construct trampoline prio k =
     acr_assert k (\<not> site_created k site)
      (if site_created k site then Inr (None, k)
       else
         let k = k\<lparr>site_created := (site_created k)(site := True)\<rparr>;
             slot = callable_slot storage_addr words obj_size;
             k = k\<lparr>mem := construct slot (mem k)\<rparr>
         in create_task_impl storage_addr words trampoline slot prio k)"

subsection \<open>Time\<close>

definition get_tick_count :: "kernel \<Rightarrow> (tick \<times> kernel) res" where
  "get_tick_count = critical (\<lambda>k. Inr (tick_count k, k))"

definition delay_until :: "tick \<Rightarrow> kernel \<Rightarrow> kernel res" where
  "delay_until wake_time k =
     (case current_task k of
        None \<Rightarrow> Inr k
      | Some t \<Rightarrow>
          andthen
            (critical (\<lambda>k.
               andthen (get_tick_count k) (\<lambda>(now, k).
                 let remaining = wake_time - now
                 in if sint remaining \<le> 0 then Inr (False, k)
                    else
                      andthen (delay_insert (Some t) remaining (set_state t Blocked k)) (\<lambda>k.
                        Inr (True, k)))) k)
            (\<lambda>(blocked, k). Inr (if blocked then task_yield k else k)))"

definition delay_ms :: "tick \<Rightarrow> kernel \<Rightarrow> kernel res" where
  "delay_ms ms k =
     (let ticks = ms_to_ticks ms
      in if ticks = 0 then Inr k
         else case current_task k of
             None \<Rightarrow> Inr k
           | Some t \<Rightarrow>
               andthen
                 (critical_u (\<lambda>k. delay_insert (Some t) ticks (set_state t Blocked k)) k)
                 (\<lambda>k. Inr (task_yield k)))"

definition needs_preemption :: "kernel \<Rightarrow> bool res" where
  "needs_preemption k =
     (case current_task k of
        None \<Rightarrow> Inr (\<not> rm_is_empty k)
      | Some t \<Rightarrow>
          if rm_is_empty k then Inr False
          else andthen (peek_highest_priority k) (\<lambda>top_prio.
                 Inr (top_prio \<ge> priority (tcbs k t))))"

text \<open>\<open>Scheduler::tick\<close>, and the interrupt handler that calls it.\<close>

definition sched_tick :: "kernel \<Rightarrow> kernel res" where
  "sched_tick k =
     andthen
       (critical (\<lambda>k.
          andthen (delay_tick (k\<lparr>tick_count := tick_count k + 1\<rparr>)) (\<lambda>k.
            andthen (needs_preemption k) (\<lambda>need_switch. Inr (need_switch, k)))) k)
       (\<lambda>(need_switch, k). Inr (if need_switch then task_yield k else k))"

definition rtos_tick_handler :: "kernel \<Rightarrow> kernel res" where
  "rtos_tick_handler = sched_tick"

text \<open>
  \<open>acrtos_tick_hook\<close> is a weak symbol the application may replace, so it is a parameter;
  the default does nothing.
\<close>

definition acrtos_tick_hook :: "kernel \<Rightarrow> kernel res" where
  "acrtos_tick_hook k = Inr k"

definition SysTick_Handler :: "(kernel \<Rightarrow> kernel res) \<Rightarrow> kernel \<Rightarrow> kernel res" where
  "SysTick_Handler tick_hook k = andthen (rtos_tick_handler k) tick_hook"

text \<open>
  \<open>start\<close> does not return. The result is the state in which the processor goes on: waiting
  for interrupts for ever when it was called twice, and waiting for the first PendSV
  otherwise. The idle task's buffer and trampoline are laid out by the linker.
\<close>

definition start ::
  "nat \<Rightarrow> addr \<Rightarrow> (addr \<Rightarrow> (addr \<Rightarrow> 8 word) \<Rightarrow> addr \<Rightarrow> 8 word) \<Rightarrow> addr \<Rightarrow> kernel \<Rightarrow> kernel res" where
  "start idle_site idle_storage idle_construct idle_trampoline k =
     acr_assert k (\<not> started k)
      (if started k then Inr k
       else
         andthen (create_task idle_site idle_storage kStackSize 1 idle_construct idle_trampoline 0 k)
           (\<lambda>(idle, k).
             acr_assert k (idle \<noteq> None)
              (start_hardware_and_yield (k\<lparr>started := True\<rparr>))))"

definition get_current_task :: "kernel \<Rightarrow> tptr" where
  "get_current_task k = current_task k"

definition set_current_task :: "tptr \<Rightarrow> kernel \<Rightarrow> kernel" where
  "set_current_task task k = k\<lparr>current_task := task\<rparr>"

subsection \<open>Suspending, resuming, deleting\<close>

text \<open>The part of \<open>suspend_task\<close> and \<open>delete_task\<close> for a blocked task.\<close>

definition unlink_blocked :: "tid \<Rightarrow> kernel \<Rightarrow> kernel res" where
  "unlink_blocked t k =
     andthen
       (case wait_list (tcbs k t) of
          None \<Rightarrow> Inr k
        | Some l \<Rightarrow> andthen (list_remove l (Some t) k) (\<lambda>k.
            let k = upd_tcb t (\<lambda>b. b\<lparr>wait_list := None\<rparr>) k
            in Inr (upd_tcb t (\<lambda>b. b\<lparr>timeout_expired := True\<rparr>) k)))
       (\<lambda>k. Inr (delay_remove (Some t) k))"

definition suspend_task :: "tptr \<Rightarrow> kernel \<Rightarrow> kernel res" where
  "suspend_task task k =
     (case task of
        None \<Rightarrow> Inr k
      | Some t \<Rightarrow>
          if state (tcbs k t) = Deleted then Inr k
          else
            andthen
              (critical (\<lambda>k.
                 if state (tcbs k t) = Suspended then Inr (False, k)
                 else
                   andthen
                     (if state (tcbs k t) = Ready then rm_remove (Some t) k
                      else if state (tcbs k t) = Blocked then unlink_blocked t k
                      else Inr k)
                     (\<lambda>k. Inr (current_task k = Some t \<and> started k, set_state t Suspended k))) k)
              (\<lambda>(yield_self, k). Inr (if yield_self then task_yield k else k)))"

definition make_task_ready :: "tptr \<Rightarrow> kernel \<Rightarrow> (bool \<times> kernel) res" where
  "make_task_ready task k =
     (case task of
        None \<Rightarrow> Inr (False, k)
      | Some t \<Rightarrow>
          if state (tcbs k t) = Deleted then Inr (False, k)
          else
            let k = set_state t Ready k;
                k = upd_tcb t (\<lambda>b. b\<lparr>wait_list := None\<rparr>) k
            in andthen (rm_add (Some t) k) (\<lambda>k. Inr (outranks_current t k, k)))"

definition resume_task :: "tptr \<Rightarrow> kernel \<Rightarrow> kernel res" where
  "resume_task task k =
     (case task of
        None \<Rightarrow> Inr k
      | Some t \<Rightarrow>
          acr_assert k (\<not> in_delay_list (tcbs k t))
           (andthen
              (critical (\<lambda>k.
                 if state (tcbs k t) \<noteq> Suspended then Inr (False, k)
                 else andthen (rm_add (Some t) (set_state t Ready k)) (\<lambda>k.
                        Inr (outranks_current t k, k))) k)
              (\<lambda>(should_preempt, k). Inr (if should_preempt then task_yield k else k))))"

definition delete_task :: "tptr \<Rightarrow> kernel \<Rightarrow> kernel res" where
  "delete_task task k =
     (case task of
        None \<Rightarrow> Inr k
      | Some t \<Rightarrow>
          if state (tcbs k t) = Deleted then Inr k
          else
            andthen
              (critical (\<lambda>k.
                 andthen (if state (tcbs k t) = Ready then rm_remove (Some t) k else Inr k) (\<lambda>k.
                 andthen (if state (tcbs k t) = Blocked then unlink_blocked t k else Inr k) (\<lambda>k.
                 Inr (current_task k = Some t \<and> started k, set_state t Deleted k)))) k)
              (\<lambda>(yield_self, k). Inr (if yield_self then task_yield k else k)))"

text \<open>What the trampoline of a task does when its callable returns.\<close>

definition trampoline_exit :: "kernel \<Rightarrow> kernel res" where
  "trampoline_exit k = delete_task (current_task k) k"

subsection \<open>Priorities and time limits\<close>

definition set_task_priority :: "tptr \<Rightarrow> prio \<Rightarrow> kernel \<Rightarrow> kernel res" where
  "set_task_priority task p k =
     acr_assert k (task \<noteq> None \<and> unat p < kMaxPriorities)
      (critical_u (\<lambda>k. deref task (\<lambda>t.
         if priority (tcbs k t) = p then Inr k
         else if state (tcbs k t) = Ready then
           andthen (rm_remove (Some t) k) (\<lambda>k.
             rm_add (Some t) (upd_tcb t (\<lambda>b. b\<lparr>priority := p\<rparr>) k))
         else
           let k = upd_tcb t (\<lambda>b. b\<lparr>priority := p\<rparr>) k
           in if state (tcbs k t) = Blocked
              then (case wait_list (tcbs k t) of
                      None \<Rightarrow> Inr k
                    | Some l \<Rightarrow> andthen (list_remove l (Some t) k) (\<lambda>k.
                        insert_by_priority l (Some t) k))
              else Inr k)) k)"

definition cancel_timeout :: "tptr \<Rightarrow> kernel \<Rightarrow> kernel res" where
  "cancel_timeout task k =
     (case task of
        None \<Rightarrow> Inr k
      | Some t \<Rightarrow> critical_u (\<lambda>k. Inr (delay_remove (Some t) k)) k)"

definition start_timeout_for_current_task :: "tick \<Rightarrow> kernel \<Rightarrow> kernel res" where
  "start_timeout_for_current_task ticks k = delay_insert (current_task k) ticks k"

subsection \<open>The context switch\<close>

text \<open>The body of PendSV, called with the stack pointer of the running task in \<open>current_sp\<close>.\<close>

definition schedule_next_task :: "kernel \<Rightarrow> kernel res" where
  "schedule_next_task k =
     andthen
       (case current_task k of
          None \<Rightarrow> Inr k
        | Some t \<Rightarrow>
            acr_assert k (load32 (stack_base (tcbs k t)) (mem k) = kStackCanary)
             (let k = upd_tcb t (\<lambda>b. b\<lparr>sp := current_sp k\<rparr>) k
              in if state (tcbs k t) = Running
                 then rm_add (Some t) (set_state t Ready k) else Inr k))
       (\<lambda>k. andthen (get_highest_priority_task k) (\<lambda>(next_task, k).
          acr_assert k (next_task \<noteq> None)
           (case next_task of
              None \<Rightarrow> Inr k
            | Some n \<Rightarrow>
                let k = set_state n Running k;
                    k = k\<lparr>current_task := Some n\<rparr>
                in Inr (k\<lparr>current_sp := sp (tcbs k n)\<rparr>))))"

subsection \<open>Task handles\<close>

definition task_suspend :: "tptr \<Rightarrow> kernel \<Rightarrow> kernel res" where
  "task_suspend tcb k = (case tcb of None \<Rightarrow> Inr k | Some t \<Rightarrow> suspend_task (Some t) k)"

definition task_resume :: "tptr \<Rightarrow> kernel \<Rightarrow> kernel res" where
  "task_resume tcb k = (case tcb of None \<Rightarrow> Inr k | Some t \<Rightarrow> resume_task (Some t) k)"

definition task_terminate :: "tptr \<Rightarrow> kernel \<Rightarrow> kernel res" where
  "task_terminate tcb k = (case tcb of None \<Rightarrow> Inr k | Some t \<Rightarrow> delete_task (Some t) k)"

definition task_get_state :: "tptr \<Rightarrow> kernel \<Rightarrow> task_state" where
  "task_get_state tcb k = (case tcb of None \<Rightarrow> Suspended | Some t \<Rightarrow> state (tcbs k t))"

definition task_get_priority :: "tptr \<Rightarrow> kernel \<Rightarrow> prio" where
  "task_get_priority tcb k = (case tcb of None \<Rightarrow> 0 | Some t \<Rightarrow> priority (tcbs k t))"

definition task_is_valid :: "tptr \<Rightarrow> bool" where
  "task_is_valid tcb \<longleftrightarrow> tcb \<noteq> None"

end
