(* ===== verification/Scheduler_Ops.thy ===== *)
theory Scheduler_Ops
  imports Scheduler
begin

text \<open>
  What the scheduler's methods do. For every method and every state of its argument: it
  returns without a fault, it preserves the invariant \<open>kinv\<close>, the sequences become the
  stated ones, and \<open>plain\<close> lists every store it makes to anything else. A method called
  in the wrong state does nothing, and the lemmas say so.
\<close>

subsection \<open>Leaving all lists\<close>

text \<open>The store a task gets when it is taken off a wait list before its wait is over.\<close>

definition unwaited :: "tcb \<Rightarrow> tcb" where
  "unwaited b = b\<lparr>wait_list := None,
     timeout_expired := (wait_list b \<noteq> None \<or> timeout_expired b)\<rparr>"

lemma unwaited_none: "wait_list b = None \<Longrightarrow> unwaited b = b"
  by (cases b) (simp add: unwaited_def)

lemma unwaited_simps [simp]:
  "state (unwaited b) = state b" "priority (unwaited b) = priority b"
  "base_priority (unwaited b) = base_priority b" "wait_list (unwaited b) = None"
  "plain_tcb (unwaited b) = unwaited (plain_tcb b)"
  by (simp_all add: unwaited_def)

lemma plain_upd_unwaited [simp]: "plain (upd_tcb t unwaited k) = upd_tcb t unwaited (plain k)"
  by (rule plain_upd_tcb) simp

lemma upd_unwaited:
  "wait_list (tcbs k t) = None \<Longrightarrow> upd_tcb t unwaited k = k"
  "wait_list (tcbs k t) = Some l \<Longrightarrow> upd_tcb t unwaited k =
     upd_tcb t (\<lambda>b. b\<lparr>timeout_expired := True\<rparr>) (upd_tcb t (\<lambda>b. b\<lparr>wait_list := None\<rparr>) k)"
  by (cases k; simp add: upd_tcb_def unwaited_none; simp add: unwaited_def)+

lemma unlink_ready_ok:
  assumes inv: "kinv k L W" and t: "t < ntasks k" "state (tcbs k t) = Ready"
  shows "\<exists>k'. rm_remove (Some t) k = Inr k' \<and> plain k' = plain k \<and>
           detached t k' (without t L) (remove_wake t W)"
proof -
  have "t \<notin> fst ` set W" using task_ok_blocked [OF kinv_task [OF inv t(1)]] t(2) by auto
  then show ?thesis using rq.take [of k L W t] inv t by (simp add: kinv_def remove_wake_fresh)
qed

lemma unlink_blocked_ok:
  assumes inv: "kinv k L W" and t: "t < ntasks k" "state (tcbs k t) = Blocked"
  shows "\<exists>k'. unlink_blocked t k = Inr k' \<and> plain k' = plain (upd_tcb t unwaited k) \<and>
           detached t k' (without t L) (remove_wake t W)"
proof -
  have b: "kinv_but {} k L W" using inv by (simp add: kinv_def)
  let ?m = "case wait_list (tcbs k t) of
          None \<Rightarrow> Inr k
        | Some l \<Rightarrow> andthen (list_remove l (Some t) k) (\<lambda>k.
            let k = upd_tcb t (\<lambda>b. b\<lparr>wait_list := None\<rparr>) k
            in Inr (upd_tcb t (\<lambda>b. b\<lparr>timeout_expired := True\<rparr>) k))"
  have "\<exists>k1. ?m = Inr k1 \<and> plain k1 = plain (upd_tcb t unwaited k) \<and>
          kinv_but {t} k1 (without t L) W \<and> (\<forall>l. t \<notin> set (without t L l))"
  proof (cases "wait_list (tcbs k t)")
    case None
    have "t \<notin> set (L l)" for l using kinv_but_not_listed [OF b t(1)] t(2) None by simp
    moreover from this have "without t L = L" by (rule without_fresh)
    ultimately show ?thesis using None b by (simp add: kinv_but_any upd_unwaited)
  next
    case (Some l)
    let ?L = "L(l := remove1 t (L l))"
    have l: "\<not> is_ready_list l" "t \<in> set (L l)" using kinv_but_waiting [OF b t(1) Some] by auto
    obtain k1 where k1: "list_remove l (Some t) k = Inr k1" "plain k1 = plain k"
      "kinv_but {t} k1 ?L W" "\<forall>l'. t \<notin> set (?L l')"
      using leave_wait [OF kinv_but_any [OF b] t(1) l] by (auto simp: reshuffled_plain)
    have L: "?L = without t L" using k1(4) by (intro without_one) blast
    have "kinv_but {t} (upd_tcb t (\<lambda>b. b\<lparr>wait_list := None\<rparr>) k1) ?L W"
      using k1(4) by (intro kinv_but_upd [OF k1(3)]) simp_all
    then show ?thesis using k1(1,2,4) Some unfolding L by (simp add: upd_unwaited Let_def)
  qed
  then obtain k1 where k1: "?m = Inr k1" "plain k1 = plain (upd_tcb t unwaited k)"
    "kinv_but {t} k1 (without t L) W" "\<forall>l. t \<notin> set (without t L l)" by blast
  have n1: "t < ntasks k1" using t plainD [OF k1(2)] by (simp add: ntasks_def)
  show ?thesis using k1(1,2) dl.cut [OF k1(3) n1 k1(4)] by (auto simp: unlink_blocked_def)
qed

text \<open>A task that has left its wait list loses its time limit too.\<close>

lemma cancel_timeout_ok:
  assumes "kinv_but {t} k L W" and "t < ntasks k" and "\<forall>l. t \<notin> set (L l)"
  shows "\<exists>k'. cancel_timeout (Some t) k = Inr k' \<and> plain k' = plain k \<and> detached t k' L (remove_wake t W)"
proof -
  let ?k = "k\<lparr>primask := True\<rparr>" and ?k' = "(delay_remove (Some t) (k\<lparr>primask := True\<rparr>))\<lparr>primask := primask k\<rparr>"
  have c: "plain (delay_remove (Some t) ?k) = plain ?k"
    "detached t (delay_remove (Some t) ?k) L (remove_wake t W)"
    using dl.cut [of t ?k L W] assms by simp_all
  have "cancel_timeout (Some t) k = Inr ?k'"
    by (simp add: cancel_timeout_def critical_u_def enter_critical_def exit_critical_def)
  moreover have "plain ?k' = plain k" using c(1) by simp
  ultimately show ?thesis using c(2) by (intro exI [of _ ?k']) simp
qed

text \<open>The unlinking step of both methods, for a task in any state.\<close>

lemma unlink_any_ok:
  assumes inv: "kinv k L W" and t: "t < ntasks k"
  shows "\<exists>k'. (if state (tcbs k t) = Ready then rm_remove (Some t) k
               else if state (tcbs k t) = Blocked then unlink_blocked t k
               else Inr k) = Inr k' \<and>
           plain k' = plain (upd_tcb t unwaited k) \<and>
           detached t k' (without t L) (remove_wake t W)"
proof -
  have ok: "task_ok k L W t" by (rule kinv_task [OF inv t])
  have w: "wait_list (tcbs k t) = None" if "state (tcbs k t) \<noteq> Blocked"
    using task_ok_blocked [OF ok] that by blast
  consider "state (tcbs k t) = Ready" | "state (tcbs k t) = Blocked"
    | "state (tcbs k t) \<noteq> Ready" "state (tcbs k t) \<noteq> Blocked" by blast
  then show ?thesis
  proof cases
    case 1
    then show ?thesis using unlink_ready_ok [OF inv t 1] w by (simp add: upd_unwaited)
  next
    case 2
    then show ?thesis using unlink_blocked_ok [OF inv t 2] by simp
  next
    case 3
    have d: "detached t k L W" using inv by (intro detach_resting t 3) (simp add: kinv_def)
    then have "without t L = L" "remove_wake t W = W"
      using without_fresh [of t L] remove_wake_fresh [of t W] detachedD(3,4) [OF d] by auto
    then show ?thesis using 3 d w by (simp add: upd_unwaited)
  qed
qed

text \<open>A task that has left all lists comes to rest.\<close>

lemma rest_ok:
  assumes inv: "kinv k L W" and t: "t < ntasks k"
    and k1: "plain k1 = plain (upd_tcb t unwaited k)" "detached t k1 (without t L) (remove_wake t W)"
    and s: "s = Suspended \<or> s = Deleted"
  shows "kinv (set_state t s k1) (without t L) (remove_wake t W)"
proof -
  note f1 = plainD [OF k1(1)]
  have ok: "task_ok k L W t" by (rule kinv_task [OF inv t])
  have "detached t (set_state t s k1) (without t L) (remove_wake t W)"
    using k1(2) by (rule detached_upd) simp
  then have "kinv_but {} (set_state t s k1) (without t L) (remove_wake t W)"
    using s task_ok_priority [OF ok] task_ok_base [OF ok]
    by (intro attach_resting [where t = t]) (auto simp: f1)
  then show ?thesis using awake_none_remove [OF kinv_awake [OF inv]] by (simp add: kinv_def)
qed

lemma suspend_task_ok:
  assumes inv: "kinv k L W" and t: "t < ntasks k"
    and st: "state (tcbs k t) \<noteq> Suspended" "state (tcbs k t) \<noteq> Deleted"
  shows "\<exists>k'. suspend_task (Some t) k = Inr k' \<and>
           plain k' = plain (yield_if (current_task k = Some t \<and> started k)
             (upd_tcb t (\<lambda>b. (unwaited b)\<lparr>state := Suspended\<rparr>) k)) \<and>
           kinv k' (without t L) (remove_wake t W)"
proof -
  let ?k = "k\<lparr>primask := True\<rparr>"
  have inv': "kinv ?k L W" using inv by simp
  obtain k1 where k1: "(if state (tcbs ?k t) = Ready then rm_remove (Some t) ?k
               else if state (tcbs ?k t) = Blocked then unlink_blocked t ?k
               else Inr ?k) = Inr k1"
    "plain k1 = plain (upd_tcb t unwaited ?k)" "detached t k1 (without t L) (remove_wake t W)"
    using unlink_any_ok [OF inv', of t] t by auto
  note f1 = plainD [OF k1(2)]
  let ?k2 = "(set_state t Suspended k1)\<lparr>primask := primask k\<rparr>"
  let ?k3 = "yield_if (current_task k = Some t \<and> started k) ?k2"
  have "suspend_task (Some t) k = Inr ?k3"
    using st k1(1)
    by (simp add: suspend_task_def critical_def enter_critical_def exit_critical_def f1 yield_if_def)
  moreover have "kinv ?k3 (without t L) (remove_wake t W)"
    using rest_ok [OF inv' _ k1(2,3)] t by simp
  moreover have "plain ?k3 = plain (yield_if (current_task k = Some t \<and> started k)
      (upd_tcb t (\<lambda>b. (unwaited b)\<lparr>state := Suspended\<rparr>) k))"
    using k1(2) by (simp add: plain_upd_tcb upd_tcb_twice)
  ultimately show ?thesis by blast
qed

lemma suspend_task_idle:
  "state (tcbs k t) = Suspended \<or> state (tcbs k t) = Deleted \<Longrightarrow> suspend_task (Some t) k = Inr k"
  by (auto simp: suspend_task_def critical_def enter_critical_def exit_critical_def)

lemma delete_task_ok:
  assumes inv: "kinv k L W" and t: "t < ntasks k" and st: "state (tcbs k t) \<noteq> Deleted"
  shows "\<exists>k'. delete_task (Some t) k = Inr k' \<and>
           plain k' = plain (yield_if (current_task k = Some t \<and> started k)
             (upd_tcb t (\<lambda>b. (unwaited b)\<lparr>state := Deleted\<rparr>) k)) \<and>
           kinv k' (without t L) (remove_wake t W)"
proof -
  let ?k = "k\<lparr>primask := True\<rparr>"
  have inv': "kinv ?k L W" using inv by simp
  obtain k1 where k1: "(if state (tcbs ?k t) = Ready then rm_remove (Some t) ?k
               else if state (tcbs ?k t) = Blocked then unlink_blocked t ?k
               else Inr ?k) = Inr k1"
    "plain k1 = plain (upd_tcb t unwaited ?k)" "detached t k1 (without t L) (remove_wake t W)"
    using unlink_any_ok [OF inv', of t] t by auto
  note f1 = plainD [OF k1(2)]
  have "andthen (if state (tcbs ?k t) = Ready then rm_remove (Some t) ?k else Inr ?k) (\<lambda>k.
          if state (tcbs k t) = Blocked then unlink_blocked t k else Inr k) = Inr k1"
    using k1(1) f1(2) by (auto split: if_splits)
  then have run: "andthen (if state (tcbs ?k t) = Ready then rm_remove (Some t) ?k else Inr ?k) (\<lambda>k.
      andthen (if state (tcbs k t) = Blocked then unlink_blocked t k else Inr k) f) = f k1" for f :: "_ \<Rightarrow> 'x res"
    by (simp add: andthen_assoc [symmetric])
  let ?k2 = "(set_state t Deleted k1)\<lparr>primask := primask k\<rparr>"
  let ?k3 = "yield_if (current_task k = Some t \<and> started k) ?k2"
  have "critical (\<lambda>k.
      andthen (if state (tcbs k t) = Ready then rm_remove (Some t) k else Inr k) (\<lambda>k.
      andthen (if state (tcbs k t) = Blocked then unlink_blocked t k else Inr k) (\<lambda>k.
      Inr (current_task k = Some t \<and> started k, set_state t Deleted k)))) k
    = Inr (current_task k = Some t \<and> started k, ?k2)"
    by (rule critical_Inr) (unfold run, simp add: f1)
  then have "delete_task (Some t) k = Inr ?k3"
    using st by (simp add: delete_task_def yield_if_def)
  moreover have "kinv ?k3 (without t L) (remove_wake t W)"
    using rest_ok [OF inv' _ k1(2,3)] t by simp
  moreover have "plain ?k3 = plain (yield_if (current_task k = Some t \<and> started k)
      (upd_tcb t (\<lambda>b. (unwaited b)\<lparr>state := Deleted\<rparr>) k))"
    using k1(2) by (simp add: plain_upd_tcb upd_tcb_twice)
  ultimately show ?thesis by blast
qed

lemma delete_task_twice: "state (tcbs k t) = Deleted \<Longrightarrow> delete_task (Some t) k = Inr k"
  by (simp add: delete_task_def)

subsection \<open>Becoming ready\<close>

lemma outranks_cong:
  assumes "\<And>s. priority (tcbs k' s) = priority (tcbs k s)" and "started k' = started k"
    and "current_task k' = current_task k"
  shows "outranks_current t k' = outranks_current t k"
  using assms by (auto simp: outranks_current_def split: option.splits)

lemma make_task_ready_ok:
  assumes d: "detached t k L W" and aw: "awake_none W" and st: "state (tcbs k t) \<noteq> Deleted"
    and p: "priority (tcbs k t) < 32" "base_priority (tcbs k t) \<le> priority (tcbs k t)"
  shows "\<exists>k'. make_task_ready (Some t) k = Inr (outranks_current t k, k') \<and>
           plain k' = plain (upd_tcb t (\<lambda>b. b\<lparr>state := Ready, wait_list := None\<rparr>) k) \<and>
           kinv k' (enqueue k t L) W"
proof -
  let ?k = "upd_tcb t (\<lambda>b. b\<lparr>wait_list := None\<rparr>) (set_state t Ready k)"
  have "detached t ?k L W" by (intro detached_upd d) simp_all
  from rq.put [OF this] p obtain k' where k': "rm_add (Some t) ?k = Inr k'"
    "plain k' = plain ?k" "kinv_but {} k' (enqueue k t L) W"
    using enqueue_cong [of ?k t k L] by auto
  note f = plainD [OF k'(2)]
  have "outranks_current t k' = outranks_current t k"
    by (auto simp: outranks_current_def f split: option.splits)
  moreover have "plain k' = plain (upd_tcb t (\<lambda>b. b\<lparr>state := Ready, wait_list := None\<rparr>) k)"
    using k'(2) by (simp add: plain_upd_tcb upd_tcb_twice)
  ultimately show ?thesis using k' st aw by (auto simp: make_task_ready_def kinv_def Let_def)
qed

lemma resume_task_ok:
  assumes inv: "kinv k L W" and t: "t < ntasks k" and st: "state (tcbs k t) = Suspended"
  shows "\<exists>k'. resume_task (Some t) k = Inr k' \<and>
           plain k' = plain (yield_if (outranks_current t k) (set_state t Ready k)) \<and>
           kinv k' (enqueue k t L) W"
proof -
  let ?k = "set_state t Ready (k\<lparr>primask := True\<rparr>)"
  have inv': "kinv (k\<lparr>primask := True\<rparr>) L W" using inv by simp
  have w: "wait_list (tcbs k t) = None" "\<not> in_delay_list (tcbs k t)"
    using task_ok_blocked [OF kinv_task [OF inv t]] st wf_kernel_in_delay [OF kinv_wf [OF inv]] by auto
  obtain k' where k': "rm_add (Some t) ?k = Inr k'" "plain k' = plain ?k"
    "kinv k' (enqueue k t L) W"
    using rq.readmit [OF inv', of t] t st by (auto simp: enqueue_def)
  note f = plainD [OF k'(2)]
  have o: "outranks_current t k' = outranks_current t k"
    by (auto simp: outranks_current_def f split: option.splits)
  let ?k' = "yield_if (outranks_current t k) (k'\<lparr>primask := primask k\<rparr>)"
  have "resume_task (Some t) k = Inr ?k'"
    using st w k'(1) o
    by (simp add: resume_task_def critical_def enter_critical_def exit_critical_def yield_if_def)
  moreover have "plain ?k' = plain (yield_if (outranks_current t k) (set_state t Ready k))"
    using k'(2) by simp
  moreover have "kinv ?k' (enqueue k t L) W" using k'(3) by simp
  ultimately show ?thesis by blast
qed

text \<open>Other states: nothing happens, unless the task sleeps; then the assertion fires first.\<close>

lemma resume_task_other:
  assumes "state (tcbs k t) \<noteq> Suspended"
  shows "resume_task (Some t) k =
    (if use_assert k \<and> in_delay_list (tcbs k t) then Inl AssertFailed else Inr k)"
  using assms by (simp add: resume_task_def acr_assert_def critical_def enter_critical_def exit_critical_def)

subsection \<open>Sleeping\<close>

lemma delay_ms_ok:
  assumes inv: "kinv k L W" and t: "current_task k = Some t" "state (tcbs k t) = Running"
    and ms: "ms \<noteq> 0"
  shows "\<exists>k'. delay_ms ms k = Inr k' \<and> plain k' = plain (task_yield (set_state t Blocked k)) \<and>
           kinv k' L (insert_wake t (unat ms) W)"
proof -
  let ?k = "k\<lparr>primask := True\<rparr>"
  have "kinv ?k L W" using inv by simp
  then obtain k1 where k1: "delay_insert (Some t) ms (set_state t Blocked ?k) = Inr k1"
    "plain k1 = plain (set_state t Blocked ?k)" "kinv k1 L (insert_wake t (unat ms) W)"
    using dl.fall_asleep [of ?k L W t ms] kinv_current [OF inv t(1)] t(2) ms by (auto simp: word_gt_0)
  have "delay_ms ms k = Inr (task_yield (k1\<lparr>primask := primask k\<rparr>))"
    using k1(1) t(1) ms
    by (simp add: delay_ms_def Let_def critical_u_def enter_critical_def exit_critical_def)
  then show ?thesis using k1(2,3) by simp
qed

lemma get_tick_count_eq: "get_tick_count k = Inr (tick_count k, k)"
  by (simp add: get_tick_count_def critical_def enter_critical_def exit_critical_def)

lemma delay_until_ok:
  assumes inv: "kinv k L W" and t: "current_task k = Some t" "state (tcbs k t) = Running"
    and n: "n = wake_time - tick_count k" "0 < sint n"
  shows "\<exists>k'. delay_until wake_time k = Inr k' \<and> plain k' = plain (task_yield (set_state t Blocked k)) \<and>
           kinv k' L (insert_wake t (unat n) W)"
proof -
  let ?k = "k\<lparr>primask := True\<rparr>"
  have "kinv ?k L W" using inv by simp
  moreover have "0 < n" using n(2) by (metis sint_0 less_irrefl word_gt_0)
  ultimately obtain k1 where k1: "delay_insert (Some t) n (set_state t Blocked ?k) = Inr k1"
    "plain k1 = plain (set_state t Blocked ?k)" "kinv k1 L (insert_wake t (unat n) W)"
    using dl.fall_asleep [of ?k L W t n] kinv_current [OF inv t(1)] t(2) by auto
  have "delay_until wake_time k = Inr (task_yield (k1\<lparr>primask := primask k\<rparr>))"
    using k1(1) t(1) n
    by (simp add: delay_until_def Let_def critical_def enter_critical_def exit_critical_def
        get_tick_count_eq)
  then show ?thesis using k1(2,3) by simp
qed

lemma delay_until_past:
  "sint (wake_time - tick_count k) \<le> 0 \<Longrightarrow> delay_until wake_time k = Inr k"
  by (simp add: delay_until_def Let_def critical_def enter_critical_def exit_critical_def
      get_tick_count_eq split: option.splits)

subsection \<open>Priorities\<close>

text \<open>Where the task is re-sorted, on the abstract side.\<close>

definition reprioritize :: "kernel \<Rightarrow> tid \<Rightarrow> prio \<Rightarrow> (list_id \<Rightarrow> tid list) \<Rightarrow> list_id \<Rightarrow> tid list" where
  "reprioritize k t p L =
     (if priority (tcbs k t) = p then L
      else if state (tcbs k t) = Ready
      then (without t L)(Ready_List p := without t L (Ready_List p) @ [t])
      else case wait_list (tcbs k t) of
          None \<Rightarrow> L
        | Some l \<Rightarrow> L(l := insert_prio ((\<lambda>x. priority (tcbs k x))(t := p)) t (remove1 t (L l))))"

lemma reprioritize_cong:
  assumes "\<And>s. priority (tcbs k' s) = priority (tcbs k s)"
    and "state (tcbs k' t) = state (tcbs k t)" and "wait_list (tcbs k' t) = wait_list (tcbs k t)"
  shows "reprioritize k' t p L = reprioritize k t p L"
  using assms by (cases "wait_list (tcbs k t)") (simp_all add: reprioritize_def)

text \<open>
  A waiting task has its new priority before it leaves the wait list; as removal does not
  read priorities, it can be done on the list in the old order.
\<close>

lemma set_priority_waiting:
  assumes inv: "kinv k L W" and t: "t < ntasks k" "state (tcbs k t) = Blocked"
    and l: "wait_list (tcbs k t) = Some l" and p: "p < 32" "base_priority (tcbs k t) \<le> p"
  shows "\<exists>k'. andthen (list_remove l (Some t) (upd_tcb t (\<lambda>b. b\<lparr>priority := p\<rparr>) k))
             (insert_by_priority l (Some t)) = Inr k' \<and>
           plain k' = plain (upd_tcb t (\<lambda>b. b\<lparr>priority := p\<rparr>) k) \<and>
           kinv k' (L(l := insert_prio ((\<lambda>x. priority (tcbs k x))(t := p)) t (remove1 t (L l)))) W"
proof -
  let ?k = "upd_tcb t (\<lambda>b. b\<lparr>priority := p\<rparr>) k" and ?L = "L(l := remove1 t (L l))"
  have b: "kinv_but {} k L W" using inv by (simp add: kinv_def)
  have ok: "task_ok k L W t" by (rule kinv_task [OF inv t(1)])
  have li: "\<not> is_ready_list l" "t \<in> set (L l)" using kinv_but_waiting [OF b t(1) l] by auto
  have "wf_kernel ?k L W" using kinv_wf [OF inv] by simp
  then obtain k1 where k1: "list_remove l (Some t) ?k = Inr k1" "plain k1 = plain ?k" "wf_kernel k1 ?L W"
    using wait_remove_ok [of ?k L W l t] li by (auto simp: reshuffled_plain)
  note f1 = plainD [OF k1(2)]
  define k0 where "k0 = upd_tcb t (\<lambda>b. b\<lparr>priority := priority (tcbs k t)\<rparr>) k1"
  have "plain k0 = plain k"
    using k1(2) by (simp add: k0_def upd_tcb_twice upd_priority_same)
  then have "kinv_but {t} k0 ?L W \<and> (\<forall>l'. t \<notin> set (?L l'))"
    using k1(3) by (intro out_of_wait [OF kinv_but_any [OF b] t(1) li]) (simp_all add: reshuffled_plain k0_def)
  moreover have "k1 = upd_tcb t (\<lambda>b. b\<lparr>priority := p\<rparr>) k0"
    using f1(5) [of t] by (cases k1) (simp add: k0_def upd_tcb_def fun_eq_iff)
  ultimately have k1inv: "kinv_but {t} k1 ?L W" and out: "\<And>l'. t \<notin> set (?L l')"
    using kinv_but_upd [of t k0 ?L W "\<lambda>b. b\<lparr>priority := p\<rparr>"] by auto
  have n1: "t < ntasks k1" using t(1) plainD [OF k1(2)] by (simp add: ntasks_def)
  have t1: "state (tcbs k1 t) = Blocked" "wait_list (tcbs k1 t) = Some l"
    "priority (tcbs k1 t) < 32" "base_priority (tcbs k1 t) \<le> priority (tcbs k1 t)"
    using t(2) l p by (simp_all add: f1)
  obtain k' where k': "insert_by_priority l (Some t) k1 = Inr k'" "plain k' = plain k1"
    "kinv_but {} k' (?L(l := insert_prio (\<lambda>x. priority (tcbs k1 x)) t (?L l))) W"
    using attach_wait [OF k1inv n1 out t1(1,2) li(1) t1(3,4)] unfolding reshuffled_plain by blast
  have "(\<lambda>x. priority (tcbs k1 x)) = (\<lambda>x. priority (tcbs k x))(t := p)"
    by (auto simp: f1)
  then show ?thesis using k' k1(1,2) kinv_awake [OF inv] by (auto simp: kinv_def)
qed

text \<open>A task that is on no list, or only sleeps.\<close>

lemma set_priority_other:
  assumes inv: "kinv k L W" and t: "t < ntasks k" "state (tcbs k t) \<noteq> Ready"
    and w: "wait_list (tcbs k t) = None" and p: "p < 32" "base_priority (tcbs k t) \<le> p"
  shows "kinv (upd_tcb t (\<lambda>b. b\<lparr>priority := p\<rparr>) k) L W"
proof -
  have b: "kinv_but {} k L W" using inv by (simp add: kinv_def)
  have ok: "task_ok k L W t" by (rule kinv_task [OF inv t(1)])
  have out: "t \<notin> set (L l)" for l using kinv_but_not_listed [OF b t w] .
  let ?k = "upd_tcb t (\<lambda>b. b\<lparr>priority := p\<rparr>) k"
  have "kinv_but {t} ?k L W"
    by (rule kinv_but_upd [OF kinv_but_any [OF b] out]) simp
  moreover have "task_ok ?k L W t" using ok t(2) out p by (auto simp: task_ok_def)
  ultimately have "kinv_but {} ?k L W"
    using kinv_running [OF inv t(1)] by (intro kinv_but_attach) auto
  then show ?thesis using kinv_awake [OF inv] by (simp add: kinv_def)
qed

lemma set_task_priority_ok:
  assumes inv: "kinv k L W" and t: "t < ntasks k" and p: "p < 32" "base_priority (tcbs k t) \<le> p"
  shows "\<exists>k'. set_task_priority (Some t) p k = Inr k' \<and>
           plain k' = plain (upd_tcb t (\<lambda>b. b\<lparr>priority := p\<rparr>) k) \<and>
           kinv k' (reprioritize k t p L) W"
proof -
  let ?k = "k\<lparr>primask := True\<rparr>"
  have inv': "kinv ?k L W" using inv by simp
  have w: "wait_list (tcbs k t) = None" if "state (tcbs k t) \<noteq> Blocked"
    using task_ok_blocked [OF kinv_task [OF inv t]] that by blast
  let ?body = "\<lambda>k. deref (Some t) (\<lambda>t.
         if priority (tcbs k t) = p then Inr k
         else if state (tcbs k t) = Ready then
           andthen (rm_remove (Some t) k) (\<lambda>k.
             rm_add (Some t) (upd_tcb t (\<lambda>b. b\<lparr>priority := p\<rparr>) k))
         else
           let k = upd_tcb t (\<lambda>b. b\<lparr>priority := p\<rparr>) k
           in if state (tcbs k t) = Blocked
              then (case wait_list (tcbs k t) of
                      None \<Rightarrow> Inr k
                    | Some l \<Rightarrow> andthen (list_remove l (Some t) k) (\<lambda>k.
                        insert_by_priority l (Some t) k))
              else Inr k)"
  have "\<exists>k'. ?body ?k = Inr k' \<and> plain k' = plain (upd_tcb t (\<lambda>b. b\<lparr>priority := p\<rparr>) ?k) \<and>
          kinv k' (reprioritize k t p L) W"
  proof (cases "priority (tcbs k t) = p")
    case True
    then show ?thesis using inv by (auto simp: reprioritize_def upd_priority_same)
  next
    case new: False
    show ?thesis
    proof (cases "state (tcbs k t) = Ready")
      case True
      then show ?thesis using rq.move [OF inv', of t p] t p new by (simp add: reprioritize_def)
    next
      case False
      show ?thesis
      proof (cases "wait_list (tcbs k t)")
        case None
        then show ?thesis using set_priority_other [OF inv', of t p] t p new False
          by (auto simp: reprioritize_def Let_def)
      next
        case (Some l)
        then show ?thesis using set_priority_waiting [OF inv', of t l p] t p new w
          by (auto simp: reprioritize_def Let_def)
      qed
    qed
  qed
  then obtain k1 where k1: "?body ?k = Inr k1" "plain k1 = plain (upd_tcb t (\<lambda>b. b\<lparr>priority := p\<rparr>) ?k)"
    "kinv k1 (reprioritize k t p L) W" by blast
  have "set_task_priority (Some t) p k = Inr (k1\<lparr>primask := primask k\<rparr>)"
    using critical_u_Inr [of ?body, OF k1(1)] p(1)
    by (simp add: set_task_priority_def kMaxPriorities_def word8_less_32)
  then show ?thesis using k1(2,3) by simp
qed

end
