(* ===== verification/Context_Switch.thy ===== *)
theory Context_Switch
  imports Scheduler_Ops
begin

text \<open>
  The scheduling decisions: the context switch \<open>schedule_next_task\<close>, the tick with its
  preemption test, and the creation of tasks up to \<open>start\<close>. The lemmas reduce each to its
  effect on the sequences; from them follow strict priority, round robin among equals and
  the timing of wake-ups.
\<close>

subsection \<open>Saving the running task\<close>

text \<open>The current task is put back in line if it can still run.\<close>

definition requeue_current :: "kernel \<Rightarrow> (list_id \<Rightarrow> tid list) \<Rightarrow> list_id \<Rightarrow> tid list" where
  "requeue_current k L =
     (case current_task k of
        None \<Rightarrow> L
      | Some t \<Rightarrow> if state (tcbs k t) = Running then enqueue k t L else L)"

definition save_current :: "kernel \<Rightarrow> kernel" where
  "save_current k =
     (case current_task k of
        None \<Rightarrow> k
      | Some t \<Rightarrow> upd_tcb t (\<lambda>b. b\<lparr>sp := current_sp k,
                   state := if state b = Running then Ready else state b\<rparr>) k)"

definition canary_intact :: "kernel \<Rightarrow> bool" where
  "canary_intact k \<longleftrightarrow>
     (case current_task k of
        None \<Rightarrow> True
      | Some t \<Rightarrow> load32 (stack_base (tcbs k t)) (mem k) = kStackCanary)"

abbreviation save_step :: "kernel \<Rightarrow> kernel res" where
  "save_step k \<equiv>
     (case current_task k of
          None \<Rightarrow> Inr k
        | Some t \<Rightarrow>
            acr_assert k (load32 (stack_base (tcbs k t)) (mem k) = kStackCanary)
             (let k = upd_tcb t (\<lambda>b. b\<lparr>sp := current_sp k\<rparr>) k
              in if state (tcbs k t) = Running
                 then rm_add (Some t) (set_state t Ready k) else Inr k))"

lemma save_step_ok:
  assumes inv: "kinv k L W" and can: "canary_intact k"
  shows "\<exists>k'. save_step k = Inr k' \<and> plain k' = plain (save_current k) \<and>
           kinv k' (requeue_current k L) W \<and> none_running k'"
proof (cases "current_task k")
  case None
  have "state (tcbs k s) \<noteq> Running" if "s < ntasks k" for s
    using kinv_running [OF inv that] None by auto
  then have "none_running k" by (simp add: none_running_def)
  then show ?thesis using None inv by (simp add: save_current_def requeue_current_def)
next
  case (Some t)
  have t: "t < ntasks k" by (rule kinv_current [OF inv Some])
  have run1: "state (tcbs k s) = Running \<Longrightarrow> s < ntasks k \<Longrightarrow> s = t" for s
    using kinv_running [OF inv, of s] Some by auto
  have can': "load32 (stack_base (tcbs k t)) (mem k) = kStackCanary"
    using can Some by (simp add: canary_intact_def)
  let ?k = "upd_tcb t (\<lambda>b. b\<lparr>sp := current_sp k\<rparr>) k"
  have inv': "kinv ?k L W" using inv by simp
  show ?thesis
  proof (cases "state (tcbs k t) = Running")
    case False
    have "save_current k = ?k"
      using Some False by (cases "tcbs k t") (simp add: save_current_def upd_tcb_def)
    moreover have "none_running ?k" using run1 False by (auto simp: none_running_def)
    ultimately show ?thesis using Some False inv' can' by (simp add: requeue_current_def)
  next
    case True
    obtain k' where k': "rm_add (Some t) (set_state t Ready ?k) = Inr k'"
      "plain k' = plain (set_state t Ready ?k)" "kinv k' (enqueue k t L) W"
      using rq.readmit [OF inv', of t] t True by (auto simp: enqueue_def)
    note f = plainD [OF k'(2)]
    have "set_state t Ready ?k = save_current k"
      using Some True by (auto simp: save_current_def upd_tcb_twice intro!: upd_tcb_cong)
    moreover have "none_running k'"
      using run1 by (auto simp: none_running_def ntasks_def f)
    ultimately show ?thesis
      using Some True can' k' by (auto simp: requeue_current_def)
  qed
qed

subsection \<open>Choosing the next task\<close>

definition switch_to :: "tid \<Rightarrow> kernel \<Rightarrow> kernel" where
  "switch_to n k =
     (let k = set_state n Running (save_current k)
      in k\<lparr>current_task := Some n, current_sp := sp (tcbs k n)\<rparr>)"

lemma schedule_next_task_ok:
  assumes inv: "kinv k L W" and can: "canary_intact k"
    and p: "highest_ready (requeue_current k L) p" "requeue_current k L (Ready_List p) = n # ts"
  shows "\<exists>k'. schedule_next_task k = Inr k' \<and> plain k' = plain (switch_to n k) \<and>
           kinv k' ((requeue_current k L)(Ready_List p := ts)) W"
proof -
  obtain k1 where k1: "save_step k = Inr k1" "plain k1 = plain (save_current k)"
    "kinv k1 (requeue_current k L) W" "none_running k1"
    using save_step_ok [OF inv can] by blast
  obtain k2 where k2: "get_highest_priority_task k1 = Inr (Some n, k2)" "plain k2 = plain k1"
    "kinv ((set_state n Running k2)\<lparr>current_task := Some n\<rparr>) ((requeue_current k L)(Ready_List p := ts)) W"
    using rq.dispatch [OF k1(3,4) p] by blast
  let ?k = "(set_state n Running k2)\<lparr>current_task := Some n\<rparr>"
  let ?k' = "?k\<lparr>current_sp := sp (tcbs ?k n)\<rparr>"
  have "schedule_next_task k = Inr ?k'"
    unfolding schedule_next_task_def k1(1) using k2(1) by (simp add: Let_def)
  moreover have "plain k2 = plain (save_current k)" using k1(2) k2(2) by simp
  moreover have "sp (tcbs k2 n) = sp (tcbs (save_current k) n)" by (rule plainD(1)) fact
  ultimately show ?thesis using k2(3) by (simp add: switch_to_def Let_def)
qed

lemma schedule_none:
  assumes inv: "kinv k L W" and can: "canary_intact k" and none: "\<And>p. requeue_current k L (Ready_List p) = []"
  shows "\<exists>k'. schedule_next_task k = (if use_assert k then Inl AssertFailed else Inr k') \<and>
           plain k' = plain (save_current k) \<and> kinv k' L W"
proof -
  obtain k1 where k1: "save_step k = Inr k1" "plain k1 = plain (save_current k)"
    "kinv k1 (requeue_current k L) W"
    using save_step_ok [OF inv can] by blast
  have "requeue_current k L = L"
    using none by (auto simp: requeue_current_def enqueue_def Let_def split: option.splits if_splits)
      (metis fun_upd_same snoc_eq_iff_butlast)
  moreover have "use_assert k1 = use_assert k"
    using plainD(14) [OF k1(2)] by (simp add: save_current_def split: option.splits)
  ultimately show ?thesis
    using rq.best_none [of k1 L W] k1 none
    by (auto simp: schedule_next_task_def acr_assert_def kinv_def)
qed

lemma stack_overflow_caught:
  "use_assert k \<Longrightarrow> \<not> canary_intact k \<Longrightarrow> schedule_next_task k = Inl AssertFailed"
  by (auto simp: schedule_next_task_def canary_intact_def acr_assert_def split: option.splits)

subsection \<open>Preemption and the tick\<close>

definition preempt_due :: "kernel \<Rightarrow> (list_id \<Rightarrow> tid list) \<Rightarrow> bool" where
  "preempt_due k L \<longleftrightarrow>
     (case current_task k of
        None \<Rightarrow> \<exists>p. L (Ready_List p) \<noteq> []
      | Some t \<Rightarrow> \<exists>p \<ge> priority (tcbs k t). L (Ready_List p) \<noteq> [])"

lemma wf_ready_none:
  assumes "wf_ready k L"
  shows "ready_bitmask k = 0 \<longleftrightarrow> (\<forall>p. L (Ready_List p) = [])"
  using wf_ready_empty [OF assms] wf_ready_top(1) [OF assms] by blast

lemma needs_preemption_ok:
  assumes "wf_kernel k L W"
  shows "needs_preemption k = Inr (preempt_due k L)"
proof -
  note wf = wf_kernelD(2) [OF assms]
  show ?thesis
  proof (cases "ready_bitmask k = 0")
    case True
    then show ?thesis using wf_ready_none [OF wf]
      by (auto simp: needs_preemption_def preempt_due_def rm_is_empty_def split: option.splits)
  next
    case False
    have "priority b \<le> top_priority (ready_bitmask k) \<longleftrightarrow> (\<exists>p \<ge> priority b. L (Ready_List p) \<noteq> [])" for b :: tcb
      using wf_ready_top [OF wf False] by (meson order.trans)
    then show ?thesis using False wf_ready_none [OF wf]
      by (auto simp: needs_preemption_def preempt_due_def rm_is_empty_def peek_highest_priority_def
          split: option.splits)
  qed
qed

lemma highest_ready_exists:
  assumes "wf_kernel k L W" and "L (Ready_List q) \<noteq> []"
  shows "\<exists>p. highest_ready L p"
proof -
  note wf = wf_kernelD(2) [OF assms(1)]
  have "ready_bitmask k \<noteq> 0" using assms(2) wf_ready_none [OF wf] by blast
  then show ?thesis using wf_ready_top [OF wf] unfolding highest_ready_def by blast
qed

text \<open>A task that can run is in line once the running task is back on the ready lists.\<close>

lemma requeued:
  assumes inv: "kinv k L W" and s: "s < ntasks k" "state (tcbs k s) = Ready \<or> state (tcbs k s) = Running"
  shows "s \<in> set (requeue_current k L (Ready_List (priority (tcbs k s))))"
  using s(2)
proof
  assume "state (tcbs k s) = Ready"
  then have "s \<in> set (L (Ready_List (priority (tcbs k s))))"
    using task_ok_ready [OF kinv_task [OF inv s(1)]] by simp
  then show ?thesis by (auto simp: requeue_current_def enqueue_def Let_def split: option.splits)
next
  assume "state (tcbs k s) = Running"
  then show ?thesis using kinv_running [OF inv s(1)]
    by (simp add: requeue_current_def enqueue_def Let_def)
qed

lemma next_task_exists:
  assumes inv: "kinv k L W" and can: "canary_intact k"
    and r: "r < ntasks k" "state (tcbs k r) = Ready \<or> state (tcbs k r) = Running"
  shows "\<exists>p n ts. highest_ready (requeue_current k L) p \<and> requeue_current k L (Ready_List p) = n # ts"
proof -
  obtain k1 where k1: "kinv k1 (requeue_current k L) W" using save_step_ok [OF inv can] by blast
  have "requeue_current k L (Ready_List (priority (tcbs k r))) \<noteq> []" using requeued [OF inv r] by auto
  then obtain p where p: "highest_ready (requeue_current k L) p"
    using highest_ready_exists [OF kinv_wf [OF k1]] by blast
  then show ?thesis by (auto simp: highest_ready_def neq_Nil_conv)
qed

lemma sched_tick_ok:
  assumes inv: "kinv k L W"
    and T: "T = expired (one_tick W)" and L': "L' = fold (waken k) T L"
  shows "\<exists>k'. sched_tick k = Inr k' \<and>
           plain k' = plain (yield_if (preempt_due k L')
             (woken_set (set T) (k\<lparr>tick_count := tick_count k + 1\<rparr>))) \<and>
           kinv k' L' (pending (one_tick W))"
proof -
  let ?k = "k\<lparr>primask := True, tick_count := tick_count k + 1\<rparr>"
  have inv': "kinv ?k L W" using inv by simp
  have "fold (waken ?k) T = fold (waken k) T" by (rule fold_waken_cong) simp_all
  then obtain k1 where k1: "delay_tick ?k = Inr k1" "plain k1 = plain (woken_set (set T) ?k)"
    "kinv k1 L' (pending (one_tick W))"
    using delay_tick_ok [OF inv'] unfolding T L' by metis
  note f = plainD [OF k1(2)]
  have cur: "current_task k1 = current_task k" "\<And>t. priority (tcbs k1 t) = priority (tcbs k t)"
    by (simp_all add: f woken_set_def woken_def)
  then have pd: "preempt_due k1 L' = preempt_due k L'"
    by (simp add: preempt_due_def split: option.splits)
  have need: "needs_preemption k1 = Inr (preempt_due k L')"
    using needs_preemption_ok [OF kinv_wf [OF k1(3)]] pd by simp
  let ?k' = "yield_if (preempt_due k L') (k1\<lparr>primask := primask k\<rparr>)"
  have "critical (\<lambda>k.
          andthen (delay_tick (k\<lparr>tick_count := tick_count k + 1\<rparr>)) (\<lambda>k.
            andthen (needs_preemption k) (\<lambda>need_switch. Inr (need_switch, k)))) k
        = Inr (preempt_due k L', k1\<lparr>primask := primask k\<rparr>)"
    by (rule critical_Inr) (use k1(1) need in simp)
  then have "sched_tick k = Inr ?k'" by (simp add: sched_tick_def yield_if_def)
  moreover have "plain ?k' = plain (yield_if (preempt_due k L')
             (woken_set (set T) (k\<lparr>tick_count := tick_count k + 1\<rparr>)))"
    using k1(2) by simp
  ultimately show ?thesis using k1(3) by auto
qed

subsection \<open>Creating tasks\<close>

text \<open>A number of ticks in a row.\<close>

fun ticks :: "nat \<Rightarrow> kernel \<Rightarrow> kernel res" where
  "ticks 0 k = Inr k"
| "ticks (Suc n) k = andthen (ticks n k) sched_tick"

lemma ticks_sleeping:
  assumes inv: "kinv k L W" and t: "(t, n) \<in> set W" and m: "m < n"
  shows "\<exists>k' L' W'. ticks m k = Inr k' \<and> kinv k' L' W' \<and> (t, n - m) \<in> set W' \<and>
           tick_count k' = tick_count k + of_nat m \<and> wait_list (tcbs k' t) = wait_list (tcbs k t)"
  using m
proof (induction m)
  case 0
  then show ?case using inv t by auto
next
  case (Suc m)
  then obtain k1 L1 W1 where k1: "ticks m k = Inr k1" "kinv k1 L1 W1" "(t, n - m) \<in> set W1"
    "tick_count k1 = tick_count k + of_nat m" "wait_list (tcbs k1 t) = wait_list (tcbs k t)" by auto
  let ?T = "set (expired (one_tick W1))"
  obtain k' c where k': "sched_tick k1 = Inr k'"
    "plain k' = plain (yield_if c (woken_set ?T (k1\<lparr>tick_count := tick_count k1 + 1\<rparr>)))"
    "kinv k' (fold (waken k1) (expired (one_tick W1)) L1) (pending (one_tick W1))"
    using sched_tick_ok [OF k1(2) refl refl] by blast
  have "(t, n - m - 1) \<in> set (one_tick W1)" using k1(3) by (force simp: one_tick_def)
  then have "(t, n - Suc m) \<in> set (pending (one_tick W1))" using Suc.prems by (simp add: pending_def)
  moreover have "tick_count k' = tick_count k + of_nat (Suc m)"
    using plainD(18) [OF k'(2)] k1(4) by simp
  moreover have "wait_list (tcbs k' t) = wait_list (tcbs k t)"
  proof -
    have "distinct (map fst W1)" using kinv_wf [OF k1(2)] by (auto simp: wf_kernel_def dest: wf_delay_distinct)
    then have "x = n - m" if "(t, x) \<in> set W1" for x using that k1(3) by (rule eq_key_imp_eq_value)
    then have "t \<notin> ?T" using Suc.prems by (force simp: expired_def one_tick_def)
    then show ?thesis using plainD(8) [OF k'(2), of t] k1(5) by (simp add: woken_set_def)
  qed
  ultimately show ?case using k1(1) k'(1,3)
    by (intro exI [of _ k'] exI [of _ "fold (waken k1) (expired (one_tick W1)) L1"]
        exI [of _ "pending (one_tick W1)"]) simp
qed

lemma ticks_sleep:
  assumes inv: "kinv k L W" and t: "(t, n) \<in> set W"
  shows "\<forall>m < n. \<exists>k'. ticks m k = Inr k' \<and> state (tcbs k' t) = Blocked"
    and "\<exists>k'. ticks n k = Inr k' \<and> state (tcbs k' t) = Ready \<and> tick_count k' = tick_count k + of_nat n \<and>
           wait_list (tcbs k' t) = None \<and>
           (wait_list (tcbs k t) \<noteq> None \<longrightarrow> timeout_expired (tcbs k' t))"
proof -
  show "\<forall>m < n. \<exists>k'. ticks m k = Inr k' \<and> state (tcbs k' t) = Blocked"
  proof (intro allI impI)
    fix m assume "m < n"
    then obtain k' L' W' where k': "ticks m k = Inr k'" "kinv k' L' W'" "(t, n - m) \<in> set W'"
      using ticks_sleeping [OF inv t] by blast
    have "t \<in> fst ` set W'" using k'(3) by force
    then show "\<exists>k'. ticks m k = Inr k' \<and> state (tcbs k' t) = Blocked"
      using task_ok_blocked [OF kinv_task [OF k'(2) kinv_sleeper [OF k'(2,3)]]] k'(1) by blast
  qed
  have "0 < n" using kinv_awake [OF inv] t by (auto simp: awake_none_def)
  then obtain m where n: "n = Suc m" by (cases n) auto
  then obtain k1 L1 W1 where k1: "ticks m k = Inr k1" "kinv k1 L1 W1" "(t, 1) \<in> set W1"
    "tick_count k1 = tick_count k + of_nat m" "wait_list (tcbs k1 t) = wait_list (tcbs k t)"
    using ticks_sleeping [OF inv t, of m] by auto
  obtain k' c where k': "sched_tick k1 = Inr k'"
    "plain k' = plain (yield_if c (woken_set (set (expired (one_tick W1))) (k1\<lparr>tick_count := tick_count k1 + 1\<rparr>)))"
    using sched_tick_ok [OF k1(2) refl refl] by blast
  have "t \<in> set (expired (one_tick W1))" using k1(3) by (force simp: expired_def one_tick_def)
  then have "state (tcbs k' t) = Ready" "wait_list (tcbs k' t) = None"
    "wait_list (tcbs k t) \<noteq> None \<longrightarrow> timeout_expired (tcbs k' t)"
    using plainD(2,8,9) [OF k'(2), of t] k1(5) by (simp_all add: woken_set_def woken_def)
  moreover have "tick_count k' = tick_count k + of_nat n"
    using plainD(18) [OF k'(2)] k1(4) by (simp add: n)
  ultimately show "\<exists>k'. ticks n k = Inr k' \<and> state (tcbs k' t) = Ready \<and> tick_count k' = tick_count k + of_nat n \<and>
      wait_list (tcbs k' t) = None \<and>
      (wait_list (tcbs k t) \<noteq> None \<longrightarrow> timeout_expired (tcbs k' t))"
    using k1(1) k'(1) n by simp
qed

text \<open>
  The place of the callable in the stack, under the static assertions of \<open>create_task\<close>: below
  the top, aligned, and with room for the initial frame and the canary beneath it.
\<close>

lemma callable_slot_bounds:
  assumes "64 \<le> words" and "n < 4 * words div 2"
  shows "buf + 72 \<le> callable_slot buf words n"
    and "callable_slot buf words n + n \<le> buf + 4 * words"
    and "callable_slot buf words n mod 8 = 0"
proof -
  let ?b = "buf + 4 * words - n"
  have "?b mod 8 < 8" by simp
  moreover have "buf + 128 \<le> ?b" "n \<le> buf + 4 * words" using assms by auto
  moreover have "?b - ?b mod 8 \<le> ?b" by simp
  ultimately show "buf + 72 \<le> callable_slot buf words n"
    "callable_slot buf words n + n \<le> buf + 4 * words"
    unfolding callable_slot_def Let_def by linarith+
  show "callable_slot buf words n mod 8 = 0"
    unfolding callable_slot_def Let_def by (simp add: minus_mod_eq_mult_div)
qed

definition created :: "tid \<Rightarrow> addr \<Rightarrow> nat \<Rightarrow> addr \<Rightarrow> addr \<Rightarrow> prio \<Rightarrow> kernel \<Rightarrow> kernel" where
  "created t stack_buf words trampoline slot p k =
     (let (s, m) = init_task_stack slot trampoline slot (store32 stack_buf kStackCanary (mem k))
      in upd_tcb t (\<lambda>b. b\<lparr>wait_list := None, stack_base := stack_buf,
           stack_end := stack_buf + 4 * words, sp := s, priority := p, base_priority := p,
           state := Ready\<rparr>)
           (k\<lparr>task_count := task_count k + 1, mem := m\<rparr>))"

lemma ntasks_Suc:
  "ntasks k < kMaxTasks \<Longrightarrow> unat (task_count k + 1) = Suc (ntasks k)"
  by (simp add: ntasks_def kMaxTasks_def unat_word_ariths)

lemma wf_kernel_unlink_fresh:
  assumes wf: "wf_kernel k L W" and new: "\<And>l. t \<notin> set (L l)"
  shows "wf_kernel (set_next t None (set_prev t None k)) L W"
proof -
  let ?k = "set_next t None (set_prev t None k)"
  have "linked_list ?k l (L l) = linked_list k l (L l)" for l
    using new [of l] unfolding linked_list_def by simp (rule linked_cong; auto)
  then have "wf_lists ?k L" using wf_kernelD(1) [OF wf] by (simp add: wf_lists_def)
  moreover have "wf_ready ?k L" using wf_kernelD(2) [OF wf] by (subst wf_ready_cong [where k = k]) simp_all
  moreover have "wf_delay ?k W" using wf_kernelD(3) [OF wf] by (subst wf_delay_cong [where k = k]) auto
  ultimately show ?thesis by (simp add: wf_kernel_def)
qed

lemma allocate_tcb_ok:
  assumes inv: "kinv k L W" and room: "ntasks k < kMaxTasks"
  shows "\<exists>k'. allocate_tcb k = Inr (Some (ntasks k), k') \<and>
           plain k' = plain (upd_tcb (ntasks k) (\<lambda>b. b\<lparr>state := Suspended, wait_list := None\<rparr>)
             (k\<lparr>task_count := task_count k + 1\<rparr>)) \<and>
           detached (ntasks k) k' L W"
proof -
  let ?t = "ntasks k"
  let ?k1 = "upd_tcb ?t (\<lambda>b. b\<lparr>wait_list := None\<rparr>)
     (set_state ?t Suspended (k\<lparr>primask := True, task_count := task_count k + 1\<rparr>))"
  let ?k' = "(set_next ?t None (set_prev ?t None ?k1))\<lparr>primask := primask k\<rparr>"
  have run: "allocate_tcb k = Inr (Some ?t, ?k')"
    using room by (simp add: allocate_tcb_def critical_def enter_critical_def exit_critical_def
        Let_def ntasks_def)
  have b: "kinv_but {} k L W" and new: "\<And>l. ?t \<notin> set (L l)" and newW: "?t \<notin> fst ` set W"
    using inv by (auto simp: kinv_def kinv_but_def detached_from_def)
  have "wf_kernel ?k1 L W" using kinv_wf [OF inv] by simp
  from wf_kernel_unlink_fresh [OF this new] have wf: "wf_kernel ?k' L W" by simp
  have nt: "ntasks ?k' = Suc ?t" using ntasks_Suc [OF room] by (simp add: ntasks_def)
  have same: "s \<noteq> ?t \<Longrightarrow> tcbs ?k' s = tcbs k s" for s by simp
  have "task_ok ?k' L W s" if "s < ?t" for s
  proof -
    have "task_ok ?k' L W s = task_ok k L W s"
      by (rule task_ok_cong) (use that in simp_all)
    then show ?thesis using kinv_task [OF inv that] by simp
  qed
  moreover have "wait_sorted ?k' L"
  proof -
    have "(\<lambda>s. priority (tcbs ?k' s)) = (\<lambda>s. priority (tcbs k s))" by auto
    then show ?thesis using kinv_but_sorted [OF b] by (simp only: wait_sorted_def)
  qed
  moreover have "only_current_runs {?t} ?k'"
    unfolding only_current_runs_def nt
  proof (intro allI impI)
    fix s assume "s < Suc ?t" "s \<notin> {?t}" "state (tcbs ?k' s) = Running"
    then have "s < ?t" "state (tcbs k s) = Running" by simp_all
    then show "current_task ?k' = Some s" using kinv_running [OF inv] by simp
  qed
  moreover have "current_valid ?k'"
    using b nt unfolding kinv_but_def current_valid_def by (auto simp: less_Suc_eq)
  moreover have "detached_from L W s" if "s \<ge> Suc ?t" for s
    using b that by (simp add: kinv_but_def)
  ultimately have "kinv_but {?t} ?k' L W"
    using wf nt room unfolding kinv_but_def by (auto simp: less_Suc_eq)
  then have "detached ?t ?k' L W" using new newW nt by (intro detachedI) simp_all
  moreover have "plain ?k' = plain (upd_tcb ?t (\<lambda>b. b\<lparr>state := Suspended, wait_list := None\<rparr>)
             (k\<lparr>task_count := task_count k + 1\<rparr>))"
    by (simp add: plain_def plain_tcb_def upd_tcb_def fun_eq_iff)
  ultimately show ?thesis using run by blast
qed

lemma create_task_impl_ok:
  assumes inv: "kinv k L W" and room: "ntasks k < kMaxTasks" and p: "p < 32"
    and t: "t = ntasks k"
  shows "\<exists>k'. create_task_impl buf words tramp slot p k = Inr (Some t, k') \<and>
           plain k' = plain (yield_if (started k \<and> (\<exists>c. current_task k = Some c \<and> priority (tcbs k c) < p))
             (created t buf words tramp slot p k)) \<and>
           kinv k' (L(Ready_List p := L (Ready_List p) @ [t])) W"
proof -
  obtain k1 where k1: "allocate_tcb k = Inr (Some t, k1)"
    "plain k1 = plain (upd_tcb t (\<lambda>b. b\<lparr>state := Suspended, wait_list := None\<rparr>)
             (k\<lparr>task_count := task_count k + 1\<rparr>))" "detached t k1 L W"
    using allocate_tcb_ok [OF inv room] t by blast
  note f1 = plainD [OF k1(2)]
  obtain s m where sm: "init_task_stack slot tramp slot (store32 buf kStackCanary (mem k)) = (s, m)"
    by (cases "init_task_stack slot tramp slot (store32 buf kStackCanary (mem k))")
  let ?k2 = "upd_tcb t (\<lambda>b. b\<lparr>base_priority := p\<rparr>) (upd_tcb t (\<lambda>b. b\<lparr>priority := p\<rparr>)
      (upd_tcb t (\<lambda>b. b\<lparr>sp := s\<rparr>) ((upd_tcb t (\<lambda>b. b\<lparr>stack_end := buf + 4 * words\<rparr>)
      (upd_tcb t (\<lambda>b. b\<lparr>stack_base := buf\<rparr>) k1))\<lparr>mem := m\<rparr>)))"
  let ?k3 = "set_state t Ready (?k2\<lparr>primask := True\<rparr>)"
  have "detached t (?k2\<lparr>primask := True\<rparr>) L W"
    using k1(3) by (simp del: upd_tcb_field add: detached_upd)
  from rq.admit [OF this] p obtain k4 where k4: "rm_add (Some t) ?k3 = Inr k4"
    "plain k4 = plain ?k3" "kinv_but {} k4 (L(Ready_List p := L (Ready_List p) @ [t])) W"
    by (auto simp: f1 enqueue_def)
  note f4 = plainD [OF k4(2)]
  let ?k5 = "k4\<lparr>primask := primask k1\<rparr>"
  let ?c = "started k \<and> (\<exists>c. current_task k = Some c \<and> priority (tcbs k c) < p)"
  have cur: "current_task k = Some c \<Longrightarrow> c \<noteq> t" for c
    using kinv_current [OF inv] t by fastforce
  have o: "outranks_current t ?k5 \<longleftrightarrow> ?c"
    using cur by (auto simp: outranks_current_def f4 f1 split: option.splits)
  have add: "add_to_ready_queue (Some t) ?k2 = Inr ?k5"
    using k4(1) by (simp add: add_to_ready_queue_def critical_u_def enter_critical_def exit_critical_def)
  have mem1: "mem k1 = mem k" "primask k1 = primask k" by (simp_all add: f1)
  have run: "create_task_impl buf words tramp slot p k = Inr (Some t, yield_if ?c ?k5)"
    using p k1(1) add o sm mem1
    by (simp add: create_task_impl_def kMaxPriorities_def word8_less_32 Let_def yield_if_def
        del: upd_tcb_field)
  moreover have "plain (yield_if ?c ?k5) = plain (yield_if ?c (created t buf words tramp slot p k))"
    using k4(2) k1(2) sm by (simp add: created_def plain_upd_tcb upd_tcb_twice mem1)
  moreover have "kinv (yield_if ?c ?k5) (L(Ready_List p := L (Ready_List p) @ [t])) W"
    using k4(3) kinv_awake [OF inv] by (simp add: kinv_def)
  ultimately show ?thesis by blast
qed

lemma create_task_full:
  assumes "p < 32" and "kMaxTasks \<le> ntasks k"
  shows "create_task_impl buf words tramp slot p k = (if use_assert k then Inl AssertFailed else Inr (None, k))"
  using assms
  by (simp add: create_task_impl_def kMaxPriorities_def word8_less_32 allocate_tcb_def critical_def
      enter_critical_def exit_critical_def ntasks_def acr_assert_def)

lemma create_task_ok:
  assumes inv: "kinv k L W" and room: "ntasks k < kMaxTasks" and p: "p < 32"
    and t: "t = ntasks k" and site: "\<not> site_created k site"
    and slot: "slot = callable_slot buf words n"
    and k0: "k0 = k\<lparr>site_created := (site_created k)(site := True), mem := construct slot (mem k)\<rparr>"
  shows "\<exists>k'. create_task site buf words n construct tramp p k = Inr (Some t, k') \<and>
           plain k' = plain (yield_if (started k \<and> (\<exists>c. current_task k = Some c \<and> priority (tcbs k c) < p))
             (created t buf words tramp slot p k0)) \<and>
           kinv k' (L(Ready_List p := L (Ready_List p) @ [t])) W"
proof -
  have "kinv k0 L W" "ntasks k0 = ntasks k" using inv by (simp_all add: k0 ntasks_def)
  with create_task_impl_ok [of k0 L W p t buf words tramp slot] room p t site slot
  show ?thesis by (simp add: create_task_def Let_def k0)
qed

text \<open>A second call from the same call site (a loop) is refused.\<close>

lemma create_task_again:
  "site_created k site \<Longrightarrow> create_task site buf words n construct tramp p k =
     (if use_assert k then Inl AssertFailed else Inr (None, k))"
  by (simp add: create_task_def acr_assert_def)

end
