(* ===== verification/Wait_Queue.thy ===== *)
theory Wait_Queue
  imports Context_Switch
begin

text \<open>
  \<open>WaitQueue\<close> (ipc.hpp 18-31, ipc.cpp 9-25), the interface between the synchronisation
  objects and the scheduler: a task parks on the wait list of an object, and the object
  wakes the first of the list. The locale \<open>waiting\<close> states the contract; what every object
  does with it (block the caller, perhaps with a time limit; hand over to a waiter) is
  proved once from the contract. The interpretation \<open>wq\<close> discharges it for the model of
  the code, and the theories of the objects use only \<open>wq\<close>.

  A call that blocks does not return before the task runs again. Its model ends where the
  task is switched out, with \<open>Waiting\<close>; what it returns later is read from the control
  block by \<open>blocked_result\<close>.
\<close>

datatype 'a outcome = Returned 'a | Waiting

subsection \<open>The operations\<close>

definition park :: "list_id \<Rightarrow> tptr \<Rightarrow> kernel \<Rightarrow> kernel res" where
  "park l task k =
     acr_assert k (task \<noteq> None)
      (deref task (\<lambda>t.
       acr_assert k (wait_list (tcbs k t) = None)
        (let k = set_state t Blocked k;
             k = upd_tcb t (\<lambda>b. b\<lparr>wait_list := Some l\<rparr>) k
         in insert_by_priority l (Some t) k)))"

definition wake_highest :: "list_id \<Rightarrow> kernel \<Rightarrow> (tptr \<times> kernel) res" where
  "wake_highest l k =
     andthen (pop_front l k) (\<lambda>(task, k).
       case task of
         None \<Rightarrow> Inr (None, k)
       | Some t \<Rightarrow>
           andthen (cancel_timeout (Some t) (upd_tcb t (\<lambda>b. b\<lparr>wait_list := None\<rparr>) k)) (\<lambda>k.
             Inr (Some t, k)))"

definition peek_highest :: "list_id \<Rightarrow> kernel \<Rightarrow> tptr" where
  "peek_highest l k = peek_front l k"

definition wq_is_empty :: "list_id \<Rightarrow> kernel \<Rightarrow> bool" where
  "wq_is_empty l k = is_empty l k"

text \<open>\<open>return !task->timeout_expired;\<close> after \<open>task_yield()\<close>.\<close>

definition blocked_result :: "tid \<Rightarrow> kernel \<Rightarrow> bool" where
  "blocked_result t k \<longleftrightarrow> \<not> timeout_expired (tcbs k t)"

text \<open>The time limit of a blocking call, \<open>kWaitForever\<close> being none.\<close>

definition start_timeout :: "tick \<Rightarrow> kernel \<Rightarrow> kernel res" where
  "start_timeout timeout_ms k =
     (if timeout_ms \<noteq> kWaitForever
      then start_timeout_for_current_task (ms_to_ticks timeout_ms) k else Inr k)"

subsection \<open>The contract\<close>

definition parked :: "kernel \<Rightarrow> list_id \<Rightarrow> tid \<Rightarrow> (list_id \<Rightarrow> tid list) \<Rightarrow> list_id \<Rightarrow> tid list" where
  "parked k l t L = L(l := insert_prio (\<lambda>x. priority (tcbs k x)) t (L l))"

lemma parked_cong:
  assumes "\<And>s. priority (tcbs k' s) = priority (tcbs k s)"
  shows "parked k' l t L = parked k l t L"
  using assms by (simp add: parked_def)

definition time_limit :: "tick \<Rightarrow> tid \<Rightarrow> (tid \<times> nat) list \<Rightarrow> (tid \<times> nat) list" where
  "time_limit timeout_ms t W =
     (if timeout_ms = kWaitForever then W else insert_wake t (unat timeout_ms) W)"

text \<open>The stores of a call that blocks; it finds \<open>timeout_expired\<close> cleared.\<close>

definition blocked_store :: "list_id \<Rightarrow> tid \<Rightarrow> kernel \<Rightarrow> kernel" where
  "blocked_store l t k =
     upd_tcb t (\<lambda>b. b\<lparr>timeout_expired := False, wait_list := Some l, state := Blocked\<rparr>) k"

locale waiting =
  fixes park :: "list_id \<Rightarrow> tptr \<Rightarrow> kernel \<Rightarrow> kernel res"
    and wake :: "list_id \<Rightarrow> kernel \<Rightarrow> (tptr \<times> kernel) res"
  assumes park: "\<lbrakk>kinv k L W; \<not> is_ready_list l; t < ntasks k; state (tcbs k t) = Running\<rbrakk> \<Longrightarrow>
      \<exists>k'. park l (Some t) k = Inr k' \<and>
        plain k' = plain (upd_tcb t (\<lambda>b. b\<lparr>wait_list := Some l, state := Blocked\<rparr>) k) \<and>
        kinv k' (parked k l t L) W"
    and wake_some: "\<lbrakk>kinv k L W; \<not> is_ready_list l; L l = t # ts\<rbrakk> \<Longrightarrow>
      \<exists>k'. wake l k = Inr (Some t, k') \<and>
        plain k' = plain (upd_tcb t (\<lambda>b. b\<lparr>wait_list := None\<rparr>) k) \<and>
        detached t k' (L(l := ts)) (remove_wake t W)"
    and wake_none: "\<lbrakk>kinv k L W; L l = []\<rbrakk> \<Longrightarrow> wake l k = Inr (None, k)"
begin

text \<open>The caller blocks on \<open>l\<close>, with a time limit if one is given.\<close>

lemma block:
  assumes inv: "kinv k L W" and l: "\<not> is_ready_list l"
    and t: "current_task k = Some t" "state (tcbs k t) = Running" and n: "timeout_ms \<noteq> 0"
  shows "\<exists>k'. andthen (park l (Some t) k) (start_timeout timeout_ms) = Inr k' \<and>
           plain k' = plain (upd_tcb t (\<lambda>b. b\<lparr>wait_list := Some l, state := Blocked\<rparr>) k) \<and>
           kinv k' (parked k l t L) (time_limit timeout_ms t W)"
proof -
  have nt: "t < ntasks k" by (rule kinv_current [OF inv t(1)])
  obtain k1 where k1: "park l (Some t) k = Inr k1"
    "plain k1 = plain (upd_tcb t (\<lambda>b. b\<lparr>wait_list := Some l, state := Blocked\<rparr>) k)"
    "kinv k1 (parked k l t L) W"
    using park [OF inv l nt t(2)] by blast
  note f = plainD [OF k1(2)]
  show ?thesis
  proof (cases "timeout_ms = kWaitForever")
    case True
    then show ?thesis using k1 by (simp add: start_timeout_def time_limit_def)
  next
    case False
    have cur: "current_task k1 = Some t" and st: "state (tcbs k1 t) = Blocked"
      and n1: "t < ntasks k1"
      using t nt by (simp_all add: f ntasks_def)
    have "task_ok k L W t" by (rule kinv_task [OF inv nt])
    then have "t \<notin> fst ` set W" using t(2) by (auto dest: task_ok_blocked)
    moreover have "0 < timeout_ms" using n by (simp add: word_gt_0)
    ultimately obtain k2 where k2: "delay_insert (Some t) timeout_ms k1 = Inr k2" "plain k2 = plain k1"
      "kinv k2 (parked k l t L) (insert_wake t (unat timeout_ms) W)"
      using dl.limit [OF k1(3), of t timeout_ms] n1 st by auto
    then show ?thesis
      using k1 cur False by (auto simp: start_timeout_def start_timeout_for_current_task_def time_limit_def)
  qed
qed

text \<open>
  A woken task is made ready, after whatever the object stored in between outside the
  structures.
\<close>

lemma woken_ready:
  assumes inv: "kinv k L W" and l: "\<not> is_ready_list l" and L: "L l = t # ts"
    and d: "detached t k1 (L(l := ts)) (remove_wake t W)"
    and same: "state (tcbs k1 t) = state (tcbs k t)" "priority (tcbs k1 t) = priority (tcbs k t)"
      "base_priority (tcbs k1 t) = base_priority (tcbs k t)"
  shows "\<exists>k2. make_task_ready (Some t) k1 = Inr (outranks_current t k1, k2) \<and>
           plain k2 = plain (upd_tcb t (\<lambda>b. b\<lparr>state := Ready, wait_list := None\<rparr>) k1) \<and>
           kinv k2 (enqueue k t (L(l := ts))) (remove_wake t W)"
proof -
  have n: "t < ntasks k" using kinv_member [OF inv, of t l] L by simp
  have ok: "task_ok k L W t" by (rule kinv_task [OF inv n])
  have "wait_list (tcbs k t) = Some l" using task_ok_wait [OF ok l] L by simp
  then have st: "state (tcbs k t) = Blocked" using task_ok_blocked [OF ok] by simp
  have "enqueue k1 t (L(l := ts)) = enqueue k t (L(l := ts))" by (simp add: enqueue_def same)
  then show ?thesis
    using make_task_ready_ok [OF d awake_none_remove [OF kinv_awake [OF inv]]] st
      task_ok_priority [OF ok] task_ok_base [OF ok]
    by (simp add: same)
qed

lemma hand_over:
  assumes inv: "kinv k L W" and l: "\<not> is_ready_list l" and L: "L l = t # ts"
  shows "\<exists>k1 k2. wake l k = Inr (Some t, k1) \<and>
           make_task_ready (Some t) k1 = Inr (outranks_current t k, k2) \<and>
           plain k2 = plain (upd_tcb t (\<lambda>b. b\<lparr>state := Ready, wait_list := None\<rparr>) k) \<and>
           kinv k2 (enqueue k t (L(l := ts))) (remove_wake t W)"
proof -
  obtain k1 where k1: "wake l k = Inr (Some t, k1)"
    "plain k1 = plain (upd_tcb t (\<lambda>b. b\<lparr>wait_list := None\<rparr>) k)"
    "detached t k1 (L(l := ts)) (remove_wake t W)"
    using wake_some [of k L W l t ts] inv l L by blast
  note f = plainD [OF k1(2)]
  have "outranks_current t k1 = outranks_current t k"
    by (auto simp: outranks_current_def f split: option.splits)
  moreover have same: "state (tcbs k1 t) = state (tcbs k t)" "priority (tcbs k1 t) = priority (tcbs k t)"
      "base_priority (tcbs k1 t) = base_priority (tcbs k t)"
    by (simp_all add: f)
  ultimately obtain k2 where "make_task_ready (Some t) k1 = Inr (outranks_current t k, k2)"
    "plain k2 = plain (upd_tcb t (\<lambda>b. b\<lparr>state := Ready, wait_list := None\<rparr>) k1)"
    "kinv k2 (enqueue k t (L(l := ts))) (remove_wake t W)"
    using woken_ready [OF inv l L k1(3)] by auto
  then show ?thesis using k1(1,2) by (auto simp: plain_upd_tcb upd_tcb_twice)
qed

end

subsection \<open>The model satisfies the contract\<close>

lemma park_ok:
  assumes inv: "kinv k L W" and l: "\<not> is_ready_list l" and t: "t < ntasks k" "state (tcbs k t) = Running"
  shows "\<exists>k'. park l (Some t) k = Inr k' \<and>
           plain k' = plain (upd_tcb t (\<lambda>b. b\<lparr>wait_list := Some l, state := Blocked\<rparr>) k) \<and>
           kinv k' (parked k l t L) W"
proof -
  have b: "kinv_but {} k L W" using inv by (simp add: kinv_def)
  have ok: "task_ok k L W t" by (rule kinv_task [OF inv t(1)])
  have w: "wait_list (tcbs k t) = None" using task_ok_blocked [OF ok] t(2) by auto
  let ?k = "upd_tcb t (\<lambda>b. b\<lparr>wait_list := Some l\<rparr>) (set_state t Blocked k)"
  have d: "detached t ?k L W"
    using detach_resting [OF b t(1)] t(2) by (intro detached_upd) simp_all
  obtain k' where k': "insert_by_priority l (Some t) ?k = Inr k'" "plain k' = plain ?k"
    "kinv_but {} k' (L(l := insert_prio (\<lambda>x. priority (tcbs ?k x)) t (L l))) W"
    using attach_wait [OF detachedD(1,2,3) [OF d] _ _ l] task_ok_priority [OF ok] task_ok_base [OF ok]
    unfolding reshuffled_plain by auto
  have "(\<lambda>x. priority (tcbs ?k x)) = (\<lambda>x. priority (tcbs k x))" by auto
  then have "kinv k' (parked k l t L) W"
    using k'(3) kinv_awake [OF inv] by (simp only: kinv_def parked_def)
  moreover have "plain k' = plain (upd_tcb t (\<lambda>b. b\<lparr>wait_list := Some l, state := Blocked\<rparr>) k)"
    using k'(2) by (auto simp: plain_upd_tcb upd_tcb_twice intro!: upd_tcb_cong)
  ultimately show ?thesis using k'(1) w by (simp add: park_def Let_def)
qed

lemma wake_highest_ok:
  assumes inv: "kinv k L W" and l: "\<not> is_ready_list l" and L: "L l = t # ts"
  shows "\<exists>k'. wake_highest l k = Inr (Some t, k') \<and>
           plain k' = plain (upd_tcb t (\<lambda>b. b\<lparr>wait_list := None\<rparr>) k) \<and>
           detached t k' (L(l := ts)) (remove_wake t W)"
proof -
  have b: "kinv_but {} k L W" using inv by (simp add: kinv_def)
  obtain k1 where k1: "pop_front l k = Inr (Some t, k1)" "reshuffled k k1" "kinv_but {t} k1 (L(l := ts)) W"
    "\<forall>l'. t \<notin> set ((L(l := ts)) l')" "t < ntasks k"
    using pop_wait [OF b l L] by blast
  let ?k2 = "upd_tcb t (\<lambda>b. b\<lparr>wait_list := None\<rparr>) k1"
  have "kinv_but {t} ?k2 (L(l := ts)) W"
    using kinv_but_upd [OF k1(3), of "\<lambda>b. b\<lparr>wait_list := None\<rparr>"] k1(4) by simp
  moreover have "t < ntasks ?k2" using k1(2,5) by (simp add: reshuffled_ntasks)
  ultimately obtain k' where "cancel_timeout (Some t) ?k2 = Inr k'" "plain k' = plain ?k2"
    "detached t k' (L(l := ts)) (remove_wake t W)"
    using cancel_timeout_ok [of t ?k2] k1(4) by blast
  then show ?thesis using k1(1,2) by (auto simp: wake_highest_def reshuffled_plain plain_upd_tcb)
qed

lemma wake_highest_none: "kinv k L W \<Longrightarrow> L l = [] \<Longrightarrow> wake_highest l k = Inr (None, k)"
  by (simp add: wake_highest_def wait_pop_empty [OF kinv_wf])

interpretation wq: waiting park wake_highest
  by unfold_locales (rule park_ok wake_highest_ok wake_highest_none; assumption)+

end
