(* ===== verification/Mutex.thy ===== *)
theory Mutex
  imports Wait_Queue
begin

text \<open>
  \<open>Mutex\<close> (ipc.hpp 80-114, ipc.cpp 111-194): ownership, the list of the mutexes a task
  holds (threaded through \<open>next_held_\<close>), and priority inheritance. \<open>mutex_ok k L H\<close> ties
  the three together: \<open>H t\<close> is the sequence of mutexes task \<open>t\<close> holds, a mutex is in \<open>H t\<close>
  iff its \<open>owner_\<close> is \<open>t\<close>, and only an owned mutex has waiters.
\<close>

subsection \<open>The operations\<close>

definition upd_mutex :: "mutex_id \<Rightarrow> (mutex \<Rightarrow> mutex) \<Rightarrow> kernel \<Rightarrow> kernel" where
  "upd_mutex m f k = k\<lparr>mutexes := (mutexes k)(m := f (mutexes k m))\<rparr>"

definition add_held :: "mutex_id \<Rightarrow> tid \<Rightarrow> kernel \<Rightarrow> kernel" where
  "add_held m t k =
     (let k = upd_mutex m (\<lambda>x. x\<lparr>next_held := held_mutexes (tcbs k t)\<rparr>) k
      in upd_tcb t (\<lambda>b. b\<lparr>held_mutexes := Some m\<rparr>) k)"

text \<open>A \<open>Mutex**\<close>: the place that holds a link of the list.\<close>

datatype held_loc = Held_Head tid | Held_Next mutex_id

fun read_held :: "kernel \<Rightarrow> held_loc \<Rightarrow> mutex_id option" where
  "read_held k (Held_Head t) = held_mutexes (tcbs k t)"
| "read_held k (Held_Next m) = next_held (mutexes k m)"

fun write_held :: "held_loc \<Rightarrow> mutex_id option \<Rightarrow> kernel \<Rightarrow> kernel" where
  "write_held (Held_Head t) v k = upd_tcb t (\<lambda>b. b\<lparr>held_mutexes := v\<rparr>) k"
| "write_held (Held_Next m) v k = upd_mutex m (\<lambda>x. x\<lparr>next_held := v\<rparr>) k"

partial_function (option) held_scan :: "kernel \<Rightarrow> mutex_id \<Rightarrow> held_loc \<Rightarrow> held_loc option" where
  "held_scan k m pp =
     (case read_held k pp of
        None \<Rightarrow> Some pp
      | Some x \<Rightarrow> if x = m then Some pp else held_scan k m (Held_Next x))"

definition remove_held :: "mutex_id \<Rightarrow> tptr \<Rightarrow> kernel \<Rightarrow> kernel res" where
  "remove_held m task k =
     deref task (\<lambda>t.
       andthen (loop_res (held_scan k m (Held_Head t))) (\<lambda>pp.
         let k = (if read_held k pp \<noteq> None then write_held pp (next_held (mutexes k m)) k else k)
         in Inr (upd_mutex m (\<lambda>x. x\<lparr>next_held := None\<rparr>) k)))"

partial_function (option) recompute_loop :: "kernel \<Rightarrow> mutex_id option \<Rightarrow> prio \<Rightarrow> prio option" where
  "recompute_loop k held p =
     (case held of
        None \<Rightarrow> Some p
      | Some m \<Rightarrow>
          recompute_loop k (next_held (mutexes k m))
            (case peek_highest (Mutex_Wait m) k of
               None \<Rightarrow> p
             | Some w \<Rightarrow> if priority (tcbs k w) > p then priority (tcbs k w) else p))"

definition recompute_priority :: "tid \<Rightarrow> kernel \<Rightarrow> prio res" where
  "recompute_priority t k =
     loop_res (recompute_loop k (held_mutexes (tcbs k t)) (base_priority (tcbs k t)))"

definition lock :: "mutex_id \<Rightarrow> kernel \<Rightarrow> (bool outcome \<times> kernel) res" where
  "lock m k =
     acr_assert k (\<not> in_isr k)
      (andthen
        (critical (\<lambda>k.
           acr_assert k (current_task k \<noteq> None)
            (case current_task k of
               None \<Rightarrow> Inr (Returned False, k)
             | Some c \<Rightarrow>
                 (case owner (mutexes k m) of
                    None \<Rightarrow>
                      let k = upd_mutex m (\<lambda>x. x\<lparr>owner := Some c\<rparr>) k
                      in Inr (Returned True, add_held m c k)
                  | Some h \<Rightarrow>
                      if h = c then acr_assert k False (Inr (Returned False, k))
                      else
                        andthen
                          (if priority (tcbs k c) > priority (tcbs k h)
                           then set_task_priority (Some h) (priority (tcbs k c)) k else Inr k)
                          (\<lambda>k.
                            let k = upd_tcb c (\<lambda>b. b\<lparr>timeout_expired := False\<rparr>) k
                            in andthen (park (Mutex_Wait m) (Some c) k) (\<lambda>k. Inr (Waiting, k)))))) k)
        (\<lambda>(r, k). Inr (r, if r = Waiting then task_yield k else k)))"

text \<open>The result of the critical section is \<open>None\<close> for the early \<open>return false\<close>.\<close>

definition unlock :: "mutex_id \<Rightarrow> kernel \<Rightarrow> (bool \<times> kernel) res" where
  "unlock m k =
     andthen
       (critical (\<lambda>k.
          if current_task k \<noteq> owner (mutexes k m)
          then acr_assert k False (Inr (None, k))
          else
            andthen (remove_held m (current_task k) k) (\<lambda>k.
            andthen (wake_highest (Mutex_Wait m) k) (\<lambda>(nxt, k).
            andthen
              (case nxt of
                 Some n \<Rightarrow>
                   let k = upd_mutex m (\<lambda>x. x\<lparr>owner := Some n\<rparr>) k;
                       k = add_held m n k
                   in make_task_ready (Some n) k
               | None \<Rightarrow> Inr (False, upd_mutex m (\<lambda>x. x\<lparr>owner := None\<rparr>) k))
              (\<lambda>(should_preempt, k).
                deref (current_task k) (\<lambda>c.
                andthen (recompute_priority c k) (\<lambda>np.
                  if np \<noteq> priority (tcbs k c)
                  then andthen (set_task_priority (Some c) np k) (\<lambda>k. Inr (Some True, k))
                  else Inr (Some should_preempt, k))))))) k)
       (\<lambda>(r, k).
         case r of
           None \<Rightarrow> Inr (False, k)
         | Some should_preempt \<Rightarrow> Inr (True, if should_preempt then task_yield k else k))"

text \<open>
  \<open>LockGuard\<close>. Where \<open>lock\<close> blocks, the constructor goes on with \<open>lock_guard_resume\<close> when the
  task \<open>t\<close> runs again.
\<close>

definition lock_guard_enter :: "mutex_id \<Rightarrow> kernel \<Rightarrow> (unit outcome \<times> kernel) res" where
  "lock_guard_enter m k =
     andthen (lock m k) (\<lambda>(r, k).
       case r of
         Returned ok \<Rightarrow> acr_assert k ok (Inr (Returned (), k))
       | Waiting \<Rightarrow> Inr (Waiting, k))"

definition lock_guard_resume :: "tid \<Rightarrow> kernel \<Rightarrow> kernel res" where
  "lock_guard_resume t k = acr_assert k (blocked_result t k) (Inr k)"

definition lock_guard_exit :: "mutex_id \<Rightarrow> kernel \<Rightarrow> kernel res" where
  "lock_guard_exit m k = andthen (unlock m k) (\<lambda>(_, k). Inr k)"

subsection \<open>The held lists\<close>

fun held_chain :: "kernel \<Rightarrow> mutex_id option \<Rightarrow> mutex_id list \<Rightarrow> bool" where
  "held_chain k p [] \<longleftrightarrow> p = None"
| "held_chain k p (m # ms) \<longleftrightarrow> p = Some m \<and> held_chain k (next_held (mutexes k m)) ms"

text \<open>The place that holds the link to the first element after a prefix.\<close>

definition loc_after :: "tid \<Rightarrow> mutex_id list \<Rightarrow> held_loc" where
  "loc_after t ms = (if ms = [] then Held_Head t else Held_Next (last ms))"

lemma held_chain_cong:
  "(\<And>m. m \<in> set ms \<Longrightarrow> next_held (mutexes k' m) = next_held (mutexes k m)) \<Longrightarrow>
   held_chain k' p ms = held_chain k p ms"
  by (induction ms arbitrary: p) auto

text \<open>Links of a chain, read at a place: the place after a prefix holds the rest.\<close>

lemma held_chain_read:
  "held_chain k (held_mutexes (tcbs k t)) (ms @ ns) \<Longrightarrow> read_held k (loc_after t ms) = first_of ns"
proof (induction ms arbitrary: ns rule: rev_induct)
  case Nil
  then show ?case by (cases ns) (auto simp: loc_after_def)
next
  case (snoc m ms)
  have *: "held_chain k p (as @ m # bs) \<Longrightarrow> next_held (mutexes k m) = first_of bs" for p as bs
    by (induction as arbitrary: p) (cases bs; auto)+
  show ?case using snoc.prems * [of _ ms ns] by (simp add: loc_after_def)
qed

lemma held_scan_ok:
  assumes "held_chain k (held_mutexes (tcbs k t)) (as @ bs @ m # cs)" and "m \<notin> set bs"
  shows "held_scan k m (loc_after t as) = Some (loc_after t (as @ bs))"
  using assms
proof (induction bs arbitrary: as)
  case Nil
  then have "read_held k (loc_after t as) = Some m"
    using held_chain_read [of k t as "m # cs"] by simp
  then show ?case by (simp add: held_scan.simps [of k m "loc_after t as"])
next
  case (Cons b bs)
  then have "read_held k (loc_after t as) = Some b"
    using held_chain_read [of k t as "b # bs @ m # cs"] by simp
  then have "held_scan k m (loc_after t as) = held_scan k m (loc_after t (as @ [b]))"
    using Cons.prems by (subst held_scan.simps) (simp add: loc_after_def)
  also have "\<dots> = Some (loc_after t ((as @ [b]) @ bs))"
    using Cons.prems by (intro Cons.IH) simp_all
  finally show ?case by simp
qed

lemma held_chain_splice:
  assumes "held_chain k p (as @ m # cs)" and "distinct (as @ m # cs)"
    and "\<And>y. y \<in> set as \<Longrightarrow> next_held (mutexes k' y) =
      (if y = last as then first_of cs else next_held (mutexes k y))"
    and "\<And>y. y \<in> set cs \<Longrightarrow> next_held (mutexes k' y) = next_held (mutexes k y)"
  shows "held_chain k' (if as = [] then first_of cs else p) (as @ cs)"
  using assms
proof (induction as arbitrary: p)
  case Nil
  have "held_chain k (first_of cs) cs" using Nil.prems(1) by (cases cs) auto
  moreover have "held_chain k' (first_of cs) cs = held_chain k (first_of cs) cs"
    by (rule held_chain_cong) (rule Nil.prems(4))
  ultimately show ?case by simp
next
  case (Cons x as)
  have "held_chain k' (if as = [] then first_of cs else next_held (mutexes k x)) (as @ cs)"
  proof (rule Cons.IH)
    show "held_chain k (next_held (mutexes k x)) (as @ m # cs)" using Cons.prems(1) by simp
    show "distinct (as @ m # cs)" using Cons.prems(2) by simp
    fix y
    show "next_held (mutexes k' y) = (if y = last as then first_of cs else next_held (mutexes k y))"
      if "y \<in> set as"
    proof -
      have "last (x # as) = last as" using that by (cases as) simp_all
      then show ?thesis using Cons.prems(3) [of y] that by simp
    qed
    show "next_held (mutexes k' y) = next_held (mutexes k y)" if "y \<in> set cs"
      using Cons.prems(4) that by blast
  qed
  moreover have "next_held (mutexes k' x) = (if as = [] then first_of cs else next_held (mutexes k x))"
  proof -
    have "x \<noteq> last as" if "as \<noteq> []" using Cons.prems(2) last_in_set [OF that] by auto
    then show ?thesis using Cons.prems(3) [of x] by simp
  qed
  ultimately show ?case using Cons.prems(1) by simp
qed

text \<open>The stores of the held lists, and nothing else.\<close>

definition holding :: "(tid \<Rightarrow> mutex_id option) \<Rightarrow> (mutex_id \<Rightarrow> mutex) \<Rightarrow> kernel \<Rightarrow> kernel" where
  "holding h ms k = k\<lparr>tcbs := \<lambda>t. (tcbs k t)\<lparr>held_mutexes := h t\<rparr>, mutexes := ms\<rparr>"

lemma holding_holding [simp]: "holding h ms (holding h' ms' k) = holding h ms k"
  by (simp add: holding_def)

lemma plain_holding [simp]: "plain (holding h ms k) = holding h ms (plain k)"
proof -
  have "(plain_tcb b)\<lparr>held_mutexes := v\<rparr> = plain_tcb (b\<lparr>held_mutexes := v\<rparr>)" for b v
    by simp
  then show ?thesis by (intro kernel.equality) (simp_all add: plain_def holding_def)
qed

lemma wf_kernel_holding [simp]: "wf_kernel (holding h ms k) L W = wf_kernel k L W"
  by (rule wf_kernel_cong) (simp_all add: holding_def)

lemma kinv_but_holding [simp]: "kinv_but X (holding h ms k) L W = kinv_but X k L W"
  by (rule kinv_but_cong) (simp_all, simp_all add: holding_def)

lemma kinv_holding [simp]: "kinv (holding h ms k) L W = kinv k L W"
  by (simp add: kinv_def)

lemma detached_holding [simp]: "detached t (holding h ms k) L W = detached t k L W"
  by (simp add: detached_def) (simp add: holding_def ntasks_def)

lemma holding_fields [simp]:
  "tcbs (holding h ms k) t = (tcbs k t)\<lparr>held_mutexes := h t\<rparr>" "mutexes (holding h ms k) = ms"
  "current_task (holding h ms k) = current_task k" "started (holding h ms k) = started k"
  "use_assert (holding h ms k) = use_assert k" "primask (holding h ms k) = primask k"
  "task_count (holding h ms k) = task_count k" "lists (holding h ms k) = lists k"
  "ipsr (holding h ms k) = ipsr k"
  by (simp_all add: holding_def)

lemma upd_mutex_holding:
  "upd_mutex m f k = holding (\<lambda>t. held_mutexes (tcbs k t)) ((mutexes k)(m := f (mutexes k m))) k"
  by (cases k) (simp add: upd_mutex_def holding_def)

lemma upd_held_holding:
  "upd_tcb t (\<lambda>b. b\<lparr>held_mutexes := v\<rparr>) k =
     holding ((\<lambda>t. held_mutexes (tcbs k t))(t := v)) (mutexes k) k"
  by (cases k) (auto simp: upd_tcb_def holding_def fun_eq_iff)

definition held_lists :: "kernel \<Rightarrow> (tid \<Rightarrow> mutex_id list) \<Rightarrow> bool" where
  "held_lists k H \<longleftrightarrow> (\<forall>t. held_chain k (held_mutexes (tcbs k t)) (H t) \<and> distinct (H t))"

definition owners :: "kernel \<Rightarrow> (tid \<Rightarrow> mutex_id list) \<Rightarrow> bool" where
  "owners k H \<longleftrightarrow> (\<forall>m t. m \<in> set (H t) \<longleftrightarrow> owner (mutexes k m) = Some t)"

lemma add_held_ok:
  assumes hl: "held_lists k H" and new: "\<And>s. m \<notin> set (H s)"
  shows "\<exists>h ms. add_held m t k = holding h ms k \<and> (\<forall>x. owner (ms x) = owner (mutexes k x)) \<and>
           held_lists (add_held m t k) (H(t := m # H t))"
proof -
  let ?k = "add_held m t k"
  have "held_chain ?k p ms = held_chain k p ms" if "m \<notin> set ms" for p ms
    by (rule held_chain_cong) (use that in \<open>auto simp: add_held_def upd_mutex_def Let_def\<close>)
  then have "held_lists ?k (H(t := m # H t))"
    using hl new unfolding held_lists_def
    by (auto simp: add_held_def upd_mutex_def Let_def)
  moreover have "\<exists>h ms. ?k = holding h ms k \<and> (\<forall>x. owner (ms x) = owner (mutexes k x))"
    unfolding add_held_def Let_def upd_held_holding upd_mutex_holding holding_holding
    by (intro exI conjI) (rule refl, simp)
  ultimately show ?thesis by metis
qed

lemma remove_held_ok:
  assumes hl: "held_lists k H" and m: "m \<in> set (H t)"
    and dis: "\<And>s. s \<noteq> t \<Longrightarrow> set (H s) \<inter> set (H t) = {}"
  shows "\<exists>k' h ms. remove_held m (Some t) k = Inr k' \<and> k' = holding h ms k \<and>
           (\<forall>x. owner (ms x) = owner (mutexes k x)) \<and> held_lists k' (H(t := remove1 m (H t)))"
proof -
  obtain as cs where H: "H t = as @ m # cs" using m by (auto dest: split_list)
  have ch: "held_chain k (held_mutexes (tcbs k t)) (as @ m # cs)" and d: "distinct (as @ m # cs)"
    using hl H by (metis held_lists_def)+
  have scan: "held_scan k m (Held_Head t) = Some (loc_after t as)"
    using held_scan_ok [of k t "[]" as m cs] ch d by (simp add: loc_after_def)
  have nx: "next_held (mutexes k m) = first_of cs" and rd: "read_held k (loc_after t as) = Some m"
    using held_chain_read [of k t "as @ [m]" cs] held_chain_read [of k t as "m # cs"] ch
    by (simp_all add: loc_after_def split: if_splits)
  define k1 where "k1 = write_held (loc_after t as) (first_of cs) k"
  define k' where "k' = upd_mutex m (\<lambda>x. x\<lparr>next_held := None\<rparr>) k1"
  have run: "remove_held m (Some t) k = Inr k'"
    using scan nx rd by (simp add: remove_held_def k'_def k1_def Let_def)
  have "\<exists>h ms. k1 = holding h ms k \<and> (\<forall>x. owner (ms x) = owner (mutexes k x))"
    unfolding k1_def loc_after_def
    by (cases "as = []") (simp_all add: upd_held_holding upd_mutex_holding, (intro exI conjI; (rule refl)?; simp)+)
  then obtain h ms where k1: "k1 = holding h ms k" "\<forall>x. owner (ms x) = owner (mutexes k x)" by blast
  have k': "k' = holding h (ms(m := (ms m)\<lparr>next_held := None\<rparr>)) k"
    unfolding k'_def upd_mutex_holding k1(1) by simp
  have nxt: "next_held (mutexes k' y) =
      (if y = m then None else if as \<noteq> [] \<and> y = last as then first_of cs else next_held (mutexes k y))" for y
    by (auto simp: k'_def k1_def loc_after_def upd_mutex_def)
  have hd: "held_mutexes (tcbs k' s) = (if s = t \<and> as = [] then first_of cs else held_mutexes (tcbs k s))" for s
    by (auto simp: k'_def k1_def loc_after_def upd_mutex_def)
  have "held_chain k' (held_mutexes (tcbs k' t)) (as @ cs)"
  proof -
    have "last as \<notin> set cs" if "as \<noteq> []"
      using last_in_set [OF that] d by (auto simp: disjoint_iff)
    then have "held_chain k' (if as = [] then first_of cs else held_mutexes (tcbs k t)) (as @ cs)"
      by (intro held_chain_splice [OF ch d]) (use d in \<open>auto simp: nxt\<close>)
    then show ?thesis by (simp add: hd)
  qed
  moreover have "held_chain k' (held_mutexes (tcbs k' s)) (H s)" if "s \<noteq> t" for s
  proof -
    have "y \<noteq> m \<and> (as \<noteq> [] \<longrightarrow> y \<noteq> last as)" if "y \<in> set (H s)" for y
      using dis [OF \<open>s \<noteq> t\<close>] that H by fastforce
    then have "held_chain k' (held_mutexes (tcbs k s)) (H s) = held_chain k (held_mutexes (tcbs k s)) (H s)"
      by (intro held_chain_cong) (metis nxt)
    then show ?thesis using hl that by (simp add: hd held_lists_def)
  qed
  ultimately have "held_lists k' (H(t := remove1 m (H t)))"
    using hl d H by (auto simp: held_lists_def remove1_split)
  moreover have "\<forall>x. owner ((ms(m := (ms m)\<lparr>next_held := None\<rparr>)) x) = owner (mutexes k x)"
    using k1(2) by simp
  ultimately show ?thesis using run k' by metis
qed

subsection \<open>The priority of an owner\<close>

definition inherited ::
  "kernel \<Rightarrow> (list_id \<Rightarrow> tid list) \<Rightarrow> mutex_id list \<Rightarrow> prio \<Rightarrow> prio" where
  "inherited k L ms p =
     fold (\<lambda>m p. case L (Mutex_Wait m) of [] \<Rightarrow> p | w # _ \<Rightarrow> max p (priority (tcbs k w))) ms p"

lemma inherited_simps [simp]:
  "inherited k L [] p = p"
  "inherited k L (m # ms) p =
     inherited k L ms (case L (Mutex_Wait m) of [] \<Rightarrow> p | w # _ \<Rightarrow> max p (priority (tcbs k w)))"
  by (simp_all add: inherited_def)

lemma inherited_cong:
  assumes "\<And>m. m \<in> set ms \<Longrightarrow> L' (Mutex_Wait m) = L (Mutex_Wait m)"
    and "\<And>t. priority (tcbs k' t) = priority (tcbs k t)"
  shows "inherited k' L' ms p = inherited k L ms p"
  using assms by (induction ms arbitrary: p) (auto split: list.splits)

lemma recompute_loop_ok:
  assumes "held_chain k h ms" and "wf_kernel k L W"
  shows "recompute_loop k h p = Some (inherited k L ms p)"
  using assms(1)
proof (induction ms arbitrary: h p)
  case Nil
  then show ?case by (simp add: recompute_loop.simps [of k None])
next
  case (Cons m ms)
  have pk: "peek_highest (Mutex_Wait m) k = first_of (L (Mutex_Wait m))"
    using peek_front_ok [OF assms(2)] by (simp add: peek_highest_def)
  show ?case using Cons
    by (cases "L (Mutex_Wait m)") (auto simp: recompute_loop.simps [of k "Some m"] pk max_def)
qed

lemma recompute_priority_ok:
  assumes "held_lists k H" and "wf_kernel k L W"
  shows "recompute_priority t k = Inr (inherited k L (H t) (base_priority (tcbs k t)))"
  using assms recompute_loop_ok [of k "held_mutexes (tcbs k t)" "H t"]
  by (simp add: recompute_priority_def held_lists_def)

lemma inherited_ge: "p \<le> inherited k L ms p"
proof (induction ms arbitrary: p)
  case (Cons m ms)
  have "p \<le> (case L (Mutex_Wait m) of [] \<Rightarrow> p | w # _ \<Rightarrow> max p (priority (tcbs k w)))"
    by (simp split: list.splits)
  with Cons [of "case L (Mutex_Wait m) of [] \<Rightarrow> p | w # _ \<Rightarrow> max p (priority (tcbs k w))"]
  show ?case by (simp del: max_less_iff_conj)
qed simp

lemma inherited_waiter:
  assumes "wait_sorted k L" and "m \<in> set ms" and "x \<in> set (L (Mutex_Wait m))"
  shows "priority (tcbs k x) \<le> inherited k L ms p"
  using assms(2)
proof (induction ms arbitrary: p)
  case (Cons n ms)
  let ?p = "case L (Mutex_Wait n) of [] \<Rightarrow> p | w # _ \<Rightarrow> max p (priority (tcbs k w))"
  show ?case
  proof (cases "n = m")
    case True
    have "prio_sorted (\<lambda>x. priority (tcbs k x)) (L (Mutex_Wait m))"
      using assms(1) by (simp add: wait_sorted_def)
    then have "priority (tcbs k x) \<le> ?p"
      using True assms(3) by (cases "L (Mutex_Wait m)") (auto simp: le_max_iff_disj)
    then show ?thesis using inherited_ge [of ?p k L ms] by simp
  next
    case False
    then show ?thesis using Cons by simp
  qed
qed simp

lemma inherited_witness:
  "inherited k L ms p = p \<or> (\<exists>m \<in> set ms. \<exists>x \<in> set (L (Mutex_Wait m)). inherited k L ms p = priority (tcbs k x))"
proof (induction ms arbitrary: p)
  case (Cons m ms)
  show ?case
  proof (cases "L (Mutex_Wait m)")
    case Nil
    then show ?thesis using Cons [of p] by auto
  next
    case (Cons w ws)
    define q where "q = max p (priority (tcbs k w))"
    have q: "q = p \<or> q = priority (tcbs k w)" by (auto simp: q_def max_def)
    have w: "w \<in> set (L (Mutex_Wait m))" using Cons by simp
    have e: "inherited k L (m # ms) p = inherited k L ms q" using Cons by (simp add: q_def)
    show ?thesis unfolding e using Cons.IH [of q] q w by (metis list.set_intros)
  qed
qed simp

text \<open>The loop of \<open>recompute_priority\<close> looks at first waiters only; as the wait lists are sorted this
  is the maximum over all waiters.\<close>

lemma inherited_Max:
  assumes "wait_sorted k L"
  shows "inherited k L ms p =
    Max (insert p (\<Union>m \<in> set ms. (\<lambda>t. priority (tcbs k t)) ` set (L (Mutex_Wait m))))"
proof (rule Max_eqI [symmetric])
  show "finite (insert p (\<Union>m \<in> set ms. (\<lambda>t. priority (tcbs k t)) ` set (L (Mutex_Wait m))))"
    by simp
  show "y \<le> inherited k L ms p"
    if "y \<in> insert p (\<Union>m \<in> set ms. (\<lambda>t. priority (tcbs k t)) ` set (L (Mutex_Wait m)))" for y
    using that inherited_ge [of p] inherited_waiter [OF assms] by blast
  show "inherited k L ms p \<in> insert p (\<Union>m \<in> set ms. (\<lambda>t. priority (tcbs k t)) ` set (L (Mutex_Wait m)))"
    using inherited_witness [of k L ms p] by blast
qed

lemma inherited_bound:
  assumes inv: "kinv k L W" and "p < 32"
  shows "inherited k L ms p < 32"
  using inherited_witness [of k L ms p]
proof
  assume "\<exists>m \<in> set ms. \<exists>x \<in> set (L (Mutex_Wait m)). inherited k L ms p = priority (tcbs k x)"
  then obtain m x where "x \<in> set (L (Mutex_Wait m))" "inherited k L ms p = priority (tcbs k x)" by blast
  then show ?thesis using task_ok_priority [OF kinv_task [OF inv kinv_member [OF inv]]] by metis
qed (use assms in simp)

subsection \<open>The invariant of the mutexes\<close>

definition mutex_ok :: "kernel \<Rightarrow> (list_id \<Rightarrow> tid list) \<Rightarrow> (tid \<Rightarrow> mutex_id list) \<Rightarrow> bool" where
  "mutex_ok k L H \<longleftrightarrow>
     held_lists k H \<and> owners k H \<and>
     (\<forall>m. L (Mutex_Wait m) \<noteq> [] \<longrightarrow> owner (mutexes k m) \<noteq> None) \<and>
     (\<forall>m t. owner (mutexes k m) = Some t \<longrightarrow> t < ntasks k)"

lemma held_lists_cong:
  assumes "\<And>t. held_mutexes (tcbs k' t) = held_mutexes (tcbs k t)"
    and "\<And>m. next_held (mutexes k' m) = next_held (mutexes k m)"
  shows "held_lists k' H = held_lists k H"
  using held_chain_cong [of _ k' k] assms by (simp add: held_lists_def)

lemma owners_disjoint: "owners k H \<Longrightarrow> s \<noteq> t \<Longrightarrow> set (H s) \<inter> set (H t) = {}"
  by (auto simp: owners_def)

lemma mutex_ok_plain:
  assumes "plain k' = plain k"
  shows "mutex_ok k' L H = mutex_ok k L H"
proof -
  note f = plainD [OF assms]
  have "held_lists k' H = held_lists k H" by (rule held_lists_cong) (simp_all add: f)
  then show ?thesis by (simp add: mutex_ok_def owners_def ntasks_def f)
qed

lemma mutex_ok_upd [simp]:
  "mutex_ok (upd_tcb t (\<lambda>b. b\<lparr>priority := p\<rparr>) k) L H = mutex_ok k L H"
  "mutex_ok (upd_tcb t (\<lambda>b. b\<lparr>state := s\<rparr>) k) L H = mutex_ok k L H"
  "mutex_ok (upd_tcb t (\<lambda>b. b\<lparr>wait_list := wl\<rparr>) k) L H = mutex_ok k L H"
  "mutex_ok (upd_tcb t (\<lambda>b. b\<lparr>timeout_expired := e\<rparr>) k) L H = mutex_ok k L H"
  "mutex_ok (k\<lparr>primask := b\<rparr>) L H = mutex_ok k L H"
  "mutex_ok (task_yield k) L H = mutex_ok k L H" "mutex_ok (yield_if b k) L H = mutex_ok k L H"
proof -
  have "held_lists (upd_tcb t (\<lambda>b. b\<lparr>priority := p\<rparr>) k) H = held_lists k H"
    "held_lists (upd_tcb t (\<lambda>b. b\<lparr>state := s\<rparr>) k) H = held_lists k H"
    "held_lists (upd_tcb t (\<lambda>b. b\<lparr>wait_list := wl\<rparr>) k) H = held_lists k H"
    "held_lists (upd_tcb t (\<lambda>b. b\<lparr>timeout_expired := e\<rparr>) k) H = held_lists k H"
    "held_lists (k\<lparr>primask := b\<rparr>) H = held_lists k H"
    "held_lists (task_yield k) H = held_lists k H" "held_lists (yield_if b k) H = held_lists k H"
    by (rule held_lists_cong; simp add: task_yield_def yield_if_def)+
  then show "mutex_ok (upd_tcb t (\<lambda>b. b\<lparr>priority := p\<rparr>) k) L H = mutex_ok k L H"
  "mutex_ok (upd_tcb t (\<lambda>b. b\<lparr>state := s\<rparr>) k) L H = mutex_ok k L H"
  "mutex_ok (upd_tcb t (\<lambda>b. b\<lparr>wait_list := wl\<rparr>) k) L H = mutex_ok k L H"
  "mutex_ok (upd_tcb t (\<lambda>b. b\<lparr>timeout_expired := e\<rparr>) k) L H = mutex_ok k L H"
  "mutex_ok (k\<lparr>primask := b\<rparr>) L H = mutex_ok k L H"
  "mutex_ok (task_yield k) L H = mutex_ok k L H" "mutex_ok (yield_if b k) L H = mutex_ok k L H"
    by (simp_all add: mutex_ok_def owners_def ntasks_def task_yield_def yield_if_def)
qed

subsection \<open>Locking\<close>

lemma lock_free_ok:
  assumes inv: "kinv k L W" and mu: "mutex_ok k L H" and isr: "ipsr k = 0"
    and c: "current_task k = Some c" and free: "owner (mutexes k m) = None"
  shows "\<exists>k' h ms. lock m k = Inr (Returned True, k') \<and> plain k' = plain (holding h ms k) \<and>
           kinv k' L W \<and> mutex_ok k' L (H(c := m # H c)) \<and> owner (mutexes k' m) = Some c"
proof -
  let ?k1 = "upd_mutex m (\<lambda>x. x\<lparr>owner := Some c\<rparr>) (k\<lparr>primask := True\<rparr>)"
  have hl: "held_lists ?k1 H"
    using mu by (subst held_lists_cong [where k = k]) (auto simp: mutex_ok_def upd_mutex_def)
  have new: "m \<notin> set (H s)" for s using mu free by (auto simp: mutex_ok_def owners_def)
  obtain h ms where hm: "add_held m c ?k1 = holding h ms ?k1"
    "\<forall>x. owner (ms x) = owner (mutexes ?k1 x)" "held_lists (add_held m c ?k1) (H(c := m # H c))"
    using add_held_ok [of ?k1 H m c] hl new by blast
  define k' where "k' = (add_held m c ?k1)\<lparr>primask := primask k\<rparr>"
  have run: "lock m k = Inr (Returned True, k')"
    using c free isr by (simp add: lock_def in_isr_def critical_def enter_critical_def exit_critical_def
        Let_def k'_def)
  have own: "owner (mutexes k' x) = (if x = m then Some c else owner (mutexes k x))" for x
    unfolding k'_def hm(1) using hm(2) by (simp add: upd_mutex_def)
  have hk: "k' = holding h ms k"
    unfolding k'_def hm(1) by (cases k) (simp add: upd_mutex_def holding_def)
  have "held_lists k' (H(c := m # H c))"
    using hm(3) by (subst held_lists_cong [where k = "add_held m c ?k1"]) (simp_all add: k'_def)
  moreover have "owners k' (H(c := m # H c))"
    using mu new free by (auto simp: mutex_ok_def owners_def own)
  moreover have "c < ntasks k" by (rule kinv_current [OF inv c])
  moreover have "ntasks k' = ntasks k" by (simp add: hk ntasks_def)
  ultimately have "mutex_ok k' L (H(c := m # H c))"
    using mu unfolding mutex_ok_def by (auto simp: own)
  then show ?thesis using run own [of m] hk inv
    by (intro exI [of _ k'] exI [of _ h] exI [of _ ms]) simp
qed

lemma lock_own:
  assumes "ipsr k = 0" and "current_task k = Some c" and "owner (mutexes k m) = Some c"
  shows "lock m k = (if use_assert k then Inl AssertFailed else Inr (Returned False, k))"
  using assms by (simp add: lock_def in_isr_def acr_assert_def critical_def enter_critical_def
      exit_critical_def)

text \<open>The owner is raised to the priority of the caller, if that is higher; the caller blocks.\<close>

definition raise_owner :: "tid \<Rightarrow> tid \<Rightarrow> kernel \<Rightarrow> kernel" where
  "raise_owner h c k =
     (if priority (tcbs k c) > priority (tcbs k h)
      then upd_tcb h (\<lambda>b. b\<lparr>priority := priority (tcbs k c)\<rparr>) k else k)"

definition raise_lists :: "tid \<Rightarrow> tid \<Rightarrow> kernel \<Rightarrow> (list_id \<Rightarrow> tid list) \<Rightarrow> list_id \<Rightarrow> tid list" where
  "raise_lists h c k L =
     (if priority (tcbs k c) > priority (tcbs k h) then reprioritize k h (priority (tcbs k c)) L else L)"

lemma lock_blocks:
  assumes inv: "kinv k L W" and mu: "mutex_ok k L H" and isr: "ipsr k = 0"
    and c: "current_task k = Some c" "state (tcbs k c) = Running"
    and h: "owner (mutexes k m) = Some h" "h \<noteq> c"
  shows "\<exists>k'. lock m k = Inr (Waiting, k') \<and>
           plain k' = plain (task_yield (blocked_store (Mutex_Wait m) c (raise_owner h c k))) \<and>
           kinv k' (parked (raise_owner h c k) (Mutex_Wait m) c (raise_lists h c k L)) W"
proof -
  let ?k = "k\<lparr>primask := True\<rparr>" and ?p = "priority (tcbs k c)"
  have inv': "kinv ?k L W" using inv by simp
  have cn: "c < ntasks k" by (rule kinv_current [OF inv c(1)])
  have hn: "h < ntasks k" using mu h by (simp add: mutex_ok_def)
  have p32: "?p < 32" by (rule task_ok_priority [OF kinv_task [OF inv cn]])
  have "\<exists>k1. (if priority (tcbs ?k c) > priority (tcbs ?k h)
            then set_task_priority (Some h) (priority (tcbs ?k c)) ?k else Inr ?k) = Inr k1 \<and>
          plain k1 = plain (raise_owner h c ?k) \<and> kinv k1 (raise_lists h c k L) W"
  proof (cases "?p > priority (tcbs k h)")
    case True
    have "base_priority (tcbs k h) \<le> ?p"
      using task_ok_base [OF kinv_task [OF inv hn]] True by simp
    moreover have "reprioritize ?k h ?p L = reprioritize k h ?p L"
      by (rule reprioritize_cong) simp_all
    ultimately show ?thesis
      using set_task_priority_ok [OF inv', of h ?p] hn p32 True
      by (auto simp: raise_owner_def raise_lists_def)
  next
    case False
    then show ?thesis using inv' by (simp add: raise_owner_def raise_lists_def)
  qed
  then obtain k1 where k1: "(if priority (tcbs ?k c) > priority (tcbs ?k h)
            then set_task_priority (Some h) (priority (tcbs ?k c)) ?k else Inr ?k) = Inr k1"
    "plain k1 = plain (raise_owner h c ?k)" "kinv k1 (raise_lists h c k L) W" by blast
  note f1 = plainD [OF k1(2)]
  let ?k2 = "upd_tcb c (\<lambda>b. b\<lparr>timeout_expired := False\<rparr>) k1"
  have st: "state (tcbs k1 c) = Running" "ntasks k1 = ntasks k" "current_task k1 = Some c"
    using c by (simp_all add: f1 raise_owner_def ntasks_def)
  obtain k3 where k3: "park (Mutex_Wait m) (Some c) ?k2 = Inr k3"
    "plain k3 = plain (upd_tcb c (\<lambda>b. b\<lparr>wait_list := Some (Mutex_Wait m), state := Blocked\<rparr>) ?k2)"
    "kinv k3 (parked ?k2 (Mutex_Wait m) c (raise_lists h c k L)) W"
    using wq.park [of ?k2 "raise_lists h c k L" W "Mutex_Wait m" c] k1(3) st cn by auto
  have pk: "parked ?k2 (Mutex_Wait m) c M = parked (raise_owner h c k) (Mutex_Wait m) c M" for M
    by (rule parked_cong) (simp add: f1 raise_owner_def)
  let ?k' = "task_yield (k3\<lparr>primask := primask k\<rparr>)"
  have "lock m k = Inr (Waiting, ?k')"
    using k1(1) k3(1) c h isr
    by (simp add: lock_def in_isr_def critical_def enter_critical_def exit_critical_def Let_def)
  moreover have "plain ?k' = plain (task_yield (blocked_store (Mutex_Wait m) c (raise_owner h c k)))"
    using k3(2) k1(2) by (auto simp: blocked_store_def plain_upd_tcb upd_tcb_twice raise_owner_def)
  ultimately show ?thesis using k3(3) pk by simp
qed

lemma mutex_ok_lists:
  assumes "mutex_ok k L H" and "\<And>m. L' (Mutex_Wait m) \<noteq> [] \<Longrightarrow> L (Mutex_Wait m) \<noteq> [] \<or> owner (mutexes k m) \<noteq> None"
  shows "mutex_ok k L' H"
  using assms unfolding mutex_ok_def by blast

lemma reprioritize_nonempty:
  assumes inv: "kinv k L W" and t: "t < ntasks k" and "reprioritize k t p L (Mutex_Wait m) \<noteq> []"
  shows "L (Mutex_Wait m) \<noteq> []"
proof -
  have "wait_list (tcbs k t) = Some (Mutex_Wait m) \<Longrightarrow> t \<in> set (L (Mutex_Wait m))"
    using task_ok_wait_list [OF kinv_task [OF inv t]] by blast
  then show ?thesis using assms(3)
    by (auto simp: reprioritize_def without_def split: if_splits option.splits)
qed

lemma lock_blocks_mutex_ok:
  assumes inv: "kinv k L W" and mu: "mutex_ok k L H" and h: "owner (mutexes k m) = Some h"
    and k': "plain k' = plain (task_yield (blocked_store (Mutex_Wait m) c (raise_owner h c k)))"
  shows "mutex_ok k' (parked (raise_owner h c k) (Mutex_Wait m) c (raise_lists h c k L)) H"
proof -
  have hn: "h < ntasks k" using mu h by (simp add: mutex_ok_def)
  have "mutex_ok k' L H = mutex_ok k L H"
  proof -
    have "mutex_ok (blocked_store (Mutex_Wait m) c k0) L H = mutex_ok k0 L H" for k0
    proof -
      have "held_lists (blocked_store (Mutex_Wait m) c k0) H = held_lists k0 H"
        by (rule held_lists_cong) (simp_all add: blocked_store_def)
      then show ?thesis by (simp add: mutex_ok_def owners_def blocked_store_def)
    qed
    then show ?thesis by (simp add: mutex_ok_plain [OF k'] raise_owner_def)
  qed
  then have "mutex_ok k' L H" using mu by simp
  moreover have "owner (mutexes k' m) = Some h"
    using plainD(20) [OF k'] h by (simp add: blocked_store_def raise_owner_def)
  ultimately show ?thesis
  proof (rule_tac mutex_ok_lists)
    fix x assume "parked (raise_owner h c k) (Mutex_Wait m) c (raise_lists h c k L) (Mutex_Wait x) \<noteq> []"
    then have "x = m \<or> raise_lists h c k L (Mutex_Wait x) \<noteq> []"
      by (auto simp: parked_def split: if_splits)
    then show "L (Mutex_Wait x) \<noteq> [] \<or> owner (mutexes k' x) \<noteq> None"
      using \<open>owner (mutexes k' m) = Some h\<close> reprioritize_nonempty [OF inv hn]
      by (auto simp: raise_lists_def split: if_splits)
  qed
qed

subsection \<open>Unlocking\<close>

definition next_owner_lists :: "kernel \<Rightarrow> mutex_id \<Rightarrow> (list_id \<Rightarrow> tid list) \<Rightarrow> list_id \<Rightarrow> tid list" where
  "next_owner_lists k m L =
     (case L (Mutex_Wait m) of [] \<Rightarrow> L | n # ts \<Rightarrow> enqueue k n (L(Mutex_Wait m := ts)))"

definition next_owner_wake :: "mutex_id \<Rightarrow> (list_id \<Rightarrow> tid list) \<Rightarrow> (tid \<times> nat) list \<Rightarrow> (tid \<times> nat) list" where
  "next_owner_wake m L W = (case L (Mutex_Wait m) of [] \<Rightarrow> W | n # ts \<Rightarrow> remove_wake n W)"

definition next_owner_held ::
  "tid \<Rightarrow> mutex_id \<Rightarrow> (list_id \<Rightarrow> tid list) \<Rightarrow> (tid \<Rightarrow> mutex_id list) \<Rightarrow> tid \<Rightarrow> mutex_id list" where
  "next_owner_held c m L H =
     (let H' = H(c := remove1 m (H c))
      in case L (Mutex_Wait m) of [] \<Rightarrow> H' | n # ts \<Rightarrow> H'(n := m # H' n))"

definition next_owner_store :: "mutex_id \<Rightarrow> (list_id \<Rightarrow> tid list) \<Rightarrow> kernel \<Rightarrow> kernel" where
  "next_owner_store m L k =
     (case L (Mutex_Wait m) of [] \<Rightarrow> k
      | n # ts \<Rightarrow> upd_tcb n (\<lambda>b. b\<lparr>state := Ready, wait_list := None\<rparr>) k)"

lemma upd_tcb_holding:
  assumes "\<And>b v. f (b\<lparr>held_mutexes := v\<rparr>) = (f b)\<lparr>held_mutexes := v\<rparr>"
  shows "upd_tcb t f (holding h ms k) = holding h ms (upd_tcb t f k)"
  using assms by (intro kernel.equality) (auto simp: upd_tcb_def holding_def fun_eq_iff)

lemma held_lists_field [simp]:
  "held_lists (upd_mutex m (\<lambda>x. x\<lparr>owner := v\<rparr>) k) H = held_lists k H"
  "held_lists (k\<lparr>primask := b\<rparr>) H = held_lists k H"
  by (rule held_lists_cong; simp add: upd_mutex_def)+

text \<open>The wait queue names the next owner; the mutex is its, and it is ready.\<close>

lemma unlock_next:
  assumes inv: "kinv k L W" and hl: "held_lists k H" and free: "\<And>s. m \<notin> set (H s)"
  shows "\<exists>k3 h ms. andthen (wake_highest (Mutex_Wait m) k) (\<lambda>(nxt, k).
              case nxt of
                 Some n \<Rightarrow>
                   let k = upd_mutex m (\<lambda>x. x\<lparr>owner := Some n\<rparr>) k;
                       k = add_held m n k
                   in make_task_ready (Some n) k
               | None \<Rightarrow> Inr (False, upd_mutex m (\<lambda>x. x\<lparr>owner := None\<rparr>) k)) =
             Inr (\<exists>n. first_of (L (Mutex_Wait m)) = Some n \<and> outranks_current n k, k3) \<and>
           plain k3 = plain (holding h ms (next_owner_store m L k)) \<and>
           kinv k3 (next_owner_lists k m L) (next_owner_wake m L W) \<and>
           (\<forall>x. owner (mutexes k3 x) = (if x = m then first_of (L (Mutex_Wait m)) else owner (mutexes k x))) \<and>
           held_lists k3 (case L (Mutex_Wait m) of [] \<Rightarrow> H | n # ts \<Rightarrow> H(n := m # H n))"
proof (cases "L (Mutex_Wait m)")
  case Nil
  have w: "wake_highest (Mutex_Wait m) k = Inr (None, k)" by (rule wq.wake_none [OF inv Nil])
  let ?k3 = "upd_mutex m (\<lambda>x. x\<lparr>owner := None\<rparr>) k"
  have "kinv ?k3 L W" using inv unfolding upd_mutex_holding by simp
  moreover have "held_lists ?k3 H" using hl by simp
  moreover have "owner (mutexes ?k3 x) = (if x = m then None else owner (mutexes k x))" for x
    by (simp add: upd_mutex_def)
  ultimately show ?thesis
    using w Nil by (simp add: next_owner_lists_def next_owner_wake_def next_owner_store_def)
      (use upd_mutex_holding [of m _ k] in auto)
next
  case (Cons n ts)
  obtain k2 where k2: "wake_highest (Mutex_Wait m) k = Inr (Some n, k2)"
    "plain k2 = plain (upd_tcb n (\<lambda>b. b\<lparr>wait_list := None\<rparr>) k)"
    "detached n k2 (L(Mutex_Wait m := ts)) (remove_wake n W)"
    using wq.wake_some [OF inv _ Cons] by auto
  note f2 = plainD [OF k2(2)]
  let ?k2 = "upd_mutex m (\<lambda>x. x\<lparr>owner := Some n\<rparr>) k2"
  have "held_lists k2 H = held_lists k H" by (rule held_lists_cong) (simp_all add: f2)
  then have "held_lists ?k2 H" using hl by simp
  then obtain h ms where hm: "add_held m n ?k2 = holding h ms ?k2"
    "\<And>x. owner (ms x) = owner (mutexes ?k2 x)" "held_lists (add_held m n ?k2) (H(n := m # H n))"
    using add_held_ok [of ?k2 H m n] free by blast
  have hk: "add_held m n ?k2 = holding h ms k2"
    using hm(1) by (simp add: upd_mutex_holding)
  have d: "detached n (add_held m n ?k2) (L(Mutex_Wait m := ts)) (remove_wake n W)"
    unfolding hk using k2(3) by simp
  have same: "state (tcbs (add_held m n ?k2) n) = state (tcbs k n)"
    "priority (tcbs (add_held m n ?k2) n) = priority (tcbs k n)"
    "base_priority (tcbs (add_held m n ?k2) n) = base_priority (tcbs k n)"
    unfolding hk by (simp_all add: f2)
  have o: "outranks_current n (add_held m n ?k2) = outranks_current n k"
    unfolding hk by (rule outranks_cong) (simp_all add: f2)
  obtain k3 where k3: "make_task_ready (Some n) (add_held m n ?k2) = Inr (outranks_current n k, k3)"
    "plain k3 = plain (upd_tcb n (\<lambda>b. b\<lparr>state := Ready, wait_list := None\<rparr>) (add_held m n ?k2))"
    "kinv k3 (enqueue k n (L(Mutex_Wait m := ts))) (remove_wake n W)"
    using wq.woken_ready [OF inv _ Cons d same] unfolding o by auto
  note f3 = plainD [OF k3(2)]
  have "held_lists k3 (H(n := m # H n)) = held_lists (add_held m n ?k2) (H(n := m # H n))"
    by (rule held_lists_cong) (simp_all add: f3)
  moreover have "owner (mutexes k3 x) = (if x = m then Some n else owner (mutexes k x))" for x
  proof -
    have "mutexes k3 = ms" by (simp add: f3 hk)
    then show ?thesis using hm(2) [of x] by (simp add: upd_mutex_def f2)
  qed
  moreover have "plain k3 = plain (holding h ms (next_owner_store m L k))"
  proof -
    have "plain k3 = upd_tcb n (\<lambda>b. b\<lparr>state := Ready, wait_list := None\<rparr>) (holding h ms (plain k2))"
      using k3(2) unfolding hk by (simp add: plain_upd_tcb)
    also have "\<dots> = holding h ms (upd_tcb n (\<lambda>b. b\<lparr>state := Ready, wait_list := None\<rparr>) (plain k2))"
      by (rule upd_tcb_holding) simp
    also have "\<dots> = plain (holding h ms (next_owner_store m L k))"
      using k2(2) Cons by (simp add: next_owner_store_def plain_upd_tcb upd_tcb_twice)
    finally show ?thesis .
  qed
  ultimately show ?thesis
    using k2(1) k3(1,3) hm(3) Cons
    by (intro exI [of _ k3] exI [of _ h] exI [of _ ms])
      (simp add: Let_def next_owner_lists_def next_owner_wake_def)
qed

lemma next_owner_lists_mutex:
  "x \<noteq> m \<Longrightarrow> next_owner_lists k m L (Mutex_Wait x) = L (Mutex_Wait x)"
  "next_owner_lists k m L (Mutex_Wait m) \<noteq> [] \<Longrightarrow> first_of (L (Mutex_Wait m)) \<noteq> None"
  by (auto simp: next_owner_lists_def enqueue_def Let_def split: list.splits)

lemma next_owner_store_simps:
  "priority (tcbs (next_owner_store m L k) s) = priority (tcbs k s)"
  "base_priority (tcbs (next_owner_store m L k) s) = base_priority (tcbs k s)"
  "current_task (next_owner_store m L k) = current_task k"
  "task_count (next_owner_store m L k) = task_count k"
  "primask (next_owner_store m L k) = primask k"
  by (auto simp: next_owner_store_def split: list.splits)

lemma first_waiter:
  assumes inv: "kinv k L W" and n: "first_of (L (Mutex_Wait m)) = Some n"
  shows "n < ntasks k" and "state (tcbs k n) = Blocked"
proof -
  have "n \<in> set (L (Mutex_Wait m))" using n by (rule first_of_in)
  moreover from this show t: "n < ntasks k" by (rule kinv_member [OF inv])
  ultimately show "state (tcbs k n) = Blocked"
    using kinv_task [OF inv t] task_ok_wait [of k L W n "Mutex_Wait m"] by (auto dest: task_ok_blocked)
qed

lemma unlock_locked:
  assumes inv: "kinv k L W" and mu: "mutex_ok k L H"
    and c: "current_task k = Some c" "state (tcbs k c) = Running"
    and own: "owner (mutexes k m) = Some c"
    and np: "np = inherited k L (remove1 m (H c)) (base_priority (tcbs k c))"
    and b: "b \<longleftrightarrow> (\<exists>n. first_of (L (Mutex_Wait m)) = Some n \<and> outranks_current n k)"
  shows "\<exists>k' h ms.
     andthen (remove_held m (current_task k) k) (\<lambda>k.
            andthen (wake_highest (Mutex_Wait m) k) (\<lambda>(nxt, k).
            andthen
              (case nxt of
                 Some n \<Rightarrow>
                   let k = upd_mutex m (\<lambda>x. x\<lparr>owner := Some n\<rparr>) k;
                       k = add_held m n k
                   in make_task_ready (Some n) k
               | None \<Rightarrow> Inr (False, upd_mutex m (\<lambda>x. x\<lparr>owner := None\<rparr>) k))
              (\<lambda>(should_preempt, k).
                deref (current_task k) (\<lambda>c.
                andthen (recompute_priority c k) (\<lambda>np.
                  if np \<noteq> priority (tcbs k c)
                  then andthen (set_task_priority (Some c) np k) (\<lambda>k. Inr (Some True, k))
                  else Inr (Some should_preempt, k))))))
       = Inr (Some (np \<noteq> priority (tcbs k c) \<or> b), k') \<and>
     plain k' = plain (upd_tcb c (\<lambda>b. b\<lparr>priority := np\<rparr>) (holding h ms (next_owner_store m L k))) \<and>
     kinv k' (next_owner_lists k m L) (next_owner_wake m L W) \<and>
     mutex_ok k' (next_owner_lists k m L) (next_owner_held c m L H) \<and>
     owner (mutexes k' m) = first_of (L (Mutex_Wait m))"
proof -
  let ?L = "next_owner_lists k m L" and ?W = "next_owner_wake m L W"
  let ?H1 = "H(c := remove1 m (H c))" and ?H = "next_owner_held c m L H"
  have cn: "c < ntasks k" by (rule kinv_current [OF inv c(1)])
  have hl: "held_lists k H" and ow: "owners k H" using mu by (auto simp: mutex_ok_def)
  have mc: "m \<in> set (H s) \<longleftrightarrow> s = c" for s using ow own by (auto simp: owners_def)
  have dH: "distinct (H s)" for s using hl by (simp add: held_lists_def)
  obtain k1 h1 ms1 where k1: "remove_held m (Some c) k = Inr k1" "k1 = holding h1 ms1 k"
    "\<And>x. owner (ms1 x) = owner (mutexes k x)" "held_lists k1 ?H1"
    using remove_held_ok [OF hl, of m c] mc owners_disjoint [OF ow] by blast
  have inv1: "kinv k1 L W" using inv by (simp add: k1(2))
  have free: "m \<notin> set (?H1 s)" for s using mc dH [of c] by auto
  have o1: "outranks_current n k1 = outranks_current n k" for n
    unfolding k1(2) by (rule outranks_cong) simp_all
  have l1: "next_owner_lists k1 m L = ?L"
    by (auto simp: next_owner_lists_def k1(2) enqueue_def split: list.splits)
  obtain k3 h3 ms3 where run3: "andthen (wake_highest (Mutex_Wait m) k1) (\<lambda>(nxt, k).
              case nxt of
                 Some n \<Rightarrow>
                   let k = upd_mutex m (\<lambda>x. x\<lparr>owner := Some n\<rparr>) k;
                       k = add_held m n k
                   in make_task_ready (Some n) k
               | None \<Rightarrow> Inr (False, upd_mutex m (\<lambda>x. x\<lparr>owner := None\<rparr>) k)) = Inr (b, k3)"
    and k3: "plain k3 = plain (holding h3 ms3 (next_owner_store m L k1))" "kinv k3 ?L ?W"
      "\<And>x. owner (mutexes k3 x) = (if x = m then first_of (L (Mutex_Wait m)) else owner (mutexes k x))"
      "held_lists k3 ?H"
    using unlock_next [OF inv1 k1(4) free] unfolding o1 l1 b
    by (auto simp: k1(2,3) next_owner_held_def Let_def)
  have st: "next_owner_store m L k1 = holding h1 ms1 (next_owner_store m L k)"
    unfolding k1(2) next_owner_store_def by (simp add: upd_tcb_holding split: list.splits)
  have p3: "plain k3 = plain (holding h3 ms3 (next_owner_store m L k))"
    using k3(1) unfolding st by simp
  note f3 = plainD [OF p3]
  have cur3: "current_task k3 = Some c" "ntasks k3 = ntasks k"
    using c by (simp_all add: f3 next_owner_store_simps ntasks_def)
  have pr3: "priority (tcbs k3 s) = priority (tcbs k s)" "base_priority (tcbs k3 s) = base_priority (tcbs k s)" for s
    by (simp_all add: f3 next_owner_store_simps)
  have nc: "first_of (L (Mutex_Wait m)) \<noteq> Some c"
    using first_waiter(2) [OF inv, of m c] c(2) by auto
  have Hc: "?H c = remove1 m (H c)"
    using nc by (auto simp: next_owner_held_def Let_def split: list.splits)
  have "inherited k3 ?L (?H c) (base_priority (tcbs k3 c)) = np"
    unfolding np Hc pr3 using free [of c]
    by (intro inherited_cong) (auto simp: pr3 intro!: next_owner_lists_mutex(1))
  then have rc: "recompute_priority c k3 = Inr np"
    using recompute_priority_ok [OF k3(4) kinv_wf [OF k3(2)], of c] by simp
  have np32: "np < 32" "base_priority (tcbs k3 c) \<le> np"
    using inherited_bound [OF inv] task_ok_priority [OF kinv_task [OF inv cn]]
      task_ok_base [OF kinv_task [OF inv cn]] inherited_ge [of "base_priority (tcbs k c)" k L "remove1 m (H c)"]
    by (auto simp: np pr3 intro: order.strict_trans1)
  have st3: "state (tcbs k3 c) = Running"
    using c(2) nc by (auto simp: f3 next_owner_store_def split: list.splits)
  have "wait_list (tcbs k3 c) = None"
    using task_ok_blocked [OF kinv_task [OF k3(2), of c]] st3 cn cur3 by auto
  then have rp: "reprioritize k3 c np ?L = ?L" using st3 by (simp add: reprioritize_def)
  obtain k4 where k4: "set_task_priority (Some c) np k3 = Inr k4"
    "plain k4 = plain (upd_tcb c (\<lambda>b. b\<lparr>priority := np\<rparr>) k3)" "kinv k4 ?L ?W"
    using set_task_priority_ok [OF k3(2) _ np32] cn cur3 rp by auto
  define k' where "k' = (if np \<noteq> priority (tcbs k c) then k4 else k3)"
  have pk': "plain k' = plain (upd_tcb c (\<lambda>b. b\<lparr>priority := np\<rparr>) k3)"
    using k4(2) pr3(1) [of c] by (auto simp: k'_def upd_priority_same)
  note f' = plainD [OF pk']
  have "mutex_ok k3 ?L ?H"
    unfolding mutex_ok_def
  proof (intro conjI allI impI)
    show "held_lists k3 ?H" by (rule k3(4))
    show "owners k3 ?H"
      using ow mc dH nc unfolding owners_def
      by (auto simp: k3(3) next_owner_held_def Let_def split: list.splits)
    show "owner (mutexes k3 x) \<noteq> None" if "?L (Mutex_Wait x) \<noteq> []" for x
      using that mu next_owner_lists_mutex(1) [of x m k L] next_owner_lists_mutex(2) [of k m L]
      by (cases "x = m") (auto simp: k3(3) mutex_ok_def)
    show "t < ntasks k3" if "owner (mutexes k3 x) = Some t" for x t
      using that mu first_waiter(1) [OF inv] by (auto simp: k3(3) cur3 mutex_ok_def split: if_splits)
  qed
  then have "mutex_ok k' ?L ?H" by (simp add: mutex_ok_plain [OF pk'])
  moreover have "owner (mutexes k' m) = first_of (L (Mutex_Wait m))" by (simp add: f' k3(3))
  moreover have "kinv k' ?L ?W" using k3(2) k4(3) by (simp add: k'_def)
  moreover have "plain k' = plain (upd_tcb c (\<lambda>b. b\<lparr>priority := np\<rparr>) (holding h3 ms3 (next_owner_store m L k)))"
    using pk' p3 by simp
  moreover have "andthen (remove_held m (current_task k) k) (\<lambda>k.
            andthen (wake_highest (Mutex_Wait m) k) (\<lambda>(nxt, k).
            andthen
              (case nxt of
                 Some n \<Rightarrow>
                   let k = upd_mutex m (\<lambda>x. x\<lparr>owner := Some n\<rparr>) k;
                       k = add_held m n k
                   in make_task_ready (Some n) k
               | None \<Rightarrow> Inr (False, upd_mutex m (\<lambda>x. x\<lparr>owner := None\<rparr>) k))
              (\<lambda>(should_preempt, k).
                deref (current_task k) (\<lambda>c.
                andthen (recompute_priority c k) (\<lambda>np.
                  if np \<noteq> priority (tcbs k c)
                  then andthen (set_task_priority (Some c) np k) (\<lambda>k. Inr (Some True, k))
                  else Inr (Some should_preempt, k))))))
       = Inr (Some (np \<noteq> priority (tcbs k c) \<or> b), k')"
    unfolding c(1) k1(1) andthen.simps andthen_pair [symmetric] run3
    using cur3(1) rc k4(1) pr3(1) by (simp add: k'_def)
  ultimately show ?thesis by blast
qed

lemma unlock_ok:
  assumes inv: "kinv k L W" and mu: "mutex_ok k L H"
    and c: "current_task k = Some c" "state (tcbs k c) = Running"
    and own: "owner (mutexes k m) = Some c"
    and np: "np = inherited k L (remove1 m (H c)) (base_priority (tcbs k c))"
  shows "\<exists>k' h ms. unlock m k = Inr (True, k') \<and>
     plain k' = plain (yield_if (np \<noteq> priority (tcbs k c) \<or>
         (\<exists>n. first_of (L (Mutex_Wait m)) = Some n \<and> outranks_current n k))
       (upd_tcb c (\<lambda>b. b\<lparr>priority := np\<rparr>) (holding h ms (next_owner_store m L k)))) \<and>
     kinv k' (next_owner_lists k m L) (next_owner_wake m L W) \<and>
     mutex_ok k' (next_owner_lists k m L) (next_owner_held c m L H) \<and>
     owner (mutexes k' m) = first_of (L (Mutex_Wait m))"
proof -
  let ?k = "k\<lparr>primask := True\<rparr>"
  let ?b = "\<exists>n. first_of (L (Mutex_Wait m)) = Some n \<and> outranks_current n k"
  have o: "outranks_current n ?k = outranks_current n k" for n by (rule outranks_cong) simp_all
  have l: "next_owner_lists ?k m L = next_owner_lists k m L"
    by (auto simp: next_owner_lists_def enqueue_def split: list.splits)
  have i: "inherited ?k L ms p = inherited k L ms p" for ms p by (rule inherited_cong) simp_all
  have s: "next_owner_store m L ?k = (next_owner_store m L k)\<lparr>primask := True\<rparr>"
    by (simp add: next_owner_store_def split: list.splits)
  from unlock_locked [of ?k L W H c m np ?b] inv mu c own np
  obtain k1 h ms where run: "andthen (remove_held m (current_task ?k) ?k) (\<lambda>k.
            andthen (wake_highest (Mutex_Wait m) k) (\<lambda>(nxt, k).
            andthen
              (case nxt of
                 Some n \<Rightarrow>
                   let k = upd_mutex m (\<lambda>x. x\<lparr>owner := Some n\<rparr>) k;
                       k = add_held m n k
                   in make_task_ready (Some n) k
               | None \<Rightarrow> Inr (False, upd_mutex m (\<lambda>x. x\<lparr>owner := None\<rparr>) k))
              (\<lambda>(should_preempt, k).
                deref (current_task k) (\<lambda>c.
                andthen (recompute_priority c k) (\<lambda>np.
                  if np \<noteq> priority (tcbs k c)
                  then andthen (set_task_priority (Some c) np k) (\<lambda>k. Inr (Some True, k))
                  else Inr (Some should_preempt, k))))))
       = Inr (Some (np \<noteq> priority (tcbs k c) \<or> ?b), k1)"
    and k1: "plain k1 = plain (upd_tcb c (\<lambda>b. b\<lparr>priority := np\<rparr>) (holding h ms (next_owner_store m L ?k)))"
      "kinv k1 (next_owner_lists k m L) (next_owner_wake m L W)"
      "mutex_ok k1 (next_owner_lists k m L) (next_owner_held c m L H)"
      "owner (mutexes k1 m) = first_of (L (Mutex_Wait m))"
    by (auto simp: o l i)
  let ?k' = "yield_if (np \<noteq> priority (tcbs k c) \<or> ?b) (k1\<lparr>primask := primask k\<rparr>)"
  have "holding h ms (K\<lparr>primask := p\<rparr>) = (holding h ms K)\<lparr>primask := p\<rparr>" for K p
    by (simp add: holding_def)
  then have "plain ?k' = plain (yield_if (np \<noteq> priority (tcbs k c) \<or> ?b)
       (upd_tcb c (\<lambda>b. b\<lparr>priority := np\<rparr>) (holding h ms (next_owner_store m L k))))"
    using k1(1) by (simp add: s next_owner_store_simps)
  moreover have "unlock m k = Inr (True, ?k')"
    unfolding unlock_def critical_def enter_critical_def exit_critical_def
    using own c run by (simp add: yield_if_def del: andthen_pair)
  ultimately show ?thesis using k1(2-4)
    by (intro exI [of _ ?k'] exI [of _ h] exI [of _ ms]) simp
qed

lemma unlock_other:
  "current_task k \<noteq> owner (mutexes k m) \<Longrightarrow>
     unlock m k = (if use_assert k then Inl AssertFailed else Inr (False, k))"
  by (simp add: unlock_def acr_assert_def critical_def enter_critical_def exit_critical_def)

text \<open>
  Before \<open>Scheduler::start()\<close> there is no current task, and a free mutex has no owner: the
  ownership test compares two null pointers, passes, and the routine goes on to dereference
  the current task.
\<close>

lemma unlock_before_start:
  "current_task k = None \<Longrightarrow> owner (mutexes k m) = None \<Longrightarrow> unlock m k = Inl NullDeref"
  by (simp add: unlock_def remove_held_def critical_def enter_critical_def)

end
