(* ===== verification/Semaphore.thy ===== *)
theory Semaphore
  imports Wait_Queue
begin

text \<open>
  \<open>Semaphore\<close> (ipc.hpp 43-78, ipc.cpp 31-109). The count is a 32-bit word that saturates.
  A token given while tasks wait goes to the first of them and never into the count, so a
  semaphore with waiters has none (\<open>sem_ok\<close>).
\<close>

subsection \<open>The operations\<close>

definition set_sem_count :: "nat \<Rightarrow> 32 word \<Rightarrow> kernel \<Rightarrow> kernel" where
  "set_sem_count s n k = k\<lparr>sem_count := (sem_count k)(s := n)\<rparr>"

definition construct_sem :: "nat \<Rightarrow> 32 word \<Rightarrow> kernel \<Rightarrow> kernel" where
  "construct_sem s initial k = set_sem_count s initial (upd_list (Sem_Wait s) (\<lambda>_. initial_list) k)"

definition try_take :: "nat \<Rightarrow> kernel \<Rightarrow> (bool \<times> kernel) res" where
  "try_take s =
     critical (\<lambda>k. if sem_count k s = 0 then Inr (False, k)
                   else Inr (True, set_sem_count s (sem_count k s - 1) k))"

definition take_sem :: "nat \<Rightarrow> tick \<Rightarrow> kernel \<Rightarrow> (bool outcome \<times> kernel) res" where
  "take_sem s timeout_ms k =
     (if timeout_ms = 0
      then andthen (try_take s k) (\<lambda>(b, k). Inr (Returned b, k))
      else
        acr_assert k (\<not> in_isr k)
         (andthen
           (critical (\<lambda>k.
              if sem_count k s > 0
              then Inr (Returned True, set_sem_count s (sem_count k s - 1) k)
              else
                acr_assert k (current_task k \<noteq> None)
                 (case current_task k of
                    None \<Rightarrow> Inr (Returned False, k)
                  | Some t \<Rightarrow>
                      let k = upd_tcb t (\<lambda>b. b\<lparr>timeout_expired := False\<rparr>) k
                      in andthen (park (Sem_Wait s) (Some t) k) (\<lambda>k.
                         andthen (start_timeout timeout_ms k) (\<lambda>k. Inr (Waiting, k))))) k)
           (\<lambda>(r, k). Inr (r, if r = Waiting then task_yield k else k))))"

text \<open>The critical section shared, word for word, by \<open>give\<close> and \<open>give_from_isr\<close>.\<close>

definition give_locked :: "nat \<Rightarrow> kernel \<Rightarrow> (bool \<times> kernel) res" where
  "give_locked s =
     critical (\<lambda>k.
       andthen (wake_highest (Sem_Wait s) k) (\<lambda>(woken, k).
         if woken \<noteq> None then make_task_ready woken k
         else if sem_count k s < 0xFFFFFFFF
         then Inr (False, set_sem_count s (sem_count k s + 1) k)
         else Inr (False, k)))"

definition give :: "nat \<Rightarrow> kernel \<Rightarrow> kernel res" where
  "give s k =
     andthen (give_locked s k) (\<lambda>(should_preempt, k).
       Inr (if should_preempt then task_yield k else k))"

definition try_take_from_isr :: "nat \<Rightarrow> kernel \<Rightarrow> (bool \<times> kernel) res" where
  "try_take_from_isr = try_take"

definition give_from_isr :: "nat \<Rightarrow> kernel \<Rightarrow> (bool \<times> kernel) res" where
  "give_from_isr = give_locked"

subsection \<open>Correctness\<close>

lemma set_sem_count_simps [simp]:
  "plain (set_sem_count s n k) = set_sem_count s n (plain k)"
  "kinv (set_sem_count s n k) L W = kinv k L W"
  "sem_count (set_sem_count s n k) s' = (if s' = s then n else sem_count k s')"
  "tcbs (set_sem_count s n k) = tcbs k" "primask (set_sem_count s n k) = primask k"
  "(set_sem_count s n k)\<lparr>primask := b\<rparr> = set_sem_count s n (k\<lparr>primask := b\<rparr>)"
  by (simp_all add: set_sem_count_def)

definition sem_ok :: "kernel \<Rightarrow> (list_id \<Rightarrow> tid list) \<Rightarrow> nat \<Rightarrow> bool" where
  "sem_ok k L s \<longleftrightarrow> (L (Sem_Wait s) \<noteq> [] \<longrightarrow> sem_count k s = 0)"

lemma try_take_eq:
  "try_take s k =
     (if sem_count k s = 0 then Inr (False, k)
      else Inr (True, set_sem_count s (sem_count k s - 1) k))"
  by (simp add: try_take_def critical_def enter_critical_def exit_critical_def set_sem_count_def)

lemma take_sem_available:
  assumes "sem_count k s \<noteq> 0" and "timeout_ms = 0 \<or> ipsr k = 0"
  shows "take_sem s timeout_ms k = Inr (Returned True, set_sem_count s (sem_count k s - 1) k)"
  using assms
  by (auto simp: take_sem_def try_take_eq critical_def enter_critical_def exit_critical_def
      in_isr_def word_gt_0 set_sem_count_def)

lemma take_sem_blocks:
  assumes inv: "kinv k L W" and t: "current_task k = Some t" "state (tcbs k t) = Running"
    and c: "sem_count k s = 0" and n: "timeout_ms \<noteq> 0" and isr: "ipsr k = 0"
  shows "\<exists>k'. take_sem s timeout_ms k = Inr (Waiting, k') \<and>
           plain k' = plain (task_yield (blocked_store (Sem_Wait s) t k)) \<and>
           kinv k' (parked k (Sem_Wait s) t L) (time_limit timeout_ms t W)"
proof -
  let ?k = "upd_tcb t (\<lambda>b. b\<lparr>timeout_expired := False\<rparr>) (k\<lparr>primask := True\<rparr>)"
  have "kinv ?k L W" using inv by simp
  from wq.block [OF this, of "Sem_Wait s" t timeout_ms] t n
  obtain k1 where k1: "andthen (park (Sem_Wait s) (Some t) ?k) (start_timeout timeout_ms) = Inr k1"
    "plain k1 = plain (upd_tcb t (\<lambda>b. b\<lparr>wait_list := Some (Sem_Wait s), state := Blocked\<rparr>) ?k)"
    "kinv k1 (parked ?k (Sem_Wait s) t L) (time_limit timeout_ms t W)" by auto
  have "parked ?k (Sem_Wait s) t L = parked k (Sem_Wait s) t L"
    by (rule parked_cong) simp
  moreover have "take_sem s timeout_ms k = Inr (Waiting, task_yield (k1\<lparr>primask := primask k\<rparr>))"
    using k1(1) t c n isr
    by (auto simp: take_sem_def in_isr_def critical_def enter_critical_def exit_critical_def Let_def
        andthen_eq_Inr)
  moreover have "plain (task_yield (k1\<lparr>primask := primask k\<rparr>)) =
      plain (task_yield (blocked_store (Sem_Wait s) t k))"
    using k1(2) by (simp add: blocked_store_def plain_upd_tcb upd_tcb_twice)
  ultimately show ?thesis using k1(3) by auto
qed

lemma give_locked_none:
  assumes inv: "kinv k L W" and L: "L (Sem_Wait s) = []"
  shows "give_locked s k = Inr (False,
           if sem_count k s < 0xFFFFFFFF then set_sem_count s (sem_count k s + 1) k else k)"
proof -
  have "wake_highest (Sem_Wait s) (k\<lparr>primask := True\<rparr>) = Inr (None, k\<lparr>primask := True\<rparr>)"
    using inv L by (intro wq.wake_none [where L = L and W = W]) simp_all
  then show ?thesis
    by (simp add: give_locked_def critical_def enter_critical_def exit_critical_def set_sem_count_def)
qed

lemma give_locked_some:
  assumes inv: "kinv k L W" and L: "L (Sem_Wait s) = t # ts"
  shows "\<exists>k'. give_locked s k = Inr (outranks_current t k, k') \<and>
           plain k' = plain (upd_tcb t (\<lambda>b. b\<lparr>state := Ready, wait_list := None\<rparr>) k) \<and>
           kinv k' (enqueue k t (L(Sem_Wait s := ts))) (remove_wake t W)"
proof -
  let ?k = "k\<lparr>primask := True\<rparr>"
  have "kinv ?k L W" using inv by simp
  from wq.hand_over [OF this _ L] obtain k1 k2 where k1: "wake_highest (Sem_Wait s) ?k = Inr (Some t, k1)"
    and k2: "make_task_ready (Some t) k1 = Inr (outranks_current t ?k, k2)"
      "plain k2 = plain (upd_tcb t (\<lambda>b. b\<lparr>state := Ready, wait_list := None\<rparr>) ?k)"
      "kinv k2 (enqueue ?k t (L(Sem_Wait s := ts))) (remove_wake t W)" by auto
  have o: "outranks_current t ?k = outranks_current t k" by (rule outranks_cong) simp_all
  have e: "enqueue ?k t M = enqueue k t M" for M by (rule enqueue_cong) simp
  have "give_locked s k = Inr (outranks_current t k, k2\<lparr>primask := primask k\<rparr>)"
    using k1 k2(1) o by (simp add: give_locked_def critical_def enter_critical_def exit_critical_def)
  then show ?thesis using k2(2,3) e by (auto simp: plain_upd_tcb)
qed

end
