(* ===== verification/Event_Group.thy ===== *)
theory Event_Group
  imports Wait_Queue
begin

text \<open>
  \<open>EventGroup\<close> (ipc.hpp 134-165, ipc.cpp 196-312): 32 flags, each waiter with its own mask
  and condition. \<open>set_bits\<close> walks the wait list once, in priority order; a waiter that
  clears bits on exit changes what the waiters after it see. \<open>scan_woken\<close> and \<open>scan_bits\<close>
  describe one such walk over the sequence of waiters.
\<close>

subsection \<open>The operations\<close>

definition bits_satisfy :: "32 word \<Rightarrow> 32 word \<Rightarrow> bool \<Rightarrow> bool" where
  "bits_satisfy bits mask_bits wait_all =
     (if wait_all then bits AND mask_bits = mask_bits else bits AND mask_bits \<noteq> 0)"

definition condition_met :: "tcb \<Rightarrow> 32 word \<Rightarrow> bool" where
  "condition_met b bits =
     (if event_wait_all b then bits AND event_wait_mask b = event_wait_mask b
      else bits AND event_wait_mask b \<noteq> 0)"

definition set_event_bits :: "nat \<Rightarrow> 32 word \<Rightarrow> kernel \<Rightarrow> kernel" where
  "set_event_bits e w k = k\<lparr>event_bits := (event_bits k)(e := w)\<rparr>"

definition get_bits :: "nat \<Rightarrow> kernel \<Rightarrow> (32 word \<times> kernel) res" where
  "get_bits e = critical (\<lambda>k. Inr (event_bits k e, k))"

definition clear_bits :: "nat \<Rightarrow> 32 word \<Rightarrow> kernel \<Rightarrow> (32 word \<times> kernel) res" where
  "clear_bits e mask_bits =
     critical (\<lambda>k. let k = set_event_bits e (event_bits k e AND NOT mask_bits) k
                   in Inr (event_bits k e, k))"

text \<open>The body of the scan loop, for a waiter whose condition is met.\<close>

definition event_wake :: "nat \<Rightarrow> tid \<Rightarrow> kernel \<Rightarrow> (bool \<times> kernel) res" where
  "event_wake e c k =
     andthen (list_remove (Event_Waiters e) (Some c) k) (\<lambda>k.
     andthen (cancel_timeout (Some c) k) (\<lambda>k.
       let satisfied_bits = event_bits k e;
           k = (if event_clear_on_exit (tcbs k c)
                then set_event_bits e (event_bits k e AND NOT (event_wait_mask (tcbs k c))) k else k);
           k = (case xfer_ptr (tcbs k c) of
                  None \<Rightarrow> k
                | Some a \<Rightarrow> k\<lparr>mem := store32 a satisfied_bits (mem k)\<rparr>)
       in make_task_ready (Some c) k))"

partial_function (option) scan_loop ::
  "nat \<Rightarrow> bool \<Rightarrow> tptr \<Rightarrow> kernel \<Rightarrow> (bool \<times> kernel) res option" where
  "scan_loop e should_yield cur k =
     (case cur of
        None \<Rightarrow> Some (Inr (should_yield, k))
      | Some c \<Rightarrow>
          if condition_met (tcbs k c) (event_bits k e)
          then (case event_wake e c k of
                  Inl f \<Rightarrow> Some (Inl f)
                | Inr r \<Rightarrow> scan_loop e (should_yield \<or> fst r) (link_next (tcbs k c)) (snd r))
          else scan_loop e should_yield (link_next (tcbs k c)) k)"

definition scan_and_wake_locked :: "nat \<Rightarrow> kernel \<Rightarrow> (bool \<times> kernel) res" where
  "scan_and_wake_locked e k = loop_join (scan_loop e False (peek_front (Event_Waiters e) k) k)"

definition set_bits_locked :: "nat \<Rightarrow> 32 word \<Rightarrow> kernel \<Rightarrow> ((bool \<times> 32 word) \<times> kernel) res" where
  "set_bits_locked e mask_bits =
     critical (\<lambda>k.
       let k = set_event_bits e (event_bits k e OR mask_bits) k
       in andthen (scan_and_wake_locked e k) (\<lambda>(should_yield, k).
            Inr ((should_yield, event_bits k e), k)))"

definition set_bits :: "nat \<Rightarrow> 32 word \<Rightarrow> kernel \<Rightarrow> (32 word \<times> kernel) res" where
  "set_bits e mask_bits k =
     andthen (set_bits_locked e mask_bits k) (\<lambda>((should_yield, return_bits), k).
       Inr (return_bits, if should_yield then task_yield k else k))"

text \<open>The out parameter \<open>should_yield\<close> is returned with the bits.\<close>

definition set_bits_from_isr :: "nat \<Rightarrow> 32 word \<Rightarrow> kernel \<Rightarrow> ((bool \<times> 32 word) \<times> kernel) res" where
  "set_bits_from_isr = set_bits_locked"

text \<open>
  \<open>ret\<close> is the address of the local variable \<open>return_bits\<close>, which a waking task stores to
  while the caller is blocked.
\<close>

definition wait_bits ::
  "nat \<Rightarrow> 32 word \<Rightarrow> bool \<Rightarrow> bool \<Rightarrow> tick \<Rightarrow> addr \<Rightarrow> kernel \<Rightarrow> (32 word outcome \<times> kernel) res" where
  "wait_bits e mask_bits wait_all clear_on_exit timeout_ms ret k =
     (if mask_bits = 0
      then andthen (get_bits e k) (\<lambda>(b, k). Inr (Returned b, k))
      else
        let k = k\<lparr>mem := store32 ret 0 (mem k)\<rparr>
        in acr_assert k (current_task k \<noteq> None)
            (acr_assert k (\<not> in_isr k)
              (case current_task k of
                 None \<Rightarrow> Inr (Returned (event_bits k e), k)
               | Some t \<Rightarrow>
                   andthen
                     (critical (\<lambda>k.
                        if bits_satisfy (event_bits k e) mask_bits wait_all
                        then
                          let return_bits = event_bits k e;
                              k = k\<lparr>mem := store32 ret return_bits (mem k)\<rparr>;
                              k = (if clear_on_exit
                                   then set_event_bits e (event_bits k e AND NOT mask_bits) k else k)
                          in Inr (Returned return_bits, k)
                        else if timeout_ms = 0 then Inr (Returned (event_bits k e), k)
                        else
                          let k = upd_tcb t (\<lambda>b. b\<lparr>event_wait_mask := mask_bits\<rparr>) k;
                              k = upd_tcb t (\<lambda>b. b\<lparr>event_wait_all := wait_all\<rparr>) k;
                              k = upd_tcb t (\<lambda>b. b\<lparr>event_clear_on_exit := clear_on_exit\<rparr>) k;
                              k = upd_tcb t (\<lambda>b. b\<lparr>xfer_ptr := Some ret\<rparr>) k;
                              k = upd_tcb t (\<lambda>b. b\<lparr>timeout_expired := False\<rparr>) k
                          in acr_assert k (wait_list (tcbs k t) = None)
                              (let k = set_state t Blocked k;
                                   k = upd_tcb t (\<lambda>b. b\<lparr>wait_list := Some (Event_Waiters e)\<rparr>) k
                               in andthen (insert_by_priority (Event_Waiters e) (Some t) k) (\<lambda>k.
                                  andthen (start_timeout timeout_ms k) (\<lambda>k. Inr (Waiting, k))))) k)
                     (\<lambda>(r, k). Inr (r, if r = Waiting then task_yield k else k)))))"

text \<open>What \<open>wait_bits\<close> returns once the blocked task \<open>t\<close> runs again.\<close>

definition wait_bits_result :: "nat \<Rightarrow> addr \<Rightarrow> tid \<Rightarrow> kernel \<Rightarrow> (32 word \<times> kernel) res" where
  "wait_bits_result e ret t k =
     (if timeout_expired (tcbs k t)
      then critical (\<lambda>k. Inr (event_bits k e, k\<lparr>mem := store32 ret (event_bits k e) (mem k)\<rparr>)) k
      else Inr (load32 ret (mem k), k))"

subsection \<open>One walk over the waiters\<close>

definition bits_after :: "tcb \<Rightarrow> 32 word \<Rightarrow> 32 word" where
  "bits_after b bits = (if event_clear_on_exit b then bits AND NOT (event_wait_mask b) else bits)"

text \<open>The tasks woken, each with the bits that woke it; the bits left; the tasks that stay.\<close>

fun scan_woken :: "(tid \<Rightarrow> tcb) \<Rightarrow> 32 word \<Rightarrow> tid list \<Rightarrow> (tid \<times> 32 word) list" where
  "scan_woken tb bits [] = []"
| "scan_woken tb bits (t # ts) =
     (if condition_met (tb t) bits
      then (t, bits) # scan_woken tb (bits_after (tb t) bits) ts
      else scan_woken tb bits ts)"

fun scan_bits :: "(tid \<Rightarrow> tcb) \<Rightarrow> 32 word \<Rightarrow> tid list \<Rightarrow> 32 word" where
  "scan_bits tb bits [] = bits"
| "scan_bits tb bits (t # ts) =
     (if condition_met (tb t) bits then scan_bits tb (bits_after (tb t) bits) ts
      else scan_bits tb bits ts)"

fun scan_rest :: "(tid \<Rightarrow> tcb) \<Rightarrow> 32 word \<Rightarrow> tid list \<Rightarrow> tid list" where
  "scan_rest tb bits [] = []"
| "scan_rest tb bits (t # ts) =
     (if condition_met (tb t) bits then scan_rest tb (bits_after (tb t) bits) ts
      else t # scan_rest tb bits ts)"

lemma scan_woken_subset: "fst ` set (scan_woken tb bits ts) \<subseteq> set ts"
  by (induction tb bits ts rule: scan_woken.induct) auto

lemma scan_rest_subset: "set (scan_rest tb bits ts) \<subseteq> set ts"
  by (induction tb bits ts rule: scan_rest.induct) auto

lemma scan_partition:
  "distinct ts \<Longrightarrow> set ts = set (scan_rest tb bits ts) \<union> fst ` set (scan_woken tb bits ts) \<and>
     set (scan_rest tb bits ts) \<inter> fst ` set (scan_woken tb bits ts) = {}"
proof (induction tb bits ts rule: scan_rest.induct)
  case (2 tb bits t ts)
  then show ?case
    using scan_woken_subset [of tb bits ts] scan_rest_subset [of tb "bits_after (tb t) bits" ts]
    by (auto split: if_splits)
qed simp

lemma scan_woken_met: "(t, b) \<in> set (scan_woken tb bits ts) \<Longrightarrow> condition_met (tb t) b"
  by (induction tb bits ts rule: scan_woken.induct) (auto split: if_splits)

lemma scan_cong:
  assumes "\<And>t. t \<in> set ts \<Longrightarrow> event_wait_all (tb' t) = event_wait_all (tb t) \<and>
      event_wait_mask (tb' t) = event_wait_mask (tb t) \<and>
      event_clear_on_exit (tb' t) = event_clear_on_exit (tb t)"
  shows "scan_woken tb' bits ts = scan_woken tb bits ts" "scan_bits tb' bits ts = scan_bits tb bits ts"
    "scan_rest tb' bits ts = scan_rest tb bits ts"
  using assms by (induction ts arbitrary: bits) (auto simp: condition_met_def bits_after_def)

text \<open>
  A walk only clears bits, so a task passed over early is still not to be woken at the end.
\<close>

definition bits_within :: "32 word \<Rightarrow> 32 word \<Rightarrow> bool" where
  "bits_within v w \<longleftrightarrow> v AND w = v"

lemma bits_within_iff: "bits_within v w \<longleftrightarrow> (\<forall>n. bit v n \<longrightarrow> bit w n)"
proof
  assume w: "bits_within v w"
  have "bit (v AND w) n" if "bit v n" for n using w that by (simp add: bits_within_def)
  then show "\<forall>n. bit v n \<longrightarrow> bit w n" by (simp add: bit_and_iff)
next
  assume "\<forall>n. bit v n \<longrightarrow> bit w n"
  then show "bits_within v w"
    unfolding bits_within_def by (intro bit_eqI) (auto simp: bit_and_iff)
qed

lemma bits_within_refl [simp]: "bits_within w w"
  by (simp add: bits_within_def)

lemma bits_within_trans: "bits_within u v \<Longrightarrow> bits_within v w \<Longrightarrow> bits_within u w"
  by (auto simp: bits_within_iff)

lemma bits_within_clear [simp]: "bits_within (w AND NOT m) w"
  by (auto simp: bits_within_iff bit_simps)

lemma condition_met_mono: "bits_within v w \<Longrightarrow> condition_met b v \<Longrightarrow> condition_met b w"
  by (auto simp: condition_met_def bits_within_iff bit_eq_iff bit_simps split: if_splits)

lemma bits_after_within [simp]: "bits_within (bits_after b w) w"
  by (simp add: bits_after_def)

lemma scan_bits_within: "bits_within (scan_bits tb w ts) w"
proof (induction tb w ts rule: scan_bits.induct)
  case (2 tb w t ts)
  then show ?case using bits_within_trans [OF _ bits_after_within [of "tb t" w]] by auto
qed simp

lemma scan_rest_unmet: "t \<in> set (scan_rest tb w ts) \<Longrightarrow> \<not> condition_met (tb t) (scan_bits tb w ts)"
proof (induction tb w ts rule: scan_rest.induct)
  case (2 tb w s ts)
  then show ?case using condition_met_mono [OF scan_bits_within] by (auto split: if_splits)
qed simp

subsection \<open>Correctness of the walk\<close>

lemma set_event_bits_simps [simp]:
  "plain (set_event_bits e w k) = set_event_bits e w (plain k)"
  "kinv (set_event_bits e w k) L W = kinv k L W"
  "detached t (set_event_bits e w k) L W = detached t k L W"
  "event_bits (set_event_bits e w k) = (event_bits k)(e := w)"
  "tcbs (set_event_bits e w k) = tcbs k" "mem (set_event_bits e w k) = mem k"
  "primask (set_event_bits e w k) = primask k" "current_task (set_event_bits e w k) = current_task k"
  "started (set_event_bits e w k) = started k" "task_count (set_event_bits e w k) = task_count k"
  by (simp_all add: set_event_bits_def)

text \<open>The stores of one wake-up.\<close>

definition store_at :: "addr option \<Rightarrow> 32 word \<Rightarrow> (addr \<Rightarrow> 8 word) \<Rightarrow> addr \<Rightarrow> 8 word" where
  "store_at p w m = (case p of None \<Rightarrow> m | Some a \<Rightarrow> store32 a w m)"

definition event_store :: "nat \<Rightarrow> 32 word \<Rightarrow> tid \<Rightarrow> kernel \<Rightarrow> kernel" where
  "event_store e bits t k =
     upd_tcb t (\<lambda>b. b\<lparr>state := Ready, wait_list := None\<rparr>)
       (k\<lparr>event_bits := (event_bits k)(e := bits_after (tcbs k t) bits),
         mem := store_at (xfer_ptr (tcbs k t)) bits (mem k)\<rparr>)"

lemma bits_after_plain [simp]: "bits_after (plain_tcb b) bits = bits_after b bits"
  by (simp add: bits_after_def)

lemma plain_event_store [simp]: "plain (event_store e bits t k) = event_store e bits t (plain k)"
proof -
  have "plain (upd_tcb t (\<lambda>b. b\<lparr>state := Ready, wait_list := None\<rparr>) k0) =
      upd_tcb t (\<lambda>b. b\<lparr>state := Ready, wait_list := None\<rparr>) (plain k0)" for k0
    by (rule plain_upd_tcb) simp
  then show ?thesis unfolding event_store_def by (simp del: upd_tcb_field)
qed

lemma mem_same: "mem k = m \<Longrightarrow> k\<lparr>mem := m\<rparr> = k"
  by (cases k) simp

lemma event_wake_ok:
  assumes inv: "kinv k L W" and L: "L (Event_Waiters e) = as @ c # bs"
  shows "\<exists>k'. event_wake e c k = Inr (outranks_current c k, k') \<and>
           plain k' = plain (event_store e (event_bits k e) c k) \<and>
           kinv k' (enqueue k c (L(Event_Waiters e := as @ bs))) (remove_wake c W)"
proof -
  have b: "kinv_but {} k L W" using inv by (simp add: kinv_def)
  have cin: "c \<in> set (L (Event_Waiters e))" using L by simp
  have cn: "c < ntasks k" by (rule kinv_member [OF inv cin])
  have ok: "task_ok k L W c" by (rule kinv_task [OF inv cn])
  have st: "state (tcbs k c) = Blocked"
    using task_ok_wait [OF ok, of "Event_Waiters e"] cin task_ok_blocked [OF ok] by auto
  have "distinct (as @ c # bs)"
    using wf_lists_distinct [OF wf_kernelD(1) [OF kinv_wf [OF inv]], of "Event_Waiters e"] L by simp
  then have rm: "remove1 c (L (Event_Waiters e)) = as @ bs" using L by (simp add: remove1_split)
  let ?L = "L(Event_Waiters e := as @ bs)"
  obtain k1 where k1: "list_remove (Event_Waiters e) (Some c) k = Inr k1" "reshuffled k k1"
    "kinv_but {c} k1 ?L W" "\<forall>l. c \<notin> set (?L l)"
    using leave_wait [OF kinv_but_any [OF b] cn _ cin] unfolding rm by auto
  have cn1: "c < ntasks k1" using k1(2) cn by (simp add: reshuffled_ntasks)
  obtain k2 where run2: "cancel_timeout (Some c) k1 = Inr k2" and pl: "plain k2 = plain k1"
    and d2: "detached c k2 ?L (remove_wake c W)"
    using cancel_timeout_ok [OF k1(3) cn1 k1(4)] by blast
  have pl2: "plain k2 = plain k" using pl k1(2) by (simp add: reshuffled_plain)
  note f2 = plainD [OF pl2]
  let ?w = "event_bits k e"
  define k3 where "k3 = (let k = set_event_bits e (bits_after (tcbs k2 c) ?w) k2 in
    k\<lparr>mem := store_at (xfer_ptr (tcbs k c)) ?w (mem k)\<rparr>)"
  have d3: "detached c k3 ?L (remove_wake c W)" using d2 by (simp add: k3_def Let_def)
  have t3: "tcbs k3 = tcbs k2" by (simp add: k3_def Let_def)
  obtain k4 where k4: "make_task_ready (Some c) k3 = Inr (outranks_current c k3, k4)"
    "plain k4 = plain (upd_tcb c (\<lambda>b. b\<lparr>state := Ready, wait_list := None\<rparr>) k3)"
    "kinv k4 (enqueue k3 c ?L) (remove_wake c W)"
    using make_task_ready_ok [OF d3 awake_none_remove [OF kinv_awake [OF inv]]] st
      task_ok_priority [OF ok] task_ok_base [OF ok] by (auto simp: t3 f2)
  have o: "outranks_current c k3 = outranks_current c k"
    by (rule outranks_cong) (simp_all add: t3 f2, simp_all add: k3_def Let_def f2)
  have e: "enqueue k3 c ?L = enqueue k c ?L" by (rule enqueue_cong) (simp add: t3 f2)
  have same: "(if event_clear_on_exit (tcbs k2 c)
                then set_event_bits e (event_bits k2 e AND NOT (event_wait_mask (tcbs k2 c))) k2 else k2)
      = set_event_bits e (bits_after (tcbs k2 c) ?w) k2"
    by (cases k2) (auto simp: bits_after_def set_event_bits_def f2(21)[symmetric])
  have "event_wake e c k = Inr (outranks_current c k, k4)"
    unfolding event_wake_def k1(1) run2 andthen.simps Let_def same o [symmetric] k4(1) [symmetric]
    by (cases "xfer_ptr (tcbs k c)") (simp_all add: k3_def Let_def f2 mem_same store_at_def)
  moreover have "plain k3 = (plain k)\<lparr>event_bits := (event_bits k)(e := bits_after (tcbs k c) ?w),
      mem := store_at (xfer_ptr (tcbs k c)) ?w (mem k)\<rparr>"
  proof -
    have "bits_after (tcbs k2 c) ?w = bits_after (tcbs k c) ?w" by (simp add: bits_after_def f2)
    moreover have "event_bits k2 = event_bits k" "mem k2 = mem k"
      "xfer_ptr (tcbs k2 c) = xfer_ptr (tcbs k c)" by (rule f2)+
    ultimately have "k3 = k2\<lparr>event_bits := (event_bits k)(e := bits_after (tcbs k c) ?w),
        mem := store_at (xfer_ptr (tcbs k c)) ?w (mem k)\<rparr>"
      by (simp add: k3_def Let_def set_event_bits_def)
    then show ?thesis using pl2 by simp
  qed
  then have "plain k4 = plain (event_store e ?w c k)"
    using k4(2) by (simp add: event_store_def plain_upd_tcb)
  ultimately show ?thesis using k4(3) e by auto
qed

text \<open>What a walk over the waiters \<open>ts\<close> does to the sequences and to the stores.\<close>

definition scan_lists ::
  "nat \<Rightarrow> kernel \<Rightarrow> tid list \<Rightarrow> tid list \<Rightarrow> (list_id \<Rightarrow> tid list) \<Rightarrow> list_id \<Rightarrow> tid list" where
  "scan_lists e k ts rest L = fold (enqueue k) ts (L(Event_Waiters e := rest))"

definition scan_store :: "nat \<Rightarrow> (tid \<times> 32 word) list \<Rightarrow> kernel \<Rightarrow> kernel" where
  "scan_store e ws k = fold (\<lambda>(t, b). event_store e b t) ws k"

lemma fold_enqueue_cong:
  assumes "\<And>s. priority (tcbs k' s) = priority (tcbs k s)"
  shows "fold (enqueue k') ts L = fold (enqueue k) ts L"
  using assms by (induction ts arbitrary: L) (auto simp: enqueue_def)

lemma enqueue_event: "(enqueue k c L)(Event_Waiters e := xs) = enqueue k c (L(Event_Waiters e := xs))"
  by (simp add: enqueue_def Let_def fun_upd_twist)

lemma plain_scan_store: "plain (scan_store e ws k) = scan_store e ws (plain k)"
  by (induction ws arbitrary: k) (auto simp: scan_store_def)

lemma event_store_fields [simp]:
  "priority (tcbs (event_store e b t k) s) = priority (tcbs k s)"
  "event_wait_all (tcbs (event_store e b t k) s) = event_wait_all (tcbs k s)"
  "event_wait_mask (tcbs (event_store e b t k) s) = event_wait_mask (tcbs k s)"
  "event_clear_on_exit (tcbs (event_store e b t k) s) = event_clear_on_exit (tcbs k s)"
  "event_bits (event_store e b t k) = (event_bits k)(e := bits_after (tcbs k t) b)"
  "current_task (event_store e b t k) = current_task k" "started (event_store e b t k) = started k"
  "primask (event_store e b t k) = primask k"
  by (simp_all add: event_store_def)

lemma scan_store_fields [simp]:
  "mutexes (scan_store e ws k) = mutexes k" "sem_count (scan_store e ws k) = sem_count k"
  "queues (scan_store e ws k) = queues k" "task_count (scan_store e ws k) = task_count k"
  "e' \<noteq> e \<Longrightarrow> event_bits (scan_store e ws k) e' = event_bits k e'"
  "held_mutexes (tcbs (scan_store e ws k) t) = held_mutexes (tcbs k t)"
  "xfer_ptr (tcbs (scan_store e ws k) t) = xfer_ptr (tcbs k t)"
  "event_wait_mask (tcbs (scan_store e ws k) t) = event_wait_mask (tcbs k t)"
  "event_wait_all (tcbs (scan_store e ws k) t) = event_wait_all (tcbs k t)"
  by (induction ws arbitrary: k) (simp_all add: scan_store_def event_store_def split: prod.split)

text \<open>Who is woken, and what each woken task finds in its buffer.\<close>

lemma scan_store_woken:
  "state (tcbs (scan_store e ws k) t) = (if t \<in> fst ` set ws then Ready else state (tcbs k t))"
  "wait_list (tcbs (scan_store e ws k) t) = (if t \<in> fst ` set ws then None else wait_list (tcbs k t))"
  "timeout_expired (tcbs (scan_store e ws k) t) = timeout_expired (tcbs k t)"
  by (induction ws arbitrary: k) (auto simp: scan_store_def event_store_def split: prod.splits)

lemma scan_woken_distinct: "distinct ts \<Longrightarrow> distinct (map fst (scan_woken tb bits ts))"
  using scan_woken_subset by (induction tb bits ts rule: scan_woken.induct) fastforce+

definition words_apart :: "addr option \<Rightarrow> addr option \<Rightarrow> bool" where
  "words_apart p q \<longleftrightarrow>
     (case (p, q) of (Some a, Some b) \<Rightarrow> a + 4 \<le> b \<or> b + 4 \<le> a | _ \<Rightarrow> True)"

lemma load_store_at:
  "words_apart p (Some a) \<Longrightarrow> load32 a (store_at p w m) = load32 a m"
  "load32 a (store_at (Some a) w m) = w"
  by (auto simp: words_apart_def store_at_def load32_store32_other split: option.splits)

lemma scan_store_keeps:
  assumes "\<And>s b. (s, b) \<in> set ws \<Longrightarrow> words_apart (xfer_ptr (tcbs k s)) (Some a)"
  shows "load32 a (mem (scan_store e ws k)) = load32 a (mem k)"
  using assms
proof (induction ws arbitrary: k)
  case (Cons w ws)
  obtain s b where w: "w = (s, b)" by (cases w)
  have "load32 a (mem (scan_store e ws (event_store e b s k))) = load32 a (mem (event_store e b s k))"
    by (rule Cons.IH) (use Cons.prems in \<open>auto simp: event_store_def\<close>)
  also have "\<dots> = load32 a (mem k)"
    using Cons.prems [of s b] by (simp add: w event_store_def load_store_at)
  finally show ?case by (simp add: w scan_store_def)
qed (simp add: scan_store_def)

lemma scan_store_delivers:
  assumes "(t, b) \<in> set ws" and "distinct (map fst ws)" and "xfer_ptr (tcbs k t) = Some a"
    and "\<And>s c. (s, c) \<in> set ws \<Longrightarrow> s \<noteq> t \<Longrightarrow> words_apart (xfer_ptr (tcbs k s)) (Some a)"
  shows "load32 a (mem (scan_store e ws k)) = b"
  using assms
proof (induction ws arbitrary: k)
  case (Cons w ws)
  obtain s c where w: "w = (s, c)" by (cases w)
  let ?k = "event_store e c s k"
  have x: "xfer_ptr (tcbs ?k u) = xfer_ptr (tcbs k u)" for u by (simp add: event_store_def)
  show ?case
  proof (cases "s = t")
    case True
    then have "c = b" "\<And>d. (t, d) \<notin> set ws"
      using Cons.prems(1,2) by (force simp: w)+
    moreover have "load32 a (mem (scan_store e ws ?k)) = load32 a (mem ?k)"
      by (rule scan_store_keeps) (use Cons.prems(4) \<open>\<And>d. (t, d) \<notin> set ws\<close> in \<open>auto simp: x w\<close>)
    ultimately show ?thesis using Cons.prems(3) True
      by (simp add: w scan_store_def event_store_def load_store_at)
  next
    case False
    have "load32 a (mem (scan_store e ws ?k)) = b"
      by (rule Cons.IH) (use Cons.prems False in \<open>auto simp: x w\<close>)
    then show ?thesis by (simp add: w scan_store_def)
  qed
qed simp

lemma scan_store_pendsv: "pendsv (scan_store e ws k) = pendsv k"
  by (induction ws arbitrary: k) (simp_all add: scan_store_def event_store_def split: prod.split)

lemma scan_lists_other:
  assumes "\<not> is_ready_list l"
  shows "scan_lists e k ts rest L l = (if l = Event_Waiters e then rest else L l)"
proof -
  have "fold (enqueue k) ts M l = M l" for M
    using assms by (induction ts arbitrary: M) (auto simp: enqueue_def Let_def)
  then show ?thesis by (simp add: scan_lists_def)
qed

lemma scan_loop_ok:
  assumes "kinv k L W" and "L (Event_Waiters e) = as @ ts"
    and "ws = scan_woken (tcbs k) (event_bits k e) ts"
    and "rest = as @ scan_rest (tcbs k) (event_bits k e) ts"
  shows "\<exists>k'. scan_loop e sy (first_of ts) k =
             Some (Inr (sy \<or> (\<exists>t \<in> fst ` set ws. outranks_current t k), k')) \<and>
           plain k' = plain (scan_store e ws k) \<and>
           event_bits k' e = scan_bits (tcbs k) (event_bits k e) ts \<and>
           kinv k' (scan_lists e k (map fst ws) rest L) (fold remove_wake (map fst ws) W)"
  using assms
proof (induction ts arbitrary: k L W as sy ws)
  case Nil
  have "L(Event_Waiters e := rest) = L" using Nil.prems(2,4) by auto
  then show ?case using Nil
    by (simp add: scan_loop.simps [of e sy None] scan_lists_def scan_store_def)
next
  case (Cons c ts)
  note inv = Cons.prems(1)
  let ?w = "event_bits k e"
  have nx: "link_next (tcbs k c) = first_of ts" by (rule wf_kernel_next [OF kinv_wf [OF inv] Cons.prems(2)])
  show ?case
  proof (cases "condition_met (tcbs k c) ?w")
    case False
    have "\<exists>k'. scan_loop e sy (first_of ts) k =
             Some (Inr (sy \<or> (\<exists>t \<in> fst ` set ws. outranks_current t k), k')) \<and>
           plain k' = plain (scan_store e ws k) \<and>
           event_bits k' e = scan_bits (tcbs k) ?w ts \<and>
           kinv k' (scan_lists e k (map fst ws) rest L) (fold remove_wake (map fst ws) W)"
      using Cons.prems False by (intro Cons.IH [of _ _ _ "as @ [c]"]) simp_all
    moreover have "scan_loop e sy (Some c) k = scan_loop e sy (first_of ts) k"
      using False nx by (subst scan_loop.simps) simp
    ultimately show ?thesis using False by simp
  next
    case True
    obtain k1 where k1: "event_wake e c k = Inr (outranks_current c k, k1)"
      "plain k1 = plain (event_store e ?w c k)"
      "kinv k1 (enqueue k c (L(Event_Waiters e := as @ ts))) (remove_wake c W)"
      using event_wake_ok [OF inv Cons.prems(2)] by blast
    note f1 = plainD [OF k1(2)]
    let ?L1 = "enqueue k c (L(Event_Waiters e := as @ ts))" and ?w1 = "bits_after (tcbs k c) ?w"
    have w1: "event_bits k1 e = ?w1" by (simp add: f1)
    have cg: "scan_woken (tcbs k1) ?w1 ts = scan_woken (tcbs k) ?w1 ts"
      "scan_bits (tcbs k1) ?w1 ts = scan_bits (tcbs k) ?w1 ts"
      "scan_rest (tcbs k1) ?w1 ts = scan_rest (tcbs k) ?w1 ts"
      by (rule scan_cong; simp add: f1)+
    define ws1 where "ws1 = scan_woken (tcbs k) ?w1 ts"
    have ws: "ws = (c, ?w) # ws1" using Cons.prems(3) True by (simp add: ws1_def)
    have rest: "rest = as @ scan_rest (tcbs k) ?w1 ts" using Cons.prems(4) True by simp
    have "?L1 (Event_Waiters e) = as @ ts" by (simp add: enqueue_def Let_def)
    then obtain k' where k': "scan_loop e (sy \<or> outranks_current c k) (first_of ts) k1 =
             Some (Inr ((sy \<or> outranks_current c k) \<or> (\<exists>t \<in> fst ` set ws1. outranks_current t k1), k'))"
      "plain k' = plain (scan_store e ws1 k1)" "event_bits k' e = scan_bits (tcbs k1) ?w1 ts"
      "kinv k' (scan_lists e k1 (map fst ws1) rest ?L1) (fold remove_wake (map fst ws1) (remove_wake c W))"
      using Cons.IH [OF k1(3), of as ws1 "sy \<or> outranks_current c k"] unfolding w1 cg ws1_def rest by blast
    have "outranks_current t k1 = outranks_current t k" for t
      by (rule outranks_cong) (simp_all add: f1)
    moreover have "scan_loop e sy (Some c) k = scan_loop e (sy \<or> outranks_current c k) (first_of ts) k1"
      using True k1(1) nx by (subst scan_loop.simps) simp
    moreover have "plain k' = plain (scan_store e ws k)"
      using k'(2) k1(2) by (simp add: plain_scan_store ws) (simp add: scan_store_def)
    moreover have "scan_lists e k1 (map fst ws1) rest ?L1 = scan_lists e k (map fst ws) rest L"
      using fold_enqueue_cong [of k1 k] by (simp add: scan_lists_def ws enqueue_event f1)
    ultimately show ?thesis using k' True cg(2) by (auto simp: ws)
  qed
qed

subsection \<open>The operations on flags\<close>

lemma get_bits_eq: "get_bits e k = Inr (event_bits k e, k)"
  by (simp add: get_bits_def critical_def enter_critical_def exit_critical_def)

lemma clear_bits_eq:
  "clear_bits e m k = Inr (event_bits k e AND NOT m, set_event_bits e (event_bits k e AND NOT m) k)"
  by (simp add: clear_bits_def critical_def enter_critical_def exit_critical_def Let_def
      set_event_bits_def)

lemma set_bits_locked_ok:
  assumes inv: "kinv k L W" and w: "w = event_bits k e OR m"
    and ws: "ws = scan_woken (tcbs k) w (L (Event_Waiters e))"
  shows "\<exists>k'. set_bits_locked e m k =
             Inr ((\<exists>t \<in> fst ` set ws. outranks_current t k, scan_bits (tcbs k) w (L (Event_Waiters e))), k') \<and>
           plain k' = plain (scan_store e ws (set_event_bits e w k)) \<and>
           event_bits k' e = scan_bits (tcbs k) w (L (Event_Waiters e)) \<and>
           kinv k' (scan_lists e k (map fst ws) (scan_rest (tcbs k) w (L (Event_Waiters e))) L)
             (fold remove_wake (map fst ws) W)"
proof -
  let ?k = "set_event_bits e w (k\<lparr>primask := True\<rparr>)"
  have inv': "kinv ?k L W" using inv by simp
  have o: "outranks_current t ?k = outranks_current t k" for t by (rule outranks_cong) simp_all
  have sl: "scan_lists e ?k ts r L = scan_lists e k ts r L" for ts r
    unfolding scan_lists_def by (rule fold_enqueue_cong) simp
  obtain k1 where k1: "scan_loop e False (first_of (L (Event_Waiters e))) ?k =
        Some (Inr (\<exists>t \<in> fst ` set ws. outranks_current t k, k1))"
    "plain k1 = plain (scan_store e ws ?k)"
    "event_bits k1 e = scan_bits (tcbs k) w (L (Event_Waiters e))"
    "kinv k1 (scan_lists e k (map fst ws) (scan_rest (tcbs k) w (L (Event_Waiters e))) L)
             (fold remove_wake (map fst ws) W)"
    using scan_loop_ok [OF inv', of e "[]" "L (Event_Waiters e)" ws _ False] ws
    by (auto simp: o sl)
  have pf: "peek_front (Event_Waiters e) ?k = first_of (L (Event_Waiters e))"
    by (rule peek_front_ok [OF kinv_wf [OF inv']])
  let ?k' = "k1\<lparr>primask := primask k\<rparr>"
  have "set_bits_locked e m k = Inr ((\<exists>t \<in> fst ` set ws. outranks_current t k,
      scan_bits (tcbs k) w (L (Event_Waiters e))), ?k')"
    unfolding set_bits_locked_def
    by (rule critical_Inr) (use k1(1,3) pf w in \<open>simp add: Let_def scan_and_wake_locked_def\<close>)
  moreover have "plain ?k' = plain (scan_store e ws (set_event_bits e w k))"
  proof -
    have "scan_store e ws (set_event_bits e w (K\<lparr>primask := p\<rparr>)) =
        (scan_store e ws (set_event_bits e w K))\<lparr>primask := p\<rparr>" for K p
    proof -
      have *: "event_store e b t (K\<lparr>primask := p\<rparr>) = (event_store e b t K)\<lparr>primask := p\<rparr>" for b t K
        by (simp add: event_store_def)
      have "scan_store e ws (K\<lparr>primask := p\<rparr>) = (scan_store e ws K)\<lparr>primask := p\<rparr>" for K
        by (induction ws arbitrary: K) (auto simp: scan_store_def * split: prod.split)
      moreover have "set_event_bits e w (K\<lparr>primask := p\<rparr>) = (set_event_bits e w K)\<lparr>primask := p\<rparr>"
        by (simp add: set_event_bits_def)
      ultimately show ?thesis by simp
    qed
    moreover have "primask (scan_store e ws K) = primask K" for K
      by (induction ws arbitrary: K) (auto simp: scan_store_def split: prod.split)
    ultimately show ?thesis using k1(2) by (simp add: plain_scan_store)
  qed
  ultimately show ?thesis using k1(3,4) by (intro exI [of _ ?k']) simp
qed

lemma set_bits_ok:
  assumes inv: "kinv k L W" and w: "w = event_bits k e OR m"
    and ws: "ws = scan_woken (tcbs k) w (L (Event_Waiters e))"
  shows "\<exists>k'. set_bits e m k = Inr (scan_bits (tcbs k) w (L (Event_Waiters e)), k') \<and>
           plain k' = plain (yield_if (\<exists>t \<in> fst ` set ws. outranks_current t k)
             (scan_store e ws (set_event_bits e w k))) \<and>
           event_bits k' e = scan_bits (tcbs k) w (L (Event_Waiters e)) \<and>
           kinv k' (scan_lists e k (map fst ws) (scan_rest (tcbs k) w (L (Event_Waiters e))) L)
             (fold remove_wake (map fst ws) W)"
proof -
  obtain k1 where k1: "set_bits_locked e m k =
             Inr ((\<exists>t \<in> fst ` set ws. outranks_current t k, scan_bits (tcbs k) w (L (Event_Waiters e))), k1)"
    "plain k1 = plain (scan_store e ws (set_event_bits e w k))"
    "event_bits k1 e = scan_bits (tcbs k) w (L (Event_Waiters e))"
    "kinv k1 (scan_lists e k (map fst ws) (scan_rest (tcbs k) w (L (Event_Waiters e))) L)
             (fold remove_wake (map fst ws) W)"
    using set_bits_locked_ok [OF assms] by blast
  let ?k' = "yield_if (\<exists>t \<in> fst ` set ws. outranks_current t k) k1"
  have "set_bits e m k = Inr (scan_bits (tcbs k) w (L (Event_Waiters e)), ?k')"
    using k1(1) by (simp add: set_bits_def yield_if_def)
  then show ?thesis using k1(2-4) by (intro exI [of _ ?k']) simp
qed

subsection \<open>Waiting\<close>

lemma wait_bits_match:
  assumes t: "current_task k = Some t" and isr: "ipsr k = 0" and m: "m \<noteq> 0"
    and sat: "bits_satisfy (event_bits k e) m al"
    and k': "k' = k\<lparr>mem := store32 ret (event_bits k e) (store32 ret 0 (mem k)),
      event_bits := (event_bits k)(e := (if clr then event_bits k e AND NOT m else event_bits k e))\<rparr>"
  shows "wait_bits e m al clr timeout_ms ret k = Inr (Returned (event_bits k e), k')"
  using assms
  by (simp add: wait_bits_def Let_def critical_def enter_critical_def exit_critical_def in_isr_def
      set_event_bits_def)

lemma wait_bits_poll:
  assumes t: "current_task k = Some t" and isr: "ipsr k = 0" and m: "m \<noteq> 0"
    and sat: "\<not> bits_satisfy (event_bits k e) m al"
  shows "wait_bits e m al clr 0 ret k = Inr (Returned (event_bits k e), k\<lparr>mem := store32 ret 0 (mem k)\<rparr>)"
  using assms
  by (simp add: wait_bits_def Let_def critical_def enter_critical_def exit_critical_def in_isr_def)

definition event_wait_store :: "nat \<Rightarrow> 32 word \<Rightarrow> bool \<Rightarrow> bool \<Rightarrow> addr \<Rightarrow> tid \<Rightarrow> kernel \<Rightarrow> kernel" where
  "event_wait_store e m al clr ret t k =
     upd_tcb t (\<lambda>b. b\<lparr>event_wait_mask := m, event_wait_all := al, event_clear_on_exit := clr,
         xfer_ptr := Some ret, timeout_expired := False,
         wait_list := Some (Event_Waiters e), state := Blocked\<rparr>)
       (k\<lparr>mem := store32 ret 0 (mem k)\<rparr>)"

lemma wait_bits_blocks:
  assumes inv: "kinv k L W" and t: "current_task k = Some t" "state (tcbs k t) = Running"
    and isr: "ipsr k = 0" and m: "m \<noteq> 0" and n: "timeout_ms \<noteq> 0"
    and sat: "\<not> bits_satisfy (event_bits k e) m al"
  shows "\<exists>k'. wait_bits e m al clr timeout_ms ret k = Inr (Waiting, k') \<and>
           plain k' = plain (task_yield (event_wait_store e m al clr ret t k)) \<and>
           kinv k' (parked k (Event_Waiters e) t L) (time_limit timeout_ms t W)"
proof -
  let ?k0 = "k\<lparr>mem := store32 ret 0 (mem k), primask := True\<rparr>"
  let ?k = "upd_tcb t (\<lambda>b. b\<lparr>timeout_expired := False\<rparr>)
     (upd_tcb t (\<lambda>b. b\<lparr>xfer_ptr := Some ret\<rparr>)
     (upd_tcb t (\<lambda>b. b\<lparr>event_clear_on_exit := clr\<rparr>)
     (upd_tcb t (\<lambda>b. b\<lparr>event_wait_all := al\<rparr>)
     (upd_tcb t (\<lambda>b. b\<lparr>event_wait_mask := m\<rparr>) ?k0))))"
  have "kinv ?k L W" using inv by (simp del: upd_tcb_field)
  from wq.block [OF this, of "Event_Waiters e" t timeout_ms] t n
  obtain k1 where k1: "andthen (park (Event_Waiters e) (Some t) ?k) (start_timeout timeout_ms) = Inr k1"
    "plain k1 = plain (upd_tcb t (\<lambda>b. b\<lparr>wait_list := Some (Event_Waiters e), state := Blocked\<rparr>) ?k)"
    "kinv k1 (parked ?k (Event_Waiters e) t L) (time_limit timeout_ms t W)"
    by (auto simp del: upd_tcb_field)
  have pk: "parked ?k (Event_Waiters e) t L = parked k (Event_Waiters e) t L"
    by (rule parked_cong) simp
  let ?k' = "task_yield (k1\<lparr>primask := primask k\<rparr>)"
  have nt: "t < ntasks k" by (rule kinv_current [OF inv t(1)])
  have w: "wait_list (tcbs k t) = None"
    using task_ok_blocked [OF kinv_task [OF inv nt]] t(2) by auto
  obtain k2 where k2: "park (Event_Waiters e) (Some t) ?k = Inr k2" "start_timeout timeout_ms k2 = Inr k1"
    using k1(1) by (cases "park (Event_Waiters e) (Some t) ?k") auto
  have "wait_bits e m al clr timeout_ms ret k = Inr (Waiting, ?k')"
    using t m n isr sat w k2
    by (simp add: wait_bits_def park_def Let_def critical_def enter_critical_def exit_critical_def in_isr_def)
  moreover have "plain ?k' = plain (task_yield (event_wait_store e m al clr ret t k))"
    using k1(2) by (simp add: event_wait_store_def plain_upd_tcb upd_tcb_twice)
  moreover have "kinv ?k' (parked k (Event_Waiters e) t L) (time_limit timeout_ms t W)"
    using k1(3) unfolding pk by simp
  ultimately show ?thesis by blast
qed

end
