(* ===== verification/Ring_Buffer.thy ===== *)
theory Ring_Buffer
  imports Kernel_State
begin

text \<open>
  Bytes in memory and the ring buffer of \<open>QueueCore\<close> (queue.hpp 59-68, queue.cpp 23-37).
  The locale \<open>fifo\<close> states what the queue operations rely on: a buffer that holds a sequence
  of items, which \<open>push\<close> extends by the contents of a caller's buffer and \<open>pop\<close> shortens
  into one. The interpretation \<open>rb\<close> shows that the ring of slots with two indices and a
  count is such a buffer.
\<close>

subsection \<open>Bytes\<close>

definition memcpy :: "addr \<Rightarrow> addr \<Rightarrow> nat \<Rightarrow> (addr \<Rightarrow> 8 word) \<Rightarrow> addr \<Rightarrow> 8 word" where
  "memcpy dst src n m = (\<lambda>a. if dst \<le> a \<and> a < dst + n then m (src + (a - dst)) else m a)"

definition read_bytes :: "addr \<Rightarrow> nat \<Rightarrow> (addr \<Rightarrow> 8 word) \<Rightarrow> 8 word list" where
  "read_bytes a n m = map (\<lambda>i. m (a + i)) [0..<n]"

lemma length_read_bytes [simp]: "length (read_bytes a n m) = n"
  by (simp add: read_bytes_def)

lemma read_memcpy [simp]: "read_bytes dst n (memcpy dst src n m) = read_bytes src n m"
  by (simp add: read_bytes_def memcpy_def)

lemma read_memcpy_other:
  "a + n' \<le> dst \<or> dst + n \<le> a \<Longrightarrow> read_bytes a n' (memcpy dst src n m) = read_bytes a n' m"
  by (auto simp: read_bytes_def memcpy_def)

subsection \<open>The contract of the buffer\<close>

locale fifo =
  fixes ok :: "'s \<Rightarrow> bool" and items :: "'s \<Rightarrow> 'i list" and bound :: "'s \<Rightarrow> nat"
    and val :: "'b \<Rightarrow> 's \<Rightarrow> 'i" and outside :: "'b \<Rightarrow> 's \<Rightarrow> bool"
    and push :: "'b \<Rightarrow> 's \<Rightarrow> 's" and pop :: "'b \<Rightarrow> 's \<Rightarrow> 's"
  assumes bounded: "ok s \<Longrightarrow> length (items s) \<le> bound s"
    and push: "\<lbrakk>ok s; length (items s) < bound s\<rbrakk> \<Longrightarrow>
      ok (push b s) \<and> items (push b s) = items s @ [val b s]"
    and pop: "\<lbrakk>ok s; items s = x # xs; outside b s\<rbrakk> \<Longrightarrow>
      ok (pop b s) \<and> items (pop b s) = xs \<and> val b (pop b s) = x"
    and push_frame: "ok s \<Longrightarrow> length (items s) < bound s \<Longrightarrow> outside b' s \<Longrightarrow>
      val b' (push b s) = val b' s"
    and fixed: "bound (push b s) = bound s" "outside b' (push b s) = outside b' s"
      "bound (pop b s) = bound s" "outside b' (pop b s) = outside b' s"
begin

text \<open>Making room and filling it: the length does not change and the order is kept.\<close>

lemma rotate:
  assumes "ok s" and "items s = x # xs" and "outside b s"
  shows "ok (push b' (pop b s))" "items (push b' (pop b s)) = xs @ [val b' (pop b s)]"
    and "outside b s \<Longrightarrow> val b (push b' (pop b s)) = x"
proof -
  note p = pop [OF assms]
  have "length (items (pop b s)) < bound (pop b s)"
    using p bounded [OF assms(1)] assms(2) by (simp add: fixed)
  note q = push [OF _ this] and f = push_frame [OF _ this]
  show "ok (push b' (pop b s))" "items (push b' (pop b s)) = xs @ [val b' (pop b s)]"
    using q p by auto
  show "val b (push b' (pop b s)) = x" if "outside b s"
    using f p that by (simp add: fixed)
qed

text \<open>Items come out in the order in which they went in.\<close>

lemma push_many:
  assumes "ok s" and "length (items s) + length bs \<le> bound s" and "\<forall>b \<in> set bs. outside b s"
  shows "ok (fold push bs s) \<and> items (fold push bs s) = items s @ map (\<lambda>b. val b s) bs \<and>
     bound (fold push bs s) = bound s"
  using assms
proof (induction bs arbitrary: s)
  case (Cons b bs)
  have p: "ok (push b s)" "items (push b s) = items s @ [val b s]"
    using push [of s b] Cons.prems by auto
  have "val c (push b s) = val c s" if "c \<in> set bs" for c
    using push_frame [of s c b] Cons.prems that by auto
  then have "map (\<lambda>c. val c (push b s)) bs = map (\<lambda>c. val c s) bs" by simp
  then show ?case using Cons.IH [of "push b s"] Cons.prems p by (simp add: fixed)
qed simp

end

subsection \<open>The ring\<close>

type_synonym ring = "queue_core \<times> (addr \<Rightarrow> 8 word)"

definition slot :: "queue_core \<Rightarrow> nat \<Rightarrow> addr" where
  "slot c i = storage c + item_size c * i"

definition advance :: "queue_core \<Rightarrow> nat \<Rightarrow> nat" where
  "advance c i = (if i + 1 = capacity c then 0 else i + 1)"

definition ring_push :: "addr \<Rightarrow> ring \<Rightarrow> ring" where
  "ring_push item s = (case s of (c, m) \<Rightarrow>
     (c\<lparr>q_tail := advance c (q_tail c), q_count := q_count c + 1\<rparr>,
      memcpy (slot c (q_tail c)) item (item_size c) m))"

definition ring_pop :: "addr \<Rightarrow> ring \<Rightarrow> ring" where
  "ring_pop out s = (case s of (c, m) \<Rightarrow>
     (c\<lparr>q_head := advance c (q_head c), q_count := q_count c - 1\<rparr>,
      memcpy out (slot c (q_head c)) (item_size c) m))"

definition ring_ok :: "queue_core \<Rightarrow> bool" where
  "ring_ok c \<longleftrightarrow> 0 < capacity c \<and> 0 < item_size c \<and> q_head c < capacity c \<and>
     q_count c \<le> capacity c \<and> q_tail c = (q_head c + q_count c) mod capacity c"

definition ring_items :: "ring \<Rightarrow> 8 word list list" where
  "ring_items s = (case s of (c, m) \<Rightarrow>
     map (\<lambda>i. read_bytes (slot c ((q_head c + i) mod capacity c)) (item_size c) m) [0..<q_count c])"

definition ring_outside :: "addr \<Rightarrow> queue_core \<Rightarrow> bool" where
  "ring_outside a c \<longleftrightarrow>
     a + item_size c \<le> storage c \<or> storage c + item_size c * capacity c \<le> a"

lemma advance_mod: "i < capacity c \<Longrightarrow> advance c i = Suc i mod capacity c"
  by (auto simp: advance_def)

lemma length_ring_items [simp]: "length (ring_items (c, m)) = q_count c"
  by (simp add: ring_items_def)

lemma slot_fields [simp]:
  "slot (c\<lparr>q_head := h\<rparr>) = slot c" "slot (c\<lparr>q_tail := h\<rparr>) = slot c"
  "slot (c\<lparr>q_count := h\<rparr>) = slot c"
  by (simp_all add: slot_def fun_eq_iff)

lemma slot_apart:
  assumes "i \<noteq> j"
  shows "slot c i + item_size c \<le> slot c j \<or> slot c j + item_size c \<le> slot c i"
proof -
  have *: "slot c a + item_size c \<le> slot c b" if "a < b" for a b
    using mult_le_mono2 [of "Suc a" b "item_size c"] that by (simp add: slot_def)
  show ?thesis using assms * by (metis nat_neq_iff)
qed

lemma slot_outside:
  assumes "ring_outside a c" and "i < capacity c"
  shows "a + item_size c \<le> slot c i \<or> slot c i + item_size c \<le> a"
proof -
  have "item_size c * i + item_size c \<le> item_size c * capacity c"
    using mult_le_mono2 [of "Suc i" "capacity c" "item_size c"] assms(2) by simp
  then show ?thesis using assms(1) by (auto simp: ring_outside_def slot_def)
qed

lemma mod_distinct:
  assumes "i < j" and "j < (n :: nat)"
  shows "(h + i) mod n \<noteq> (h + j) mod n"
proof
  assume "(h + i) mod n = (h + j) mod n"
  then have "n dvd (h + j) - (h + i)" using assms(1) by (subst mod_eq_dvd_iff_nat [symmetric]) simp_all
  then show False using assms by (auto dest: dvd_imp_le)
qed

lemma ring_push_ok:
  assumes ok: "ring_ok c" and room: "q_count c < capacity c"
  shows "ring_ok (fst (ring_push b (c, m)))"
    and "ring_items (ring_push b (c, m)) = ring_items (c, m) @ [read_bytes b (item_size c) m]"
proof -
  have tl: "q_tail c = (q_head c + q_count c) mod capacity c" "q_tail c < capacity c"
    using ok by (auto simp: ring_ok_def)
  then show "ring_ok (fst (ring_push b (c, m)))"
    using ok room by (simp add: ring_ok_def ring_push_def advance_mod mod_Suc_eq)
  let ?m = "memcpy (slot c (q_tail c)) b (item_size c) m"
  have "read_bytes (slot c ((q_head c + i) mod capacity c)) (item_size c) ?m =
      read_bytes (slot c ((q_head c + i) mod capacity c)) (item_size c) m" if "i < q_count c" for i
    using slot_apart [of "(q_head c + i) mod capacity c" "q_tail c" c]
      mod_distinct [OF that room, of "q_head c"] tl(1)
    by (intro read_memcpy_other) auto
  then show "ring_items (ring_push b (c, m)) = ring_items (c, m) @ [read_bytes b (item_size c) m]"
    by (simp add: ring_items_def ring_push_def tl(1) [symmetric])
qed

lemma ring_pop_keeps:
  assumes ok: "ring_ok c" and pos: "q_count c \<noteq> 0"
  shows "ring_ok (fst (ring_pop b (c, m)))"
proof -
  obtain n where n: "q_count c = Suc n" using pos by (cases "q_count c") auto
  have "q_head c < capacity c" using ok by (simp add: ring_ok_def)
  then show ?thesis using ok by (simp add: ring_ok_def ring_pop_def advance_mod mod_simps n)
qed

lemma ring_pop_ok:
  assumes ok: "ring_ok c" and ne: "ring_items (c, m) = x # xs" and out: "ring_outside b c"
  shows "ring_ok (fst (ring_pop b (c, m)))" and "ring_items (ring_pop b (c, m)) = xs"
    and "read_bytes b (item_size c) (snd (ring_pop b (c, m))) = x"
proof -
  have pos: "0 < q_count c" using ne length_ring_items [of c m] by (metis length_greater_0_conv list.distinct(1))
  have hd: "q_head c < capacity c" and cap: "0 < capacity c" using ok by (auto simp: ring_ok_def)
  show "ring_ok (fst (ring_pop b (c, m)))" using ring_pop_keeps [OF ok] pos by simp
  have up: "[0..<q_count c] = 0 # map Suc [0..<q_count c - 1]"
    using pos by (simp add: map_Suc_upt upt_conv_Cons)
  have hx: "x = read_bytes (slot c (q_head c)) (item_size c) m"
    and xs: "xs = map (\<lambda>i. read_bytes (slot c ((q_head c + Suc i) mod capacity c)) (item_size c) m)
      [0..<q_count c - 1]"
    using ne hd by (simp_all add: ring_items_def up comp_def)
  show "read_bytes b (item_size c) (snd (ring_pop b (c, m))) = x"
    by (simp add: ring_pop_def hx)
  let ?m = "memcpy b (slot c (q_head c)) (item_size c) m"
  have "read_bytes (slot c (i mod capacity c)) (item_size c) ?m =
      read_bytes (slot c (i mod capacity c)) (item_size c) m" for i
    using slot_outside [OF out, of "i mod capacity c"] cap by (intro read_memcpy_other) auto
  then show "ring_items (ring_pop b (c, m)) = xs"
    using hd by (simp add: ring_items_def ring_pop_def xs advance_mod mod_simps)
qed

text \<open>The ring is a buffer as the queue operations need it.\<close>

interpretation rb: fifo "\<lambda>s. ring_ok (fst s)" ring_items "\<lambda>s. capacity (fst s)"
  "\<lambda>b s. read_bytes b (item_size (fst s)) (snd s)" "\<lambda>b s. ring_outside b (fst s)"
  ring_push ring_pop
proof (unfold_locales, goal_cases)
  case (1 s)
  then show ?case by (cases s) (simp add: ring_ok_def)
next
  case (2 s b)
  then show ?case using ring_push_ok [of "fst s" b "snd s"] by (cases s) simp
next
  case (3 s x xs b)
  then show ?case using ring_pop_ok [of "fst s" "snd s" x xs b]
    by (cases s) (simp add: ring_pop_def)
next
  case (4 s b' b)
  then have "q_tail (fst s) < capacity (fst s)" by (auto simp: ring_ok_def)
  then show ?case using slot_outside [of b' "fst s"] 4
    by (cases s) (auto simp: ring_push_def intro!: read_memcpy_other)
qed (auto simp: ring_push_def ring_pop_def ring_outside_def split: prod.splits)

end
