(* ===== verification/Queue_Core.thy ===== *)
theory Queue_Core
  imports Wait_Queue Ring_Buffer
begin

text \<open>
  \<open>QueueCore\<close> (queue.hpp 31-85, queue.cpp): the ring buffer with two wait queues. A task that
  blocks leaves the address of its own buffer in \<open>xfer_ptr\<close>, and the side that wakes it
  copies the item: into the buffer of a waiting receiver, or from the buffer of a waiting
  sender into the slot a receive has just freed. \<open>queue_ok\<close> is the invariant this protocol
  rests on. Addresses, indices and the count are natural numbers: \<open>queue_ok\<close> keeps them
  within the storage, so no \<open>std::size_t\<close> wraps.
\<close>

subsection \<open>The operations\<close>

definition upd_queue :: "nat \<Rightarrow> (queue_core \<Rightarrow> queue_core) \<Rightarrow> kernel \<Rightarrow> kernel" where
  "upd_queue q f k = k\<lparr>queues := (queues k)(q := f (queues k q))\<rparr>"

text \<open>With assertions off a null storage pointer is kept; a null pointer is address 0.\<close>

definition construct_queue :: "nat \<Rightarrow> addr option \<Rightarrow> nat \<Rightarrow> nat \<Rightarrow> kernel \<Rightarrow> kernel res" where
  "construct_queue q st isz cap k =
     (let k = upd_list (Queue_Senders q) (\<lambda>_. initial_list) k;
          k = upd_list (Queue_Receivers q) (\<lambda>_. initial_list) k
      in acr_assert k (st \<noteq> None \<and> isz > 0 \<and> cap > 0)
          (Inr (upd_queue q (\<lambda>_. \<lparr>storage = (case st of Some a \<Rightarrow> a | None \<Rightarrow> 0), item_size = isz,
                 capacity = cap, q_head = 0, q_tail = 0, q_count = 0\<rparr>) k)))"

definition destroy_queue :: "nat \<Rightarrow> kernel \<Rightarrow> kernel res" where
  "destroy_queue q k =
     acr_assert k (wq_is_empty (Queue_Senders q) k \<and> wq_is_empty (Queue_Receivers q) k) (Inr k)"

definition queue_count :: "nat \<Rightarrow> kernel \<Rightarrow> (nat \<times> kernel) res" where
  "queue_count q = critical (\<lambda>k. Inr (q_count (queues k q), k))"

definition queue_capacity :: "nat \<Rightarrow> kernel \<Rightarrow> nat" where
  "queue_capacity q k = capacity (queues k q)"

definition push_raw :: "nat \<Rightarrow> addr \<Rightarrow> kernel \<Rightarrow> kernel" where
  "push_raw q item k =
     (let c = queues k q;
          k = k\<lparr>mem := memcpy (storage c + item_size c * q_tail c) item (item_size c) (mem k)\<rparr>;
          k = upd_queue q (\<lambda>c. c\<lparr>q_tail := q_tail c + 1\<rparr>) k;
          k = (if q_tail (queues k q) = capacity (queues k q)
               then upd_queue q (\<lambda>c. c\<lparr>q_tail := 0\<rparr>) k else k)
      in upd_queue q (\<lambda>c. c\<lparr>q_count := q_count c + 1\<rparr>) k)"

definition pop_raw :: "nat \<Rightarrow> addr \<Rightarrow> kernel \<Rightarrow> kernel" where
  "pop_raw q out k =
     (let c = queues k q;
          k = k\<lparr>mem := memcpy out (storage c + item_size c * q_head c) (item_size c) (mem k)\<rparr>;
          k = upd_queue q (\<lambda>c. c\<lparr>q_head := q_head c + 1\<rparr>) k;
          k = (if q_head (queues k q) = capacity (queues k q)
               then upd_queue q (\<lambda>c. c\<lparr>q_head := 0\<rparr>) k else k)
      in upd_queue q (\<lambda>c. c\<lparr>q_count := q_count c - 1\<rparr>) k)"

text \<open>The reference parameter \<open>should_yield\<close> is passed in and returned.\<close>

definition try_send_locked ::
  "nat \<Rightarrow> addr \<Rightarrow> bool \<Rightarrow> kernel \<Rightarrow> ((bool \<times> bool) \<times> kernel) res" where
  "try_send_locked q item should_yield k =
     andthen (wake_highest (Queue_Receivers q) k) (\<lambda>(receiver, k).
       case receiver of
         Some r \<Rightarrow>
           acr_assert k (q_count (queues k q) = 0)
            (deref (xfer_ptr (tcbs k r)) (\<lambda>x.
              let k = k\<lparr>mem := memcpy x item (item_size (queues k q)) (mem k)\<rparr>
              in andthen (make_task_ready (Some r) k) (\<lambda>(should_yield, k).
                   Inr ((True, should_yield), k))))
       | None \<Rightarrow>
           if q_count (queues k q) < capacity (queues k q)
           then Inr ((True, should_yield), push_raw q item k)
           else Inr ((False, should_yield), k))"

definition try_receive_locked ::
  "nat \<Rightarrow> addr \<Rightarrow> bool \<Rightarrow> kernel \<Rightarrow> ((bool \<times> bool) \<times> kernel) res" where
  "try_receive_locked q out should_yield k =
     (if q_count (queues k q) = 0 then Inr ((False, should_yield), k)
      else
        andthen (wake_highest (Queue_Senders q) (pop_raw q out k)) (\<lambda>(sender, k).
          case sender of
            Some s \<Rightarrow>
              deref (xfer_ptr (tcbs k s)) (\<lambda>x.
                andthen (make_task_ready (Some s) (push_raw q x k)) (\<lambda>(should_yield, k).
                  Inr ((True, should_yield), k)))
          | None \<Rightarrow> Inr ((True, should_yield), k)))"

definition block_current_locked ::
  "list_id \<Rightarrow> addr \<Rightarrow> tick \<Rightarrow> kernel \<Rightarrow> (tptr \<times> kernel) res" where
  "block_current_locked l xfer timeout_ms k =
     acr_assert k (\<not> in_isr k)
      (acr_assert k (current_task k \<noteq> None)
        (case current_task k of
           None \<Rightarrow> Inr (None, k)
         | Some t \<Rightarrow>
             let k = upd_tcb t (\<lambda>b. b\<lparr>xfer_ptr := Some xfer\<rparr>) k;
                 k = upd_tcb t (\<lambda>b. b\<lparr>timeout_expired := False\<rparr>) k
             in andthen (park l (Some t) k) (\<lambda>k.
                andthen (start_timeout timeout_ms k) (\<lambda>k. Inr (Some t, k)))))"

definition finish_call :: "tptr \<Rightarrow> bool \<Rightarrow> kernel \<Rightarrow> bool outcome \<times> kernel" where
  "finish_call blocked should_yield k =
     (case blocked of
        None \<Rightarrow> (Returned True, if should_yield then task_yield k else k)
      | Some t \<Rightarrow> (Waiting, task_yield k))"

text \<open>
  The critical section of a call ends with a \<open>return false\<close> of the call (\<open>Inl\<close>) or with
  \<open>blocked\<close> and \<open>should_yield\<close>.
\<close>

definition queue_send :: "nat \<Rightarrow> addr \<Rightarrow> tick \<Rightarrow> kernel \<Rightarrow> (bool outcome \<times> kernel) res" where
  "queue_send q item timeout_ms k =
     andthen
       (critical (\<lambda>k.
          andthen (try_send_locked q item False k) (\<lambda>((sent, should_yield), k).
            if \<not> sent
            then if timeout_ms = 0 then Inr (Inl False, k)
                 else andthen (block_current_locked (Queue_Senders q) item timeout_ms k)
                        (\<lambda>(blocked, k). Inr (if blocked = None then Inl False
                                             else Inr (blocked, should_yield), k))
            else Inr (Inr (None, should_yield), k))) k)
       (\<lambda>(r, k). case r of
          Inl b \<Rightarrow> Inr (Returned b, k)
        | Inr (blocked, should_yield) \<Rightarrow> Inr (finish_call blocked should_yield k))"

definition queue_receive :: "nat \<Rightarrow> addr \<Rightarrow> tick \<Rightarrow> kernel \<Rightarrow> (bool outcome \<times> kernel) res" where
  "queue_receive q out timeout_ms k =
     andthen
       (critical (\<lambda>k.
          andthen (try_receive_locked q out False k) (\<lambda>((received, should_yield), k).
            if \<not> received
            then if timeout_ms = 0 then Inr (Inl False, k)
                 else andthen (block_current_locked (Queue_Receivers q) out timeout_ms k)
                        (\<lambda>(blocked, k). Inr (if blocked = None then Inl False
                                             else Inr (blocked, should_yield), k))
            else Inr (Inr (None, should_yield), k))) k)
       (\<lambda>(r, k). case r of
          Inl b \<Rightarrow> Inr (Returned b, k)
        | Inr (blocked, should_yield) \<Rightarrow> Inr (finish_call blocked should_yield k))"

definition queue_send_from_isr ::
  "nat \<Rightarrow> addr \<Rightarrow> kernel \<Rightarrow> ((bool \<times> bool) \<times> kernel) res" where
  "queue_send_from_isr q item = critical (try_send_locked q item False)"

definition queue_receive_from_isr ::
  "nat \<Rightarrow> addr \<Rightarrow> kernel \<Rightarrow> ((bool \<times> bool) \<times> kernel) res" where
  "queue_receive_from_isr q out = critical (try_receive_locked q out False)"

text \<open>
  \<open>Queue<T, N>\<close>: the template owns the storage and passes the address of the item and
  \<open>sizeof(T)\<close>. Its static assertions are \<open>queue_type_ok\<close>.
\<close>

definition queue_type_ok :: "nat \<Rightarrow> nat \<Rightarrow> bool" where
  "queue_type_ok size_T n \<longleftrightarrow> n > 0 \<and> size_T \<le> 64"

definition create_queue :: "nat \<Rightarrow> addr \<Rightarrow> nat \<Rightarrow> nat \<Rightarrow> kernel \<Rightarrow> kernel res" where
  "create_queue q st size_T n = construct_queue q (Some st) size_T n"

definition typed_send :: "nat \<Rightarrow> addr \<Rightarrow> tick \<Rightarrow> kernel \<Rightarrow> (bool outcome \<times> kernel) res" where
  "typed_send q item timeout_ms = queue_send q item timeout_ms"

definition typed_receive :: "nat \<Rightarrow> addr \<Rightarrow> tick \<Rightarrow> kernel \<Rightarrow> (bool outcome \<times> kernel) res" where
  "typed_receive q out timeout_ms = queue_receive q out timeout_ms"

definition typed_send_from_isr :: "nat \<Rightarrow> addr \<Rightarrow> kernel \<Rightarrow> ((bool \<times> bool) \<times> kernel) res" where
  "typed_send_from_isr q item = queue_send_from_isr q item"

definition typed_receive_from_isr :: "nat \<Rightarrow> addr \<Rightarrow> kernel \<Rightarrow> ((bool \<times> bool) \<times> kernel) res" where
  "typed_receive_from_isr q out = queue_receive_from_isr q out"

definition typed_count :: "nat \<Rightarrow> kernel \<Rightarrow> (nat \<times> kernel) res" where
  "typed_count q = queue_count q"

definition typed_capacity :: "nat \<Rightarrow> nat" where
  "typed_capacity n = n"

subsection \<open>The ring of a queue\<close>

definition ring_of :: "nat \<Rightarrow> kernel \<Rightarrow> ring" where
  "ring_of q k = (queues k q, mem k)"

definition set_ring :: "nat \<Rightarrow> ring \<Rightarrow> kernel \<Rightarrow> kernel" where
  "set_ring q s k = k\<lparr>queues := (queues k)(q := fst s), mem := snd s\<rparr>"

lemma push_raw_eq: "push_raw q item k = set_ring q (ring_push item (ring_of q k)) k"
  by (rule kernel.equality)
    (auto simp: push_raw_def set_ring_def ring_push_def ring_of_def upd_queue_def Let_def advance_def
      slot_def fun_eq_iff)

lemma pop_raw_eq: "pop_raw q out k = set_ring q (ring_pop out (ring_of q k)) k"
  by (rule kernel.equality)
    (auto simp: pop_raw_def set_ring_def ring_pop_def ring_of_def upd_queue_def Let_def advance_def
      slot_def fun_eq_iff)

lemma set_ring_simps [simp]:
  "plain (set_ring q s k) = set_ring q s (plain k)"
  "kinv (set_ring q s k) L W = kinv k L W" "detached t (set_ring q s k) L W = detached t k L W"
  "tcbs (set_ring q s k) = tcbs k" "primask (set_ring q s k) = primask k"
  "current_task (set_ring q s k) = current_task k" "started (set_ring q s k) = started k"
  "use_assert (set_ring q s k) = use_assert k" "ntasks (set_ring q s k) = ntasks k"
  "queues (set_ring q s k) = (queues k)(q := fst s)" "mem (set_ring q s k) = snd s"
  "ring_of q (set_ring q s k) = s"
  "set_ring q s (set_ring q s' k) = set_ring q s k"
  "(set_ring q s k)\<lparr>primask := b\<rparr> = set_ring q s (k\<lparr>primask := b\<rparr>)"
  "upd_tcb t f (set_ring q s k) = set_ring q s (upd_tcb t f k)"
  by (simp_all add: set_ring_def ring_of_def)

lemma ring_of_simps [simp]:
  "ring_of q (plain k) = ring_of q k" "ring_of q (k\<lparr>primask := b\<rparr>) = ring_of q k"
  "ring_of q (upd_tcb t f k) = ring_of q k" "ring_of q (yield_if c k) = ring_of q k"
  "ring_of q (task_yield k) = ring_of q k"
  by (simp_all add: ring_of_def)

lemma ring_of_plain: "plain k' = plain k \<Longrightarrow> ring_of q k' = ring_of q k"
  by (simp add: ring_of_def plainD(22,23) [of k' k])

text \<open>The items stored, and with them those the blocked senders wait to store.\<close>

definition queue_items :: "nat \<Rightarrow> kernel \<Rightarrow> 8 word list list" where
  "queue_items q k = ring_items (ring_of q k)"

definition waiting_item :: "nat \<Rightarrow> kernel \<Rightarrow> tid \<Rightarrow> 8 word list" where
  "waiting_item q k t = read_bytes (the (xfer_ptr (tcbs k t))) (item_size (queues k q)) (mem k)"

definition backlog :: "nat \<Rightarrow> kernel \<Rightarrow> (list_id \<Rightarrow> tid list) \<Rightarrow> 8 word list list" where
  "backlog q k L = queue_items q k @ map (waiting_item q k) (L (Queue_Senders q))"

definition queue_ok :: "nat \<Rightarrow> kernel \<Rightarrow> (list_id \<Rightarrow> tid list) \<Rightarrow> bool" where
  "queue_ok q k L \<longleftrightarrow> ring_ok (queues k q) \<and>
     (L (Queue_Receivers q) \<noteq> [] \<longrightarrow> q_count (queues k q) = 0) \<and>
     (L (Queue_Senders q) \<noteq> [] \<longrightarrow> q_count (queues k q) = capacity (queues k q)) \<and>
     (\<forall>t \<in> set (L (Queue_Receivers q)) \<union> set (L (Queue_Senders q)). xfer_ptr (tcbs k t) \<noteq> None)"

lemma queue_one_side:
  "queue_ok q k L \<Longrightarrow> L (Queue_Receivers q) = [] \<or> L (Queue_Senders q) = []"
  by (auto simp: queue_ok_def ring_ok_def)

lemma length_queue_items: "length (queue_items q k) = q_count (queues k q)"
  by (simp add: queue_items_def ring_of_def)

subsection \<open>Inside the critical section\<close>

text \<open>The stores of a wake-up.\<close>

definition woken_store :: "tid \<Rightarrow> kernel \<Rightarrow> kernel" where
  "woken_store t k = upd_tcb t (\<lambda>b. b\<lparr>state := Ready, wait_list := None\<rparr>) k"

lemma plain_woken_store [simp]: "plain (woken_store t k) = woken_store t (plain k)"
  unfolding woken_store_def by (rule plain_upd_tcb) simp

lemma woken_store_simps [simp]:
  "ring_of q (woken_store t k) = ring_of q k" "queues (woken_store t k) = queues k"
  "mem (woken_store t k) = mem k" "primask (woken_store t k) = primask k"
  "xfer_ptr (tcbs (woken_store t k) s) = xfer_ptr (tcbs k s)"
  "woken_store t (k\<lparr>primask := b\<rparr>) = (woken_store t k)\<lparr>primask := b\<rparr>"
  by (simp_all add: woken_store_def)

lemma enqueue_queue [simp]:
  "enqueue k t L (Queue_Senders q) = L (Queue_Senders q)"
  "enqueue k t L (Queue_Receivers q) = L (Queue_Receivers q)"
  by (simp_all add: enqueue_def Let_def)

text \<open>The first waiter of \<open>l\<close> is woken, and made ready after a store into the ring of a queue.\<close>

lemma wake_and_store:
  assumes inv: "kinv k L W" and l: "\<not> is_ready_list l" and L: "L l = t # ts"
  shows "\<exists>k1. wake_highest l k = Inr (Some t, k1) \<and>
           plain k1 = plain (upd_tcb t (\<lambda>b. b\<lparr>wait_list := None\<rparr>) k) \<and>
           (\<forall>s. \<exists>k2. make_task_ready (Some t) (set_ring q s k1) = Inr (outranks_current t k, k2) \<and>
                plain k2 = plain (set_ring q s (woken_store t k)) \<and>
                kinv k2 (enqueue k t (L(l := ts))) (remove_wake t W))"
proof -
  obtain k1 where k1: "wake_highest l k = Inr (Some t, k1)"
    "plain k1 = plain (upd_tcb t (\<lambda>b. b\<lparr>wait_list := None\<rparr>) k)"
    "detached t k1 (L(l := ts)) (remove_wake t W)"
    using wq.wake_some [of k L W l t ts] inv l L by blast
  note f = plainD [OF k1(2)]
  have "\<exists>k2. make_task_ready (Some t) (set_ring q s k1) = Inr (outranks_current t k, k2) \<and>
          plain k2 = plain (set_ring q s (woken_store t k)) \<and>
          kinv k2 (enqueue k t (L(l := ts))) (remove_wake t W)" for s
  proof -
    have "outranks_current t (set_ring q s k1) = outranks_current t k"
      by (rule outranks_cong) (simp_all add: f)
    then obtain k2 where k2: "make_task_ready (Some t) (set_ring q s k1) = Inr (outranks_current t k, k2)"
      "plain k2 = plain (upd_tcb t (\<lambda>b. b\<lparr>state := Ready, wait_list := None\<rparr>) (set_ring q s k1))"
      "kinv k2 (enqueue k t (L(l := ts))) (remove_wake t W)"
      using wq.woken_ready [OF inv l L, of "set_ring q s k1"] k1(3) by (auto simp: f)
    moreover have "plain k2 = plain (set_ring q s (woken_store t k))"
      using k2(2) k1(2) by (simp add: woken_store_def plain_upd_tcb upd_tcb_twice)
    ultimately show ?thesis by blast
  qed
  then show ?thesis using k1 by blast
qed

lemma mem_as_ring: "k\<lparr>mem := m\<rparr> = set_ring q (queues k q, m) k"
  by (simp add: set_ring_def)

lemma try_send_hand_over:
  assumes inv: "kinv k L W" and L: "L (Queue_Receivers q) = r # rs"
    and c: "q_count (queues k q) = 0" and x: "xfer_ptr (tcbs k r) = Some x"
  shows "\<exists>k'. try_send_locked q item sy k = Inr ((True, outranks_current r k), k') \<and>
           plain k' = plain (set_ring q (queues k q, memcpy x item (item_size (queues k q)) (mem k))
             (woken_store r k)) \<and>
           kinv k' (enqueue k r (L(Queue_Receivers q := rs))) (remove_wake r W)"
proof -
  obtain k1 where k1: "wake_highest (Queue_Receivers q) k = Inr (Some r, k1)"
    "plain k1 = plain (upd_tcb r (\<lambda>b. b\<lparr>wait_list := None\<rparr>) k)"
    "\<And>s. \<exists>k2. make_task_ready (Some r) (set_ring q s k1) = Inr (outranks_current r k, k2) \<and>
                plain k2 = plain (set_ring q s (woken_store r k)) \<and>
                kinv k2 (enqueue k r (L(Queue_Receivers q := rs))) (remove_wake r W)"
    using wake_and_store [OF inv _ L, of q] by auto
  note f = plainD [OF k1(2)]
  show ?thesis
    using k1(1) k1(3) [of "(queues k q, memcpy x item (item_size (queues k q)) (mem k))"] c x
    by (auto simp: try_send_locked_def f mem_as_ring [where k = k1 and q = q])
qed

lemma try_send_nobody:
  assumes inv: "kinv k L W" and L: "L (Queue_Receivers q) = []"
  shows "try_send_locked q item sy k =
           (if q_count (queues k q) < capacity (queues k q) then Inr ((True, sy), push_raw q item k)
            else Inr ((False, sy), k))"
  using wq.wake_none [of k L W, OF inv L] by (simp add: try_send_locked_def)

lemma try_receive_empty:
  "q_count (queues k q) = 0 \<Longrightarrow> try_receive_locked q out sy k = Inr ((False, sy), k)"
  by (simp add: try_receive_locked_def)

lemma try_receive_nobody:
  assumes inv: "kinv k L W" and L: "L (Queue_Senders q) = []" and c: "q_count (queues k q) \<noteq> 0"
  shows "try_receive_locked q out sy k = Inr ((True, sy), pop_raw q out k)"
proof -
  have "kinv (pop_raw q out k) L W" using inv by (simp add: pop_raw_eq)
  from wq.wake_none [OF this L] c show ?thesis by (simp add: try_receive_locked_def)
qed

lemma try_receive_hand_over:
  assumes inv: "kinv k L W" and L: "L (Queue_Senders q) = s # ss"
    and c: "q_count (queues k q) \<noteq> 0" and x: "xfer_ptr (tcbs k s) = Some x"
  shows "\<exists>k'. try_receive_locked q out sy k = Inr ((True, outranks_current s k), k') \<and>
           plain k' = plain (set_ring q (ring_push x (ring_pop out (ring_of q k))) (woken_store s k)) \<and>
           kinv k' (enqueue k s (L(Queue_Senders q := ss))) (remove_wake s W)"
proof -
  let ?k = "pop_raw q out k"
  have inv': "kinv ?k L W" using inv by (simp add: pop_raw_eq)
  have o: "outranks_current s ?k = outranks_current s k"
    by (rule outranks_cong) (simp_all add: pop_raw_eq)
  have e: "enqueue ?k s M = enqueue k s M" for M by (rule enqueue_cong) (simp add: pop_raw_eq)
  obtain k1 where k1: "wake_highest (Queue_Senders q) ?k = Inr (Some s, k1)"
    "plain k1 = plain (upd_tcb s (\<lambda>b. b\<lparr>wait_list := None\<rparr>) ?k)"
    "\<And>st. \<exists>k2. make_task_ready (Some s) (set_ring q st k1) = Inr (outranks_current s k, k2) \<and>
                plain k2 = plain (set_ring q st (woken_store s ?k)) \<and>
                kinv k2 (enqueue k s (L(Queue_Senders q := ss))) (remove_wake s W)"
    using wake_and_store [OF inv' _ L, of q] unfolding o e by auto
  have r: "ring_of q k1 = ring_pop out (ring_of q k)"
    using ring_of_plain [OF k1(2)] by (simp add: pop_raw_eq)
  have x1: "xfer_ptr (tcbs k1 s) = Some x" using plainD(10) [OF k1(2), of s] x by (simp add: pop_raw_eq)
  have w: "set_ring q st (woken_store s ?k) = set_ring q st (woken_store s k)" for st
    by (simp add: pop_raw_eq woken_store_def)
  show ?thesis
    using k1(1) k1(3) [of "ring_push x (ring_pop out (ring_of q k))"] c x1
    by (auto simp: try_receive_locked_def push_raw_eq r w)
qed

subsection \<open>The calls\<close>

definition queue_blocked_store :: "list_id \<Rightarrow> addr \<Rightarrow> tid \<Rightarrow> kernel \<Rightarrow> kernel" where
  "queue_blocked_store l x t k =
     upd_tcb t (\<lambda>b. b\<lparr>xfer_ptr := Some x, timeout_expired := False, wait_list := Some l,
       state := Blocked\<rparr>) k"

lemma block_current_ok:
  assumes inv: "kinv k L W" and l: "\<not> is_ready_list l"
    and t: "current_task k = Some t" "state (tcbs k t) = Running"
    and n: "timeout_ms \<noteq> 0" and isr: "ipsr k = 0"
  shows "\<exists>k'. block_current_locked l x timeout_ms k = Inr (Some t, k') \<and>
           plain k' = plain (queue_blocked_store l x t k) \<and>
           kinv k' (parked k l t L) (time_limit timeout_ms t W)"
proof -
  let ?k = "upd_tcb t (\<lambda>b. b\<lparr>timeout_expired := False\<rparr>) (upd_tcb t (\<lambda>b. b\<lparr>xfer_ptr := Some x\<rparr>) k)"
  have "kinv ?k L W" using inv by simp
  from wq.block [OF this l, of t timeout_ms] t n
  obtain k1 where k1: "andthen (park l (Some t) ?k) (start_timeout timeout_ms) = Inr k1"
    "plain k1 = plain (upd_tcb t (\<lambda>b. b\<lparr>wait_list := Some l, state := Blocked\<rparr>) ?k)"
    "kinv k1 (parked ?k l t L) (time_limit timeout_ms t W)" by auto
  have "parked ?k l t L = parked k l t L" by (rule parked_cong) simp
  moreover have "plain k1 = plain (queue_blocked_store l x t k)"
    using k1(2) by (simp add: queue_blocked_store_def plain_upd_tcb upd_tcb_twice)
  ultimately show ?thesis using k1(1,3) t isr
    by (auto simp: block_current_locked_def in_isr_def andthen_eq_Inr Let_def)
qed

lemma primask_facts:
  "outranks_current t (k\<lparr>primask := b\<rparr>) = outranks_current t k"
  "enqueue (k\<lparr>primask := b\<rparr>) t L = enqueue k t L"
  "parked (k\<lparr>primask := b\<rparr>) l t L = parked k l t L"
  by (rule outranks_cong enqueue_cong parked_cong; simp)+

lemma push_raw_primask: "push_raw q x (k\<lparr>primask := b\<rparr>) = (push_raw q x k)\<lparr>primask := b\<rparr>"
  "pop_raw q x (k\<lparr>primask := b\<rparr>) = (pop_raw q x k)\<lparr>primask := b\<rparr>"
  by (simp_all add: push_raw_eq pop_raw_eq)

lemma raw_primask [simp]: "primask (push_raw q x k) = primask k" "primask (pop_raw q x k) = primask k"
  by (simp_all add: push_raw_eq pop_raw_eq)

text \<open>What a call does is what its attempt in the critical section does.\<close>

lemma queue_send_done:
  assumes "try_send_locked q item False (k\<lparr>primask := True\<rparr>) = Inr ((True, sy), k')"
  shows "queue_send q item n k = Inr (Returned True, yield_if sy (k'\<lparr>primask := primask k\<rparr>))"
    and "queue_send_from_isr q item k = Inr ((True, sy), k'\<lparr>primask := primask k\<rparr>)"
  using assms
  by (simp_all add: queue_send_def queue_send_from_isr_def critical_def enter_critical_def
      exit_critical_def finish_call_def yield_if_def)

lemma queue_receive_done:
  assumes "try_receive_locked q out False (k\<lparr>primask := True\<rparr>) = Inr ((True, sy), k')"
  shows "queue_receive q out n k = Inr (Returned True, yield_if sy (k'\<lparr>primask := primask k\<rparr>))"
    and "queue_receive_from_isr q out k = Inr ((True, sy), k'\<lparr>primask := primask k\<rparr>)"
  using assms
  by (simp_all add: queue_receive_def queue_receive_from_isr_def critical_def enter_critical_def
      exit_critical_def finish_call_def yield_if_def)

lemma queue_send_stored:
  assumes inv: "kinv k L W" and L: "L (Queue_Receivers q) = []"
    and c: "q_count (queues k q) < capacity (queues k q)"
  shows "queue_send q item n k = Inr (Returned True, push_raw q item k)"
    and "queue_send_from_isr q item k = Inr ((True, False), push_raw q item k)"
proof -
  have *: "try_send_locked q item False (k\<lparr>primask := True\<rparr>) =
      Inr ((True, False), push_raw q item (k\<lparr>primask := True\<rparr>))"
    using try_send_nobody [of "k\<lparr>primask := True\<rparr>" L W q] inv L c by simp
  show "queue_send q item n k = Inr (Returned True, push_raw q item k)"
    "queue_send_from_isr q item k = Inr ((True, False), push_raw q item k)"
    using queue_send_done [OF *] by (simp_all add: push_raw_primask)
qed

lemma queue_send_hand_over:
  assumes inv: "kinv k L W" and L: "L (Queue_Receivers q) = r # rs"
    and c: "q_count (queues k q) = 0" and x: "xfer_ptr (tcbs k r) = Some x"
    and K: "K = set_ring q (queues k q, memcpy x item (item_size (queues k q)) (mem k)) (woken_store r k)"
  shows "\<exists>k'. queue_send q item n k = Inr (Returned True, yield_if (outranks_current r k) k') \<and>
           queue_send_from_isr q item k = Inr ((True, outranks_current r k), k') \<and>
           plain k' = plain K \<and>
           kinv k' (enqueue k r (L(Queue_Receivers q := rs))) (remove_wake r W)"
proof -
  have inv': "kinv (k\<lparr>primask := True\<rparr>) L W" using inv by simp
  obtain k1 where k1: "try_send_locked q item False (k\<lparr>primask := True\<rparr>) =
      Inr ((True, outranks_current r k), k1)" "plain k1 = plain (K\<lparr>primask := True\<rparr>)"
    "kinv k1 (enqueue k r (L(Queue_Receivers q := rs))) (remove_wake r W)"
    using try_send_hand_over [OF inv' L, of x item False] c x unfolding primask_facts K by auto
  show ?thesis
    using queue_send_done [OF k1(1)] k1(2,3) K by (intro exI [of _ "k1\<lparr>primask := primask k\<rparr>"]) simp
qed

lemma queue_send_full:
  assumes inv: "kinv k L W" and L: "L (Queue_Receivers q) = []"
    and c: "\<not> q_count (queues k q) < capacity (queues k q)"
  shows "queue_send q item 0 k = Inr (Returned False, k)"
    and "queue_send_from_isr q item k = Inr ((False, False), k)"
  using try_send_nobody [of "k\<lparr>primask := True\<rparr>" L W q item False] inv L c
  by (simp_all add: queue_send_def queue_send_from_isr_def critical_def enter_critical_def
      exit_critical_def)

lemma queue_send_blocks:
  assumes inv: "kinv k L W" and L: "L (Queue_Receivers q) = []"
    and c: "\<not> q_count (queues k q) < capacity (queues k q)"
    and t: "current_task k = Some t" "state (tcbs k t) = Running"
    and n: "timeout_ms \<noteq> 0" and isr: "ipsr k = 0"
  shows "\<exists>k'. queue_send q item timeout_ms k = Inr (Waiting, k') \<and>
           plain k' = plain (task_yield (queue_blocked_store (Queue_Senders q) item t k)) \<and>
           kinv k' (parked k (Queue_Senders q) t L) (time_limit timeout_ms t W)"
proof -
  let ?k = "k\<lparr>primask := True\<rparr>"
  have inv': "kinv ?k L W" using inv by simp
  obtain k1 where k1: "block_current_locked (Queue_Senders q) item timeout_ms ?k = Inr (Some t, k1)"
    "plain k1 = plain (queue_blocked_store (Queue_Senders q) item t ?k)"
    "kinv k1 (parked k (Queue_Senders q) t L) (time_limit timeout_ms t W)"
    using block_current_ok [OF inv', of "Queue_Senders q" t timeout_ms item] t n isr
    unfolding primask_facts by auto
  have "try_send_locked q item False ?k = Inr ((False, False), ?k)"
    using try_send_nobody [OF inv' L] c by simp
  then have "queue_send q item timeout_ms k = Inr (Waiting, task_yield (k1\<lparr>primask := primask k\<rparr>))"
    using k1(1) n
    by (simp add: queue_send_def critical_def enter_critical_def exit_critical_def finish_call_def)
  then show ?thesis using k1(2,3)
    by (intro exI [of _ "task_yield (k1\<lparr>primask := primask k\<rparr>)"])
      (simp add: queue_blocked_store_def plain_upd_tcb)
qed

lemma queue_receive_empty:
  assumes "q_count (queues k q) = 0"
  shows "queue_receive q out 0 k = Inr (Returned False, k)"
    and "queue_receive_from_isr q out k = Inr ((False, False), k)"
  using try_receive_empty [of "k\<lparr>primask := True\<rparr>" q out False] assms
  by (simp_all add: queue_receive_def queue_receive_from_isr_def critical_def enter_critical_def
      exit_critical_def)

lemma queue_receive_stored:
  assumes inv: "kinv k L W" and L: "L (Queue_Senders q) = []" and c: "q_count (queues k q) \<noteq> 0"
  shows "queue_receive q out n k = Inr (Returned True, pop_raw q out k)"
    and "queue_receive_from_isr q out k = Inr ((True, False), pop_raw q out k)"
proof -
  have *: "try_receive_locked q out False (k\<lparr>primask := True\<rparr>) =
      Inr ((True, False), pop_raw q out (k\<lparr>primask := True\<rparr>))"
    using try_receive_nobody [of "k\<lparr>primask := True\<rparr>" L W q] inv L c by simp
  show "queue_receive q out n k = Inr (Returned True, pop_raw q out k)"
    "queue_receive_from_isr q out k = Inr ((True, False), pop_raw q out k)"
    using queue_receive_done [OF *] by (simp_all add: push_raw_primask)
qed

lemma queue_receive_hand_over:
  assumes inv: "kinv k L W" and L: "L (Queue_Senders q) = s # ss"
    and c: "q_count (queues k q) \<noteq> 0" and x: "xfer_ptr (tcbs k s) = Some x"
    and K: "K = set_ring q (ring_push x (ring_pop out (ring_of q k))) (woken_store s k)"
  shows "\<exists>k'. queue_receive q out n k = Inr (Returned True, yield_if (outranks_current s k) k') \<and>
           queue_receive_from_isr q out k = Inr ((True, outranks_current s k), k') \<and>
           plain k' = plain K \<and>
           kinv k' (enqueue k s (L(Queue_Senders q := ss))) (remove_wake s W)"
proof -
  have inv': "kinv (k\<lparr>primask := True\<rparr>) L W" using inv by simp
  obtain k1 where k1: "try_receive_locked q out False (k\<lparr>primask := True\<rparr>) =
      Inr ((True, outranks_current s k), k1)" "plain k1 = plain (K\<lparr>primask := True\<rparr>)"
    "kinv k1 (enqueue k s (L(Queue_Senders q := ss))) (remove_wake s W)"
    using try_receive_hand_over [OF inv' L, of x out False] c x unfolding primask_facts K by auto
  show ?thesis
    using queue_receive_done [OF k1(1)] k1(2,3) K by (intro exI [of _ "k1\<lparr>primask := primask k\<rparr>"]) simp
qed

lemma queue_receive_blocks:
  assumes inv: "kinv k L W" and c: "q_count (queues k q) = 0"
    and t: "current_task k = Some t" "state (tcbs k t) = Running"
    and n: "timeout_ms \<noteq> 0" and isr: "ipsr k = 0"
  shows "\<exists>k'. queue_receive q out timeout_ms k = Inr (Waiting, k') \<and>
           plain k' = plain (task_yield (queue_blocked_store (Queue_Receivers q) out t k)) \<and>
           kinv k' (parked k (Queue_Receivers q) t L) (time_limit timeout_ms t W)"
proof -
  let ?k = "k\<lparr>primask := True\<rparr>"
  have inv': "kinv ?k L W" using inv by simp
  obtain k1 where k1: "block_current_locked (Queue_Receivers q) out timeout_ms ?k = Inr (Some t, k1)"
    "plain k1 = plain (queue_blocked_store (Queue_Receivers q) out t ?k)"
    "kinv k1 (parked k (Queue_Receivers q) t L) (time_limit timeout_ms t W)"
    using block_current_ok [OF inv', of "Queue_Receivers q" t timeout_ms out] t n isr
    unfolding primask_facts by auto
  have "queue_receive q out timeout_ms k = Inr (Waiting, task_yield (k1\<lparr>primask := primask k\<rparr>))"
    using k1(1) n c try_receive_empty [of ?k q out False]
    by (simp add: queue_receive_def critical_def enter_critical_def exit_critical_def finish_call_def)
  then show ?thesis using k1(2,3)
    by (intro exI [of _ "task_yield (k1\<lparr>primask := primask k\<rparr>)"])
      (simp add: queue_blocked_store_def plain_upd_tcb)
qed

subsection \<open>The invariant and the order of the items\<close>

lemma set_parked [simp]: "set (parked k l t L l) = insert t (set (L l))"
  by (simp add: parked_def)

lemma parked_other [simp]: "l' \<noteq> l \<Longrightarrow> parked k l t L l' = L l'"
  by (simp add: parked_def)

lemma ring_push_fields [simp]:
  "q_count (fst (ring_push b s)) = q_count (fst s) + 1" "capacity (fst (ring_push b s)) = capacity (fst s)"
  "item_size (fst (ring_push b s)) = item_size (fst s)"
  "q_count (fst (ring_pop b s)) = q_count (fst s) - 1" "capacity (fst (ring_pop b s)) = capacity (fst s)"
  "item_size (fst (ring_pop b s)) = item_size (fst s)"
  by (simp_all add: ring_push_def ring_pop_def split: prod.splits)

lemma ring_of_fst [simp]: "fst (ring_of q k) = queues k q" "snd (ring_of q k) = mem k"
  by (simp_all add: ring_of_def)

lemma queue_ok_receivers:
  "queue_ok q k L \<Longrightarrow> L (Queue_Receivers q) = r # rs \<Longrightarrow>
     q_count (queues k q) = 0 \<and> L (Queue_Senders q) = [] \<and> (\<exists>x. xfer_ptr (tcbs k r) = Some x)"
  using queue_one_side [of q k L] by (auto simp: queue_ok_def)

lemma queue_ok_senders:
  "queue_ok q k L \<Longrightarrow> L (Queue_Senders q) = s # ss \<Longrightarrow>
     q_count (queues k q) = capacity (queues k q) \<and> 0 < q_count (queues k q) \<and>
     L (Queue_Receivers q) = [] \<and> (\<exists>x. xfer_ptr (tcbs k s) = Some x)"
  using queue_one_side [of q k L] by (auto simp: queue_ok_def ring_ok_def)

lemma queue_ok_cong:
  assumes "queues k' q = queues k q" and "\<And>t. xfer_ptr (tcbs k' t) = xfer_ptr (tcbs k t)"
  shows "queue_ok q k' L = queue_ok q k L"
  using assms by (simp add: queue_ok_def)

lemma queue_ok_yield [simp]: "queue_ok q (yield_if c k) L = queue_ok q k L"
  by (rule queue_ok_cong) simp_all

lemma queue_ok_enqueue [simp]: "queue_ok q k (enqueue k' t L) = queue_ok q k L"
  by (simp add: queue_ok_def)

lemma queue_ok_receiver_gone:
  assumes "queue_ok q k L" and "L (Queue_Receivers q) = r # rs"
  shows "queue_ok q k (L(Queue_Receivers q := rs))"
  using assms by (auto simp: queue_ok_def)

lemma queue_ok_push:
  assumes ok: "queue_ok q k L" and L: "L (Queue_Receivers q) = []"
    and c: "q_count (queues k q) < capacity (queues k q)"
  shows "queue_ok q (push_raw q x k) L"
    and "queue_items q (push_raw q x k) = queue_items q k @ [read_bytes x (item_size (queues k q)) (mem k)]"
proof -
  have "L (Queue_Senders q) = []" using ok c by (auto simp: queue_ok_def)
  moreover have "ring_ok (queues k q)" using ok by (simp add: queue_ok_def)
  moreover have "length (ring_items (ring_of q k)) = q_count (queues k q)"
    using length_queue_items [of q k] by (simp add: queue_items_def)
  ultimately show "queue_ok q (push_raw q x k) L"
    "queue_items q (push_raw q x k) = queue_items q k @ [read_bytes x (item_size (queues k q)) (mem k)]"
    using rb.push [of "ring_of q k" x] L c
    by (simp_all add: queue_ok_def push_raw_eq queue_items_def)
qed

lemma queue_ok_block:
  assumes ok: "queue_ok q k L" and l: "l = Queue_Senders q \<and> q_count (queues k q) = capacity (queues k q) \<or>
      l = Queue_Receivers q \<and> q_count (queues k q) = 0"
    and p: "plain k' = plain (task_yield (queue_blocked_store l x t k))"
  shows "queue_ok q k' (parked k l t L)"
proof -
  have "queues k' = queues k" using plainD(22) [OF p] by (simp add: queue_blocked_store_def)
  moreover have "xfer_ptr (tcbs k' s) = (if s = t then Some x else xfer_ptr (tcbs k s))" for s
    using plainD(10) [OF p, of s] by (simp add: queue_blocked_store_def)
  ultimately have q: "queues k' q = queues k q"
    and x: "\<And>s. (\<exists>y. xfer_ptr (tcbs k' s) = Some y) \<longleftrightarrow> s = t \<or> (\<exists>y. xfer_ptr (tcbs k s) = Some y)"
    by auto
  show ?thesis
    using l by (elim disjE conjE; use ok in \<open>auto simp: queue_ok_def q x\<close>)
qed

text \<open>
  A receive that finds an item. Buffers of different callers, and the storage, do not overlap.
\<close>

definition buffers_apart :: "nat \<Rightarrow> kernel \<Rightarrow> (list_id \<Rightarrow> tid list) \<Rightarrow> addr \<Rightarrow> bool" where
  "buffers_apart q k L out \<longleftrightarrow> ring_outside out (queues k q) \<and>
     (\<forall>t \<in> set (L (Queue_Senders q)).
        let x = the (xfer_ptr (tcbs k t)); n = item_size (queues k q)
        in ring_outside x (queues k q) \<and> (x + n \<le> out \<or> out + n \<le> x))"

lemma read_after_pop:
  assumes "x + item_size (fst s) \<le> out \<or> out + item_size (fst s) \<le> x"
  shows "read_bytes x (item_size (fst s)) (snd (ring_pop out s)) = read_bytes x (item_size (fst s)) (snd s)"
  using assms by (cases s) (simp add: ring_pop_def read_memcpy_other)

lemma queue_receive_takes:
  assumes inv: "kinv k L W" and ok: "queue_ok q k L" and c: "0 < q_count (queues k q)"
    and apart: "buffers_apart q k L out"
  shows "\<exists>k' L' W'. queue_receive q out n k = Inr (Returned True, k') \<and> kinv k' L' W' \<and> queue_ok q k' L' \<and>
           backlog q k L = read_bytes out (item_size (queues k q)) (mem k') # backlog q k' L'"
proof -
  let ?n = "item_size (queues k q)" and ?R = "ring_of q k"
  have rok: "ring_ok (fst ?R)" and out: "ring_outside out (fst ?R)"
    using ok apart by (simp_all add: queue_ok_def buffers_apart_def)
  have "length (queue_items q k) \<noteq> 0" using c by (simp add: length_queue_items)
  then obtain y ys where items: "ring_items ?R = y # ys"
    by (cases "ring_items ?R") (auto simp: queue_items_def)
  show ?thesis
  proof (cases "L (Queue_Senders q)")
    case Nil
    have p: "ring_ok (fst (ring_pop out ?R))" "ring_items (ring_pop out ?R) = ys"
      "read_bytes out ?n (snd (ring_pop out ?R)) = y"
      using rb.pop [OF rok items out] by simp_all
    have L: "L (Queue_Receivers q) = []" using ok c by (auto simp: queue_ok_def)
    have "kinv (pop_raw q out k) L W" "queue_ok q (pop_raw q out k) L"
      using inv p(1) Nil L by (simp_all add: pop_raw_eq queue_ok_def)
    moreover have "backlog q k L = read_bytes out ?n (mem (pop_raw q out k)) # backlog q (pop_raw q out k) L"
      using Nil items p by (simp add: backlog_def queue_items_def pop_raw_eq)
    ultimately show ?thesis using queue_receive_stored(1) [OF inv Nil, of out n] c by blast
  next
    case (Cons s ss)
    obtain x where x: "xfer_ptr (tcbs k s) = Some x" and L: "L (Queue_Receivers q) = []"
      and full: "q_count (queues k q) = capacity (queues k q)"
      using queue_ok_senders [OF ok Cons] by blast
    let ?R' = "ring_push x (ring_pop out ?R)"
    have c': "q_count (queues k q) \<noteq> 0" using c by simp
    obtain k' where k': "queue_receive q out n k = Inr (Returned True, yield_if (outranks_current s k) k')"
      "plain k' = plain (set_ring q ?R' (woken_store s k))"
      "kinv k' (enqueue k s (L(Queue_Senders q := ss))) (remove_wake s W)"
      using queue_receive_hand_over [OF inv Cons c' x refl] by blast
    let ?k' = "yield_if (outranks_current s k) k'" and ?L' = "enqueue k s (L(Queue_Senders q := ss))"
    have r: "ring_of q k' = ?R'" using ring_of_plain [OF k'(2)] by simp
    have q: "queues k' q = fst ?R'" "mem k' = snd ?R'" using r by (simp_all add: ring_of_def prod_eq_iff)
    have xf: "xfer_ptr (tcbs k' t) = xfer_ptr (tcbs k t)" for t
      using plainD(10) [OF k'(2), of t] by simp
    note rot = rb.rotate [OF rok items out, of x]
    have "queue_ok q k' (L(Queue_Senders q := ss))"
      using ok rot(1) Cons L c full by (simp add: queue_ok_def q xf)
    moreover have "read_bytes out ?n (mem k') = y" using rot(3) out by (simp add: q)
    moreover have "waiting_item q k' t = waiting_item q k t" if t: "t \<in> set ss" for t
    proof -
      let ?x = "the (xfer_ptr (tcbs k t))"
      have b: "ring_outside ?x (queues k q)" "?x + ?n \<le> out \<or> out + ?n \<le> ?x"
        using apart t Cons by (simp_all add: buffers_apart_def Let_def)
      have "length ys < capacity (queues k q)"
        using items rb.bounded [OF rok] by simp
      then have "read_bytes ?x ?n (snd ?R') = read_bytes ?x ?n (snd (ring_pop out ?R))"
        using rb.push_frame [of "ring_pop out ?R" ?x x] rb.pop [OF rok items out] rb.fixed(4) [of ?x out ?R] b(1)
        by simp
      then show ?thesis using read_after_pop [of ?x ?R out] b(2) by (simp add: waiting_item_def xf q)
    qed
    moreover have "queue_items q k' = ys @ [waiting_item q k s]"
    proof -
      have "x + ?n \<le> out \<or> out + ?n \<le> x"
        using apart Cons x by (simp add: buffers_apart_def Let_def)
      then show ?thesis using rot(2) read_after_pop [of x ?R out] r x
        by (simp add: queue_items_def waiting_item_def)
    qed
    ultimately show ?thesis using k'(1,3) Cons items
      by (intro exI [of _ ?k'] exI [of _ ?L'] exI [of _ "remove_wake s W"])
        (simp add: backlog_def queue_items_def waiting_item_def)
  qed
qed

end
