(* ===== verification/Kernel_Objects.thy ===== *)
theory Kernel_Objects
  imports Mutex Semaphore Event_Group Queue_Core
begin

text \<open>
  The invariant of all synchronisation objects together. \<open>object_ok\<close> says, per wait list,
  why its waiters wait: the semaphore has no token, the mutex has an owner, the queue is
  full (or empty), the bits of the event group do not meet the waiter's condition. That it
  holds after every operation means that no wake-up is lost. The frame lemmas reduce an
  operation to the one object it works on.
\<close>

subsection \<open>Why a task waits\<close>

definition object_ok :: "kernel \<Rightarrow> list_id \<Rightarrow> tid list \<Rightarrow> bool" where
  "object_ok k l ts =
     (case l of
        Ready_List p \<Rightarrow> True
      | Sem_Wait s \<Rightarrow> ts \<noteq> [] \<longrightarrow> sem_count k s = 0
      | Mutex_Wait m \<Rightarrow> ts \<noteq> [] \<longrightarrow> owner (mutexes k m) \<noteq> None
      | Queue_Senders q \<Rightarrow>
          (ts \<noteq> [] \<longrightarrow> q_count (queues k q) = capacity (queues k q)) \<and>
          (\<forall>t \<in> set ts. xfer_ptr (tcbs k t) \<noteq> None)
      | Queue_Receivers q \<Rightarrow>
          (ts \<noteq> [] \<longrightarrow> q_count (queues k q) = 0) \<and> (\<forall>t \<in> set ts. xfer_ptr (tcbs k t) \<noteq> None)
      | Event_Waiters e \<Rightarrow> \<forall>t \<in> set ts. \<not> condition_met (tcbs k t) (event_bits k e))"

definition waiters_ok :: "kernel \<Rightarrow> (list_id \<Rightarrow> tid list) \<Rightarrow> bool" where
  "waiters_ok k L \<longleftrightarrow> (\<forall>l. object_ok k l (L l))"

definition rings_ok :: "kernel \<Rightarrow> bool" where
  "rings_ok k \<longleftrightarrow> (\<forall>q. ring_ok (queues k q))"

definition mutexes_ok :: "kernel \<Rightarrow> (tid \<Rightarrow> mutex_id list) \<Rightarrow> bool" where
  "mutexes_ok k H \<longleftrightarrow>
     held_lists k H \<and> owners k H \<and> (\<forall>m t. owner (mutexes k m) = Some t \<longrightarrow> t < ntasks k)"

definition objects_ok :: "kernel \<Rightarrow> (list_id \<Rightarrow> tid list) \<Rightarrow> (tid \<Rightarrow> mutex_id list) \<Rightarrow> bool" where
  "objects_ok k L H \<longleftrightarrow> waiters_ok k L \<and> rings_ok k \<and> mutexes_ok k H"

lemma objects_okD:
  assumes "objects_ok k L H"
  shows "sem_ok k L s" and "queue_ok q k L" and "mutex_ok k L H" and "ring_ok (queues k q)"
    and "object_ok k l (L l)" and "mutexes_ok k H"
proof -
  have w: "object_ok k l (L l)" for l using assms by (simp add: objects_ok_def waiters_ok_def)
  show r: "ring_ok (queues k q)" and m: "mutexes_ok k H"
    using assms by (simp_all add: objects_ok_def rings_ok_def)
  show "object_ok k l (L l)" by (rule w)
  show "sem_ok k L s" using w [of "Sem_Wait s"] by (simp add: object_ok_def sem_ok_def)
  show "queue_ok q k L"
    using w [of "Queue_Senders q"] w [of "Queue_Receivers q"] r
    unfolding object_ok_def queue_ok_def list_id.case by blast
  have "L (Mutex_Wait x) \<noteq> [] \<Longrightarrow> owner (mutexes k x) \<noteq> None" for x
    using w [of "Mutex_Wait x"] by (simp add: object_ok_def)
  then show "mutex_ok k L H" using m by (simp add: mutex_ok_def mutexes_ok_def)
qed

lemma object_ok_subset: "object_ok k l ts \<Longrightarrow> set ts' \<subseteq> set ts \<Longrightarrow> object_ok k l ts'"
  by (cases l) (auto simp: object_ok_def)

lemma object_ok_ready [simp]: "is_ready_list l \<Longrightarrow> object_ok k l ts"
  by (cases l) (simp_all add: object_ok_def)

subsection \<open>Frames\<close>

text \<open>The data that decides why the tasks \<open>ts\<close> wait on \<open>l\<close> is the same.\<close>

definition object_same :: "kernel \<Rightarrow> kernel \<Rightarrow> list_id \<Rightarrow> tid list \<Rightarrow> bool" where
  "object_same k k' l ts =
     (case l of
        Ready_List p \<Rightarrow> True
      | Sem_Wait s \<Rightarrow> sem_count k' s = sem_count k s
      | Mutex_Wait m \<Rightarrow> owner (mutexes k' m) = owner (mutexes k m)
      | Queue_Senders q \<Rightarrow> queues k' q = queues k q \<and>
          (\<forall>t \<in> set ts. xfer_ptr (tcbs k t) \<noteq> None \<longrightarrow> xfer_ptr (tcbs k' t) \<noteq> None)
      | Queue_Receivers q \<Rightarrow> queues k' q = queues k q \<and>
          (\<forall>t \<in> set ts. xfer_ptr (tcbs k t) \<noteq> None \<longrightarrow> xfer_ptr (tcbs k' t) \<noteq> None)
      | Event_Waiters e \<Rightarrow> event_bits k' e = event_bits k e \<and>
          (\<forall>t \<in> set ts. \<forall>bits. condition_met (tcbs k' t) bits = condition_met (tcbs k t) bits))"

lemma object_ok_same: "object_ok k l ts \<Longrightarrow> object_same k k' l ts \<Longrightarrow> object_ok k' l ts"
  by (cases l) (auto simp: object_same_def object_ok_def)

lemma waiters_frame:
  assumes "waiters_ok k L"
    and "\<And>l. \<not> is_ready_list l \<Longrightarrow>
      object_same k k' l (L l) \<and> set (L' l) \<subseteq> set (L l) \<or> object_ok k' l (L' l)"
  shows "waiters_ok k' L'"
  unfolding waiters_ok_def
proof
  fix l
  show "object_ok k' l (L' l)"
  proof (cases "is_ready_list l")
    case False
    have "object_ok k l (L l)" using assms(1) by (simp add: waiters_ok_def)
    then show ?thesis using assms(2) [OF False] object_ok_subset [of k' l "L l" "L' l"]
      by (auto dest: object_ok_same)
  qed simp
qed

text \<open>No object changes at all; tasks may leave wait lists.\<close>

definition objects_same :: "kernel \<Rightarrow> kernel \<Rightarrow> bool" where
  "objects_same k k' \<longleftrightarrow>
     mutexes k' = mutexes k \<and> sem_count k' = sem_count k \<and> queues k' = queues k \<and>
     event_bits k' = event_bits k \<and> ntasks k \<le> ntasks k' \<and>
     (\<forall>t. held_mutexes (tcbs k' t) = held_mutexes (tcbs k t) \<and>
          (xfer_ptr (tcbs k t) \<noteq> None \<longrightarrow> xfer_ptr (tcbs k' t) \<noteq> None) \<and>
          event_wait_mask (tcbs k' t) = event_wait_mask (tcbs k t) \<and>
          event_wait_all (tcbs k' t) = event_wait_all (tcbs k t))"

lemma objects_same_plain:
  assumes "plain k' = plain F"
  shows "objects_same k k' = objects_same k F"
  unfolding objects_same_def ntasks_def plainD [OF assms] ..

lemma objects_same_object: "objects_same k k' \<Longrightarrow> object_same k k' l ts"
  by (cases l) (auto simp: objects_same_def object_same_def condition_met_def)

lemma mutexes_ok_same:
  assumes "mutexes_ok k H" and "mutexes k' = mutexes k"
    and "\<And>t. held_mutexes (tcbs k' t) = held_mutexes (tcbs k t)" and "ntasks k \<le> ntasks k'"
  shows "mutexes_ok k' H"
proof -
  have "held_lists k' H = held_lists k H" using assms(2,3) by (intro held_lists_cong) simp_all
  then show ?thesis using assms by (fastforce simp: mutexes_ok_def owners_def)
qed

definition waits_shrink :: "(list_id \<Rightarrow> tid list) \<Rightarrow> (list_id \<Rightarrow> tid list) \<Rightarrow> bool" where
  "waits_shrink L L' \<longleftrightarrow> (\<forall>l. \<not> is_ready_list l \<longrightarrow> set (L' l) \<subseteq> set (L l))"

lemma waits_shrink_refl [simp]: "waits_shrink L L"
  by (simp add: waits_shrink_def)

lemma waits_shrink_trans: "waits_shrink L L' \<Longrightarrow> waits_shrink L' L'' \<Longrightarrow> waits_shrink L L''"
  unfolding waits_shrink_def by blast

lemma waits_shrink_ready [simp]: "waits_shrink L (L'(Ready_List p := xs)) = waits_shrink L L'"
  unfolding waits_shrink_def fun_upd_apply by (metis is_ready_list.simps(1))

lemma waits_shrink_enqueue [simp]: "waits_shrink L (enqueue k t L') = waits_shrink L L'"
  by (simp add: enqueue_def Let_def)

lemma waits_shrink_without: "waits_shrink L (without t L)"
  by (simp add: waits_shrink_def without_def set_remove1_subset)

lemma waits_shrink_upd: "waits_shrink L L' \<Longrightarrow> set xs \<subseteq> set (L l) \<Longrightarrow> waits_shrink L (L'(l := xs))"
  by (auto simp: waits_shrink_def)

text \<open>The object of the list \<open>l\<close> is left to show; \<open>l\<close> may be a ready list, that is, no object.\<close>

lemma objects_frame:
  assumes ok: "objects_ok k L H" and same: "objects_same k k'"
    and L: "\<And>l'. l' \<noteq> l \<Longrightarrow> \<not> is_ready_list l' \<Longrightarrow> set (L' l') \<subseteq> set (L l')"
    and l: "object_ok k' l (L' l)"
  shows "objects_ok k' L' H"
proof -
  have "waiters_ok k' L'"
  proof (rule waiters_frame)
    show "waiters_ok k L" using ok by (simp add: objects_ok_def)
    show "object_same k k' l' (L l') \<and> set (L' l') \<subseteq> set (L l') \<or> object_ok k' l' (L' l')"
      if "\<not> is_ready_list l'" for l'
      using L [OF _ that] l objects_same_object [OF same, of l' "L l'"] by (cases "l' = l") simp_all
  qed
  moreover have "rings_ok k'" using ok same by (simp add: objects_ok_def rings_ok_def objects_same_def)
  moreover have "mutexes_ok k' H"
    using ok same by (intro mutexes_ok_same [of k H k']) (simp_all add: objects_ok_def objects_same_def)
  ultimately show ?thesis by (simp add: objects_ok_def)
qed

lemma objects_quiet:
  assumes "objects_ok k L H" and "objects_same k k'" and "waits_shrink L L'"
  shows "objects_ok k' L' H"
  using assms by (intro objects_frame [of k L H k' "Ready_List 0"]) (auto simp: waits_shrink_def)

lemma waits_shrink_waken: "waits_shrink L (waken k t L)"
  by (simp add: waken_def Let_def waits_shrink_upd set_remove1_subset split: option.split)

lemma waits_shrink_fold:
  assumes "\<And>t M. waits_shrink M (f t M)"
  shows "waits_shrink L (fold f ts L)"
proof (induction ts arbitrary: L)
  case (Cons t ts)
  show ?case using waits_shrink_trans [OF assms Cons] by simp
qed simp

lemma waits_shrink_reprioritize:
  assumes "kinv k L W" and "t < ntasks k"
  shows "waits_shrink L (reprioritize k t p L)"
proof -
  have "set (insert_prio f t (remove1 t (L l))) \<subseteq> set (L l)" if "wait_list (tcbs k t) = Some l" for f l
    using task_ok_wait_list [OF kinv_task [OF assms] that] set_remove1_subset [of t "L l"] by auto
  then show ?thesis
    by (simp add: reprioritize_def waits_shrink_without waits_shrink_upd split: option.split)
qed

end
