(* ===== verification/Pend_Sv.thy ===== *)
theory Pend_Sv
  imports Context_Switch
begin

text \<open>
  \<open>PendSV_Handler\<close> (port_asm.s): the part of the context switch that is written in assembly.
  It stores the registers the hardware does not save below the process stack pointer of the
  running task, calls \<open>schedule_next_task\<close>, and loads those of the task that runs next.

  \<open>cpu\<close> has the registers the handler moves: r4 to r11, s16 to s31 and r14, which in a
  handler holds the exception return value. Bit 4 of it is clear if the task has used the
  floating point unit. The scratch registers, which the hardware saves in the frame above
  the process stack pointer and which C code may overwrite, are not part of it.
\<close>

subsection \<open>Multiple loads and stores\<close>

record cpu =
  core_reg :: "nat \<Rightarrow> 32 word"   \<comment> \<open>\<open>r4\<close> to \<open>r11\<close>, by number\<close>
  fpu_reg :: "nat \<Rightarrow> 32 word"    \<comment> \<open>\<open>s16\<close> to \<open>s31\<close>, by number\<close>
  link_reg :: "32 word"          \<comment> \<open>\<open>r14\<close>\<close>

text \<open>\<open>stmdb\<close> stores the register of the lowest number at the lowest address.\<close>

definition stmdb :: "32 word list \<Rightarrow> addr \<times> (addr \<Rightarrow> 8 word) \<Rightarrow> addr \<times> (addr \<Rightarrow> 8 word)" where
  "stmdb ws s = push_all (rev ws) s"

text \<open>\<open>ldmia\<close> into the \<open>n\<close> registers from number \<open>i\<close> on.\<close>

definition ldmia :: "nat \<Rightarrow> nat \<Rightarrow> addr \<Rightarrow> (addr \<Rightarrow> 8 word) \<Rightarrow> (nat \<Rightarrow> 32 word) \<Rightarrow> nat \<Rightarrow> 32 word" where
  "ldmia i n a m r = (\<lambda>j. if i \<le> j \<and> j < i + n then load32 (a + 4 * (j - i)) m else r j)"

text \<open>\<open>tst lr, #0x10\<close>\<close>

definition uses_fpu :: "32 word \<Rightarrow> bool" where
  "uses_fpu exc_return \<longleftrightarrow> exc_return AND 0x10 = 0"

subsection \<open>The handler\<close>

definition save_context :: "cpu \<Rightarrow> kernel \<Rightarrow> kernel" where
  "save_context c k =
     (let s = (psp k, mem k);
          s = (if uses_fpu (link_reg c) then stmdb (map (fpu_reg c) [16..<32]) s else s);
          s = stmdb (map (core_reg c) [4..<12] @ [link_reg c]) s
      in k\<lparr>mem := snd s, current_sp := fst s\<rparr>)"

definition enter_switch :: "cpu \<Rightarrow> kernel \<Rightarrow> kernel" where
  "enter_switch c k =
     (let k = k\<lparr>primask := True\<rparr>
      in if psp k = 0 then k else save_context c k)"

definition restore_context :: "cpu \<Rightarrow> kernel \<Rightarrow> cpu \<times> kernel" where
  "restore_context c k =
     (let a = current_sp k;
          c = c\<lparr>core_reg := ldmia 4 8 a (mem k) (core_reg c), link_reg := load32 (a + 32) (mem k)\<rparr>;
          a = a + 36
      in if uses_fpu (link_reg c)
         then (c\<lparr>fpu_reg := ldmia 16 16 a (mem k) (fpu_reg c)\<rparr>, k\<lparr>psp := a + 64\<rparr>)
         else (c, k\<lparr>psp := a\<rparr>))"

definition PendSV_Handler :: "cpu \<Rightarrow> kernel \<Rightarrow> (cpu \<times> kernel) res" where
  "PendSV_Handler c k =
     andthen (schedule_next_task (enter_switch c k)) (\<lambda>k.
       let (c, k) = restore_context c k
       in Inr (c, k\<lparr>primask := False\<rparr>))"

text \<open>When the processor enters the handler it clears the pending bit.\<close>

abbreviation at_entry :: "kernel \<Rightarrow> kernel" where
  "at_entry k \<equiv> k\<lparr>pendsv := False\<rparr>"

subsection \<open>The saved frame\<close>

text \<open>The words of the frame from its lowest address on.\<close>

definition context_words :: "cpu \<Rightarrow> 32 word list" where
  "context_words c = map (core_reg c) [4..<12] @ [link_reg c] @
     (if uses_fpu (link_reg c) then map (fpu_reg c) [16..<32] else [])"

definition holds_words :: "(addr \<Rightarrow> 8 word) \<Rightarrow> addr \<Rightarrow> 32 word list \<Rightarrow> bool" where
  "holds_words m a ws \<longleftrightarrow> (\<forall>i < length ws. load32 (a + 4 * i) m = ws ! i)"

lemma length_context_words [simp]:
  "length (context_words c) = (if uses_fpu (link_reg c) then 25 else 9)"
  by (simp add: context_words_def)

lemma context_words_nth:
  "i < 8 \<Longrightarrow> context_words c ! i = core_reg c (i + 4)" "context_words c ! 8 = link_reg c"
  "uses_fpu (link_reg c) \<Longrightarrow> i < 16 \<Longrightarrow> context_words c ! (i + 9) = fpu_reg c (i + 16)"
  by (simp_all add: context_words_def nth_append ac_simps del: upt_rec_numeral)

lemma push_all_append: "push_all (ws @ vs) s = push_all vs (push_all ws s)"
  by (induction ws arbitrary: s) simp_all

lemma push_all_sp: "fst (push_all ws s) = fst s - 4 * length ws"
  by (induction ws arbitrary: s) (simp_all add: push32_def)

lemma save_context_pushes:
  "save_context c k =
     (let s = push_all (rev (context_words c)) (psp k, mem k) in k\<lparr>mem := snd s, current_sp := fst s\<rparr>)"
  by (simp add: save_context_def stmdb_def context_words_def push_all_append Let_def)

lemma save_context_sp: "current_sp (save_context c k) = psp k - 4 * length (context_words c)"
  by (simp add: save_context_pushes push_all_sp Let_def)

lemma save_context_frame:
  assumes "100 \<le> psp k"
  shows "holds_words (mem (save_context c k)) (current_sp (save_context c k)) (context_words c)"
  unfolding holds_words_def
proof (intro allI impI)
  fix i assume i: "i < length (context_words c)"
  let ?n = "length (context_words c)"
  have n: "?n \<le> 25" by simp
  have at: "psp k - 4 * ?n + 4 * i = psp k - 4 * Suc (?n - Suc i)" proof -
    obtain j where "?n = Suc (i + j)" using less_imp_Suc_add [OF i] by blast
    then show ?thesis using assms n by simp
  qed
  have "load32 (psp k - 4 * Suc (?n - Suc i)) (snd (push_all (rev (context_words c)) (psp k, mem k)))
      = context_words c ! i"
    using push_all_load [of "?n - Suc i" "rev (context_words c)" "(psp k, mem k)"] assms i n
    by (simp add: rev_nth del: length_context_words)
  moreover have "mem (save_context c k) = snd (push_all (rev (context_words c)) (psp k, mem k))"
    by (simp add: save_context_pushes Let_def)
  ultimately show "load32 (current_sp (save_context c k) + 4 * i) (mem (save_context c k)) = context_words c ! i"
    by (simp only: save_context_sp at)
qed

lemma save_context_outside:
  assumes "100 \<le> psp k" and "a < psp k - 100 \<or> psp k \<le> a"
  shows "mem (save_context c k) a = mem k a"
proof -
  have n: "length (context_words c) \<le> 25" by simp
  then have "4 * length (context_words c) \<le> psp k" using assms(1) by linarith
  then show ?thesis
    using push_all_above [of "(psp k, mem k)" a "rev (context_words c)"]
      push_all_below [of a "(psp k, mem k)" "rev (context_words c)"] assms(2) n
    by (auto simp: save_context_pushes Let_def)
qed

text \<open>Loading a saved frame gives the registers back, whatever they hold now.\<close>

lemma holds_wordsD: "holds_words m a ws \<Longrightarrow> i < length ws \<Longrightarrow> load32 (a + 4 * i) m = ws ! i"
  by (simp add: holds_words_def)

lemma restore_frame:
  assumes h: "holds_words (mem k) (current_sp k) (context_words c)"
    and r: "restore_context c' k = (c'', k')"
  shows "map (core_reg c'') [4..<12] = map (core_reg c) [4..<12]" and "link_reg c'' = link_reg c"
    and "uses_fpu (link_reg c) \<Longrightarrow> map (fpu_reg c'') [16..<32] = map (fpu_reg c) [16..<32]"
    and "\<not> uses_fpu (link_reg c) \<Longrightarrow> fpu_reg c'' = fpu_reg c'"
    and "k' = k\<lparr>psp := current_sp k + 4 * length (context_words c)\<rparr>"
proof -
  have lr: "load32 (current_sp k + 32) (mem k) = link_reg c"
    using holds_wordsD [OF h, of 8] by (simp add: context_words_nth)
  have core: "load32 (current_sp k + 4 * (j - 4)) (mem k) = core_reg c j" if "4 \<le> j" "j < 12" for j
  proof -
    have "j - 4 < 8" using that by linarith
    then show ?thesis using holds_wordsD [OF h, of "j - 4"] context_words_nth(1) [of "j - 4" c] that by simp
  qed
  have fpu: "load32 (current_sp k + 36 + 4 * (j - 16)) (mem k) = fpu_reg c j"
    if u: "uses_fpu (link_reg c)" and ge: "16 \<le> j" and lt: "j < 32" for j
  proof -
    obtain i where "j = 16 + i" using le_Suc_ex [OF ge] by blast
    then have i: "j = i + 16" "i < 16" using lt by simp_all
    then show ?thesis
      using holds_wordsD [OF h, of "i + 9"] context_words_nth(3) [OF u i(2)] u
      by (simp add: add.assoc add.commute [of 36])
  qed
  show "map (core_reg c'') [4..<12] = map (core_reg c) [4..<12]"
  proof (rule map_cong [OF refl])
    have "core_reg c'' = ldmia 4 8 (current_sp k) (mem k) (core_reg c')"
      using r by (auto simp: restore_context_def Let_def split: if_splits)
    then show "core_reg c'' j = core_reg c j" if "j \<in> set [4..<12]" for j
      using core [of j] that by (simp add: ldmia_def del: upt_rec_numeral)
  qed
  show "link_reg c'' = link_reg c"
    using r lr by (auto simp: restore_context_def Let_def split: if_splits)
  show "map (fpu_reg c'') [16..<32] = map (fpu_reg c) [16..<32]" if "uses_fpu (link_reg c)"
  proof (rule map_cong [OF refl])
    have "fpu_reg c'' = ldmia 16 16 (current_sp k + 36) (mem k) (fpu_reg c')"
      using r lr that by (auto simp: restore_context_def Let_def)
    then show "fpu_reg c'' j = fpu_reg c j" if "j \<in> set [16..<32]" for j
      using fpu [of j] \<open>uses_fpu (link_reg c)\<close> that by (simp add: ldmia_def del: upt_rec_numeral)
  qed
  show "fpu_reg c'' = fpu_reg c'" if "\<not> uses_fpu (link_reg c)"
    using r lr that by (auto simp: restore_context_def Let_def)
  show "k' = k\<lparr>psp := current_sp k + 4 * length (context_words c)\<rparr>"
    using r lr by (auto simp: restore_context_def Let_def)
qed

subsection \<open>The handler returns\<close>

text \<open>
  What a switch needs: room for the frame, the canary intact after it was stored, and a task
  that can run.
\<close>

definition can_run :: "kernel \<Rightarrow> bool" where
  "can_run k \<longleftrightarrow> (\<exists>t < ntasks k. state (tcbs k t) = Ready \<or> state (tcbs k t) = Running)"

definition may_switch :: "cpu \<Rightarrow> kernel \<Rightarrow> bool" where
  "may_switch c k \<longleftrightarrow> (psp k = 0 \<or> 100 \<le> psp k) \<and> canary_intact (enter_switch c k) \<and> can_run k"

lemma enter_switch_pendsv [simp]:
  "canary_intact (enter_switch c (k\<lparr>pendsv := b\<rparr>)) = canary_intact (enter_switch c k)"
  "mem (enter_switch c (k\<lparr>pendsv := b\<rparr>)) = mem (enter_switch c k)"
  "can_run (k\<lparr>pendsv := b\<rparr>) = can_run k" "may_switch c (k\<lparr>pendsv := b\<rparr>) = may_switch c k"
  by (simp_all add: may_switch_def enter_switch_def save_context_pushes canary_intact_def can_run_def ntasks_def
      Let_def split: option.split)

lemma enter_switch_fields [simp]:
  "current_task (enter_switch c k) = current_task k" "tcbs (enter_switch c k) = tcbs k"
  "task_count (enter_switch c k) = task_count k" "ntasks (enter_switch c k) = ntasks k"
  "kinv (enter_switch c k) L W = kinv k L W"
  by (simp_all add: enter_switch_def save_context_pushes Let_def ntasks_def)

lemma enter_switch_requeue [simp]: "requeue_current (enter_switch c k) L = requeue_current k L"
  by (simp add: requeue_current_def enqueue_def split: option.split)

lemma enter_switch_outside:
  assumes "psp k = 0 \<or> 100 \<le> psp k" and "psp k \<le> a \<or> a < psp k - 100"
  shows "mem (enter_switch c k) a = mem k a"
  using save_context_outside [of "k\<lparr>primask := True\<rparr>" a c] assms by (auto simp: enter_switch_def)

text \<open>Words that the frame stored does not overlap.\<close>

lemma enter_switch_load:
  assumes "psp k = 0 \<or> 100 \<le> psp k" and "psp k \<le> a \<or> a + 4 + 100 \<le> psp k"
  shows "load32 a (mem (enter_switch c k)) = load32 a (mem k)"
proof -
  have "mem (enter_switch c k) (a + b) = mem k (a + b)" if "b < 4" for b
    using assms(2) that by (intro enter_switch_outside [OF assms(1)]) auto
  from this [of 0] this [of 1] this [of 2] this [of 3] show ?thesis by (simp add: load32_def)
qed

lemma PendSV_next:
  assumes "kinv k L W" and "canary_intact (enter_switch c k)"
    and "highest_ready (requeue_current k L) p" and "requeue_current k L (Ready_List p) = n # ts"
  shows "\<exists>k1. PendSV_Handler c k = Inr (fst (restore_context c k1), (snd (restore_context c k1))\<lparr>primask := False\<rparr>) \<and>
     plain k1 = plain (switch_to n (enter_switch c k)) \<and>
     kinv k1 ((requeue_current k L)(Ready_List p := ts)) W"
  using schedule_next_task_ok [of "enter_switch c k" L W p n ts] assms
  by (fastforce simp: PendSV_Handler_def case_prod_unfold Let_def)

lemma PendSV_ok:
  assumes "kinv k L W" and "may_switch c k"
  shows "\<exists>k1 p n ts. highest_ready (requeue_current k L) p \<and> requeue_current k L (Ready_List p) = n # ts \<and>
     PendSV_Handler c k = Inr (fst (restore_context c k1), (snd (restore_context c k1))\<lparr>primask := False\<rparr>) \<and>
     plain k1 = plain (switch_to n (enter_switch c k)) \<and>
     kinv k1 ((requeue_current k L)(Ready_List p := ts)) W"
proof -
  have can: "canary_intact (enter_switch c k)" using assms(2) by (simp add: may_switch_def)
  obtain r where "r < ntasks k" "state (tcbs k r) = Ready \<or> state (tcbs k r) = Running"
    using assms(2) by (auto simp: may_switch_def can_run_def)
  then obtain p n ts where "highest_ready (requeue_current k L) p" "requeue_current k L (Ready_List p) = n # ts"
    using next_task_exists [of "enter_switch c k" L W r] can assms(1) by auto
  with PendSV_next [OF assms(1) can, of p n ts] show ?thesis by auto
qed

lemma restore_context_fields:
  "tcbs (snd (restore_context c k)) = tcbs k" "current_task (snd (restore_context c k)) = current_task k"
  "mem (snd (restore_context c k)) = mem k"
  by (simp_all add: restore_context_def Let_def)

lemma restore_context_kinv [simp]: "kinv (snd (restore_context c k)) L W = kinv k L W"
  by (simp add: restore_context_def Let_def)

text \<open>The handler returns; the task it leaves stores the address of its frame.\<close>

lemma PendSV_switched_out:
  assumes "kinv k L W" and "may_switch c k" and "psp k \<noteq> 0" and "current_task k = Some t"
  shows "\<exists>c' k'. PendSV_Handler c k = Inr (c', k') \<and> \<not> primask k' \<and>
     sp (tcbs k' t) = psp k - 4 * length (context_words c) \<and>
     holds_words (mem k') (sp (tcbs k' t)) (context_words c)"
proof -
  obtain k1 n where k1: "PendSV_Handler c k = Inr (fst (restore_context c k1), (snd (restore_context c k1))\<lparr>primask := False\<rparr>)"
    "plain k1 = plain (switch_to n (enter_switch c k))"
    using PendSV_ok [OF assms(1,2)] by blast
  let ?k = "k\<lparr>primask := True\<rparr>"
  have e: "enter_switch c k = save_context c ?k" using assms(3) by (simp add: enter_switch_def)
  have psp: "100 \<le> psp ?k" using assms(2,3) by (simp add: may_switch_def)
  have "sp (tcbs k1 t) = current_sp (enter_switch c k)" "mem k1 = mem (enter_switch c k)"
    using plainD(1,23) [OF k1(2)] assms(4) by (simp_all add: switch_to_def save_current_def Let_def)
  then show ?thesis
    using k1(1) save_context_frame [OF psp, of c]
    by (simp add: restore_context_fields e save_context_sp)
qed

text \<open>
  A task that is switched in gets what its frame holds; the frame of the task that is
  switched out must not overlap it.
\<close>

lemma PendSV_switched_in:
  assumes "kinv k L W" and "may_switch c k" and "current_task k \<noteq> Some t"
    and "psp k \<le> sp (tcbs k t) \<or> sp (tcbs k t) + 4 * length (context_words d) + 100 \<le> psp k"
    and "holds_words (mem k) (sp (tcbs k t)) (context_words d)"
  shows "\<exists>c' k'. PendSV_Handler c k = Inr (c', k') \<and> \<not> primask k' \<and>
     (current_task k' = Some t \<longrightarrow>
        map (core_reg c') [4..<12] = map (core_reg d) [4..<12] \<and> link_reg c' = link_reg d \<and>
        (uses_fpu (link_reg d) \<longrightarrow> map (fpu_reg c') [16..<32] = map (fpu_reg d) [16..<32]) \<and>
        psp k' = sp (tcbs k t) + 4 * length (context_words d) \<and> mem k' = mem (enter_switch c k))"
proof -
  obtain k1 n where k1: "PendSV_Handler c k = Inr (fst (restore_context c k1), (snd (restore_context c k1))\<lparr>primask := False\<rparr>)"
    "plain k1 = plain (switch_to n (enter_switch c k))"
    using PendSV_ok [OF assms(1,2)] by blast
  note f = plainD [OF k1(2)]
  have "load32 (sp (tcbs k t) + 4 * i) (mem (enter_switch c k)) = load32 (sp (tcbs k t) + 4 * i) (mem k)"
    if "i < length (context_words d)" for i
    using assms(2,4) that by (intro enter_switch_load) (auto simp: may_switch_def)
  then have "holds_words (mem (enter_switch c k)) (sp (tcbs k t)) (context_words d)"
    using assms(5) by (simp add: holds_words_def)
  moreover have "mem k1 = mem (enter_switch c k)" by (simp add: f switch_to_def save_current_def Let_def split: option.split)
  moreover have "current_sp k1 = sp (tcbs k t)" if "current_task k1 = Some t"
    using that assms(3) by (auto simp: f switch_to_def save_current_def Let_def split: option.splits)
  ultimately have "current_task k1 = Some t \<longrightarrow> holds_words (mem k1) (current_sp k1) (context_words d)"
    and "current_task k1 = Some t \<longrightarrow> current_sp k1 = sp (tcbs k t)" and m: "mem k1 = mem (enter_switch c k)"
    by simp_all
  moreover obtain c' k' where r: "restore_context c k1 = (c', k')" by (cases "restore_context c k1")
  moreover have "current_task k' = current_task k1" using restore_context_fields(2) [of c k1] r by simp
  ultimately show ?thesis using k1(1) restore_frame [of k1 d c c' k'] by auto
qed

end
