(* ===== verification/Kernel_Calls.thy ===== *)
theory Kernel_Calls
  imports Kernel_Objects Pend_Sv
begin

text \<open>
  The kernel as a whole: the calls of the application, the interrupts and the context
  switch as steps on the state, and the invariant of every state they reach.

  \<open>allowed\<close> collects what the documentation asks of a caller (task context for a call that
  may block, no second lock of an owned mutex, each call site of \<open>create_task\<close> reached
  once, the stack intact at a switch, a task left to run). \<open>exec_ok\<close> is the central
  theorem: in a state that satisfies the invariant an allowed call returns, that is, no
  assertion fails, no null pointer is followed, no index is out of bounds and no loop runs
  for ever, and the invariant holds again. \<open>App\<close> is a step of the application itself, which
  may store anywhere in memory and move its stack pointer; \<open>Yield\<close> asks for a switch, and
  \<open>Switch\<close> is the handler that makes it, given the registers of the task it interrupts.
\<close>

subsection \<open>Calls\<close>

datatype call =
    Switch cpu
  | Yield
  | Tick
  | App "addr \<Rightarrow> 8 word" addr
  | Delay_Ms tick
  | Delay_Until tick
  | Suspend tid
  | Resume tid
  | Delete tid
  | Create nat addr nat nat "addr \<Rightarrow> (addr \<Rightarrow> 8 word) \<Rightarrow> addr \<Rightarrow> 8 word" addr prio
  | Start nat addr "addr \<Rightarrow> (addr \<Rightarrow> 8 word) \<Rightarrow> addr \<Rightarrow> 8 word" addr
  | Take nat tick
  | Try_Take nat
  | Give nat
  | Give_From_Isr nat
  | Lock mutex_id
  | Unlock mutex_id
  | Send nat addr tick
  | Send_From_Isr nat addr
  | Receive nat addr tick
  | Receive_From_Isr nat addr
  | Wait_Bits nat "32 word" bool bool tick addr
  | Set_Bits nat "32 word"
  | Set_Bits_From_Isr nat "32 word"
  | Clear_Bits nat "32 word"

definition state_of :: "('a \<times> kernel) res \<Rightarrow> kernel res" where
  "state_of r = andthen r (\<lambda>(v, k). Inr k)"

lemma state_of_Inr [simp]: "state_of (Inr (v, k)) = Inr k"
  by (simp add: state_of_def)

fun exec :: "call \<Rightarrow> kernel \<Rightarrow> kernel res" where
  "exec (Switch c) k = state_of (PendSV_Handler c (at_entry k))"
| "exec Yield k = Inr (task_yield k)"
| "exec Tick k = SysTick_Handler acrtos_tick_hook k"
| "exec (App m a) k = Inr (k\<lparr>mem := m, psp := a\<rparr>)"
| "exec (Delay_Ms n) k = delay_ms n k"
| "exec (Delay_Until n) k = delay_until n k"
| "exec (Suspend t) k = task_suspend (Some t) k"
| "exec (Resume t) k = task_resume (Some t) k"
| "exec (Delete t) k = task_terminate (Some t) k"
| "exec (Create site buf words n construct tramp p) k =
     state_of (create_task site buf words n construct tramp p k)"
| "exec (Start site buf construct tramp) k = start site buf construct tramp k"
| "exec (Take s n) k = state_of (take_sem s n k)"
| "exec (Try_Take s) k = state_of (try_take s k)"
| "exec (Give s) k = give s k"
| "exec (Give_From_Isr s) k = state_of (give_from_isr s k)"
| "exec (Lock m) k = state_of (lock m k)"
| "exec (Unlock m) k = state_of (unlock m k)"
| "exec (Send q item n) k = state_of (typed_send q item n k)"
| "exec (Send_From_Isr q item) k = state_of (typed_send_from_isr q item k)"
| "exec (Receive q out n) k = state_of (typed_receive q out n k)"
| "exec (Receive_From_Isr q out) k = state_of (typed_receive_from_isr q out k)"
| "exec (Wait_Bits e m al clr n ret) k = state_of (wait_bits e m al clr n ret k)"
| "exec (Set_Bits e m) k = state_of (set_bits e m k)"
| "exec (Set_Bits_From_Isr e m) k = state_of (set_bits_from_isr e m k)"
| "exec (Clear_Bits e m) k = state_of (clear_bits e m k)"

definition in_task :: "kernel \<Rightarrow> bool" where
  "in_task k \<longleftrightarrow> ipsr k = 0 \<and>
     (case current_task k of None \<Rightarrow> False | Some t \<Rightarrow> state (tcbs k t) = Running)"

text \<open>The clock frequencies for which the SysTick counter can be programmed.\<close>

definition reload_ok :: "32 word \<Rightarrow> bool" where
  "reload_ok hz \<longleftrightarrow> 0 < systick_reload hz \<and> systick_reload hz \<le> 0x00FFFFFF"

fun allowed :: "call \<Rightarrow> kernel \<Rightarrow> bool" where
  "allowed (Switch c) k \<longleftrightarrow> pendsv k \<and> \<not> primask k \<and> may_switch c k"
| "allowed (Delay_Ms n) k \<longleftrightarrow> in_task k"
| "allowed (Delay_Until n) k \<longleftrightarrow> in_task k"
| "allowed (Suspend t) k \<longleftrightarrow> t < ntasks k"
| "allowed (Resume t) k \<longleftrightarrow> t < ntasks k \<and> \<not> in_delay_list (tcbs k t)"
| "allowed (Delete t) k \<longleftrightarrow> t < ntasks k"
| "allowed (Create site buf words n construct tramp p) k \<longleftrightarrow>
     \<not> site_created k site \<and> ntasks k < kMaxTasks \<and> p < 32"
| "allowed (Start site buf construct tramp) k \<longleftrightarrow>
     \<not> started k \<and> current_task k = None \<and> ntasks k < kMaxTasks \<and> \<not> site_created k site \<and>
     reload_ok (g_cpu_hz k)"
| "allowed (Take s n) k \<longleftrightarrow> in_task k"
| "allowed (Lock m) k \<longleftrightarrow> in_task k \<and> owner (mutexes k m) \<noteq> current_task k"
| "allowed (Unlock m) k \<longleftrightarrow> in_task k \<and> owner (mutexes k m) = current_task k"
| "allowed (Send q item n) k \<longleftrightarrow> in_task k"
| "allowed (Receive q out n) k \<longleftrightarrow> in_task k"
| "allowed (Wait_Bits e m al clr n ret) k \<longleftrightarrow> in_task k"
| "allowed c k \<longleftrightarrow> True"

subsection \<open>The invariant\<close>

definition sys_ok :: "kernel \<Rightarrow> bool" where
  "sys_ok k \<longleftrightarrow> (\<exists>L W H. kinv k L W \<and> objects_ok k L H)"

lemma sys_okI: "kinv k L W \<Longrightarrow> objects_ok k L H \<Longrightarrow> sys_ok k"
  unfolding sys_ok_def by blast

text \<open>A step that changes no object.\<close>

lemma sys_quiet:
  assumes "objects_ok k L H" and "plain k' = plain F" and "objects_same k F"
    and "kinv k' L' W'" and "waits_shrink L L'"
  shows "sys_ok k'"
  using sys_okI [OF assms(4) objects_quiet [OF assms(1) _ assms(5)]] assms(3)
  unfolding objects_same_plain [OF assms(2)] by blast

lemma in_taskE:
  assumes "in_task k"
  obtains t where "current_task k = Some t" "state (tcbs k t) = Running" "ipsr k = 0"
  using assms by (auto simp: in_task_def split: option.splits)

text \<open>The stores that no object sees.\<close>

lemma objects_same_yield [simp]:
  "objects_same k (yield_if c k') = objects_same k k'" "objects_same k (task_yield k') = objects_same k k'"
  by (simp_all add: objects_same_def)

lemma objects_same_refl [simp]: "objects_same k k"
  by (simp add: objects_same_def)

lemma objects_same_fields [simp]:
  "objects_same k (k'\<lparr>tick_count := n\<rparr>) = objects_same k k'"
  "objects_same k (k'\<lparr>current_task := c, current_sp := a\<rparr>) = objects_same k k'"
  "objects_same k (k'\<lparr>mem := m\<rparr>) = objects_same k k'" "objects_same k (k'\<lparr>psp := a\<rparr>) = objects_same k k'"
  "objects_same k (k'\<lparr>current_sp := a\<rparr>) = objects_same k k'" "objects_same k (k'\<lparr>current_task := c\<rparr>) = objects_same k k'"
  "objects_same k (k'\<lparr>primask := b\<rparr>) = objects_same k k'" "objects_same k (k'\<lparr>pendsv := b\<rparr>) = objects_same k k'"
  by (simp_all add: objects_same_def ntasks_def)

lemma objects_same_upd:
  assumes "\<And>b. held_mutexes (f b) = held_mutexes b" and "\<And>b. xfer_ptr b \<noteq> None \<Longrightarrow> xfer_ptr (f b) \<noteq> None"
    and "\<And>b. event_wait_mask (f b) = event_wait_mask b" and "\<And>b. event_wait_all (f b) = event_wait_all b"
    and "objects_same k k'"
  shows "objects_same k (upd_tcb t f k')"
  using assms(5) assms(2) [of "tcbs k' t"] by (simp add: objects_same_def assms(1,3,4))

lemma objects_same_woken_set [simp]: "objects_same k (woken_set S k)"
  by (simp add: objects_same_def woken_set_def woken_def ntasks_def)

subsection \<open>Tasks and time\<close>

lemma exec_switch:
  assumes "sys_ok k" and "may_switch c k"
  shows "\<exists>k'. exec (Switch c) k = Inr k' \<and> sys_ok k'"
proof -
  obtain L W H where inv: "kinv k L W" and ob: "objects_ok k L H"
    using assms(1) by (auto simp: sys_ok_def)
  let ?k = "at_entry k"
  obtain k1 p n ts where run: "PendSV_Handler c ?k = Inr (fst (restore_context c k1), (snd (restore_context c k1))\<lparr>primask := False\<rparr>)"
    and k1: "plain k1 = plain (switch_to n (enter_switch c ?k))"
      "kinv k1 ((requeue_current ?k L)(Ready_List p := ts)) W"
    using PendSV_ok [of ?k L W c] inv assms(2) by auto
  have "objects_same k (save_current (enter_switch c ?k))"
    by (simp add: save_current_def objects_same_upd enter_switch_def save_context_pushes Let_def
        split: option.split)
  then have "objects_same k k1"
    by (simp add: objects_same_plain [OF k1(1)] switch_to_def Let_def objects_same_upd)
  then have "objects_same k ((snd (restore_context c k1))\<lparr>primask := False\<rparr>)"
    by (simp add: restore_context_def Let_def)
  moreover have "waits_shrink L ((requeue_current ?k L)(Ready_List p := ts))"
    by (simp add: requeue_current_def split: option.split)
  ultimately have "sys_ok ((snd (restore_context c k1))\<lparr>primask := False\<rparr>)"
    using sys_quiet [OF ob refl, where L' = "(requeue_current ?k L)(Ready_List p := ts)"] k1(2) by simp
  then show ?thesis using run by simp
qed

lemma exec_tick:
  assumes "sys_ok k"
  shows "\<exists>k'. exec Tick k = Inr k' \<and> sys_ok k'"
proof -
  obtain L W H where inv: "kinv k L W" and ob: "objects_ok k L H"
    using assms by (auto simp: sys_ok_def)
  let ?T = "expired (one_tick W)"
  obtain k' where k': "sched_tick k = Inr k'"
    "plain k' = plain (yield_if (preempt_due k (fold (waken k) ?T L))
       (woken_set (set ?T) (k\<lparr>tick_count := tick_count k + 1\<rparr>)))"
    "kinv k' (fold (waken k) ?T L) (pending (one_tick W))"
    using sched_tick_ok [OF inv refl refl] by blast
  have "waits_shrink L (fold (waken k) ?T L)" by (rule waits_shrink_fold [OF waits_shrink_waken])
  then show ?thesis using k' sys_quiet [OF ob k'(2) _ k'(3)]
    by (simp add: SysTick_Handler_def rtos_tick_handler_def acrtos_tick_hook_def)
qed

lemma sys_ok_fields [simp]:
  assumes "sys_ok k"
  shows "sys_ok (k\<lparr>primask := b\<rparr>)" and "sys_ok (k\<lparr>pendsv := b\<rparr>)" and "sys_ok (k\<lparr>psp := a\<rparr>)"
    and "sys_ok (k\<lparr>mem := m\<rparr>)"
proof -
  obtain L W H where inv: "kinv k L W" and ob: "objects_ok k L H"
    using assms by (auto simp: sys_ok_def)
  show "sys_ok (k\<lparr>primask := b\<rparr>)" "sys_ok (k\<lparr>pendsv := b\<rparr>)" "sys_ok (k\<lparr>psp := a\<rparr>)" "sys_ok (k\<lparr>mem := m\<rparr>)"
    using inv by (auto intro: sys_quiet [OF ob refl, of _ L W])
qed

lemma exec_app: "sys_ok k \<Longrightarrow> \<exists>k'. exec (App m a) k = Inr k' \<and> sys_ok k'"
  by simp

lemma exec_yield: "sys_ok k \<Longrightarrow> \<exists>k'. exec Yield k = Inr k' \<and> sys_ok k'"
  by (simp add: task_yield_def)

lemma exec_delay_ms:
  assumes "sys_ok k" and "in_task k"
  shows "\<exists>k'. exec (Delay_Ms n) k = Inr k' \<and> sys_ok k'"
proof (cases "n = 0")
  case True
  then show ?thesis using assms by (simp add: delay_ms_def)
next
  case False
  obtain L W H where inv: "kinv k L W" and ob: "objects_ok k L H"
    using assms by (auto simp: sys_ok_def)
  obtain t where t: "current_task k = Some t" "state (tcbs k t) = Running" by (rule in_taskE [OF assms(2)])
  obtain k' where k': "delay_ms n k = Inr k'" "plain k' = plain (task_yield (set_state t Blocked k))"
    "kinv k' L (insert_wake t (unat n) W)"
    using delay_ms_ok [OF inv t False] by blast
  then show ?thesis using sys_quiet [OF ob k'(2) _ k'(3)] by (simp add: objects_same_upd)
qed

lemma exec_delay_until:
  assumes "sys_ok k" and "in_task k"
  shows "\<exists>k'. exec (Delay_Until n) k = Inr k' \<and> sys_ok k'"
proof (cases "sint (n - tick_count k) \<le> 0")
  case True
  then show ?thesis using assms by (simp add: delay_until_past)
next
  case False
  then have pos: "0 < sint (n - tick_count k)" by simp
  obtain L W H where inv: "kinv k L W" and ob: "objects_ok k L H"
    using assms by (auto simp: sys_ok_def)
  obtain t where t: "current_task k = Some t" "state (tcbs k t) = Running" by (rule in_taskE [OF assms(2)])
  obtain k' W' where k': "delay_until n k = Inr k'" "plain k' = plain (task_yield (set_state t Blocked k))"
    "kinv k' L W'"
    using delay_until_ok [OF inv t refl pos] by blast
  then show ?thesis using sys_quiet [OF ob k'(2) _ k'(3)] by (simp add: objects_same_upd)
qed

lemma unwaited_kept [simp]:
  "held_mutexes (unwaited b) = held_mutexes b" "xfer_ptr (unwaited b) = xfer_ptr b"
  "event_wait_mask (unwaited b) = event_wait_mask b" "event_wait_all (unwaited b) = event_wait_all b"
  by (simp_all add: unwaited_def)

lemma exec_suspend:
  assumes "sys_ok k" and "t < ntasks k"
  shows "\<exists>k'. exec (Suspend t) k = Inr k' \<and> sys_ok k'"
proof (cases "state (tcbs k t) = Suspended \<or> state (tcbs k t) = Deleted")
  case True
  then show ?thesis using assms suspend_task_idle [of k t] by (simp add: task_suspend_def)
next
  case False
  obtain L W H where inv: "kinv k L W" and ob: "objects_ok k L H"
    using assms by (auto simp: sys_ok_def)
  obtain k' where k': "suspend_task (Some t) k = Inr k'"
    "plain k' = plain (yield_if (current_task k = Some t \<and> started k)
       (upd_tcb t (\<lambda>b. (unwaited b)\<lparr>state := Suspended\<rparr>) k))"
    "kinv k' (without t L) (remove_wake t W)"
    using suspend_task_ok [OF inv assms(2)] False by blast
  then show ?thesis using sys_quiet [OF ob k'(2) _ k'(3) waits_shrink_without]
    by (simp add: task_suspend_def objects_same_upd)
qed

lemma exec_delete:
  assumes "sys_ok k" and "t < ntasks k"
  shows "\<exists>k'. exec (Delete t) k = Inr k' \<and> sys_ok k'"
proof (cases "state (tcbs k t) = Deleted")
  case True
  then show ?thesis using assms delete_task_twice [of k t] by (simp add: task_terminate_def)
next
  case False
  obtain L W H where inv: "kinv k L W" and ob: "objects_ok k L H"
    using assms by (auto simp: sys_ok_def)
  obtain k' where k': "delete_task (Some t) k = Inr k'"
    "plain k' = plain (yield_if (current_task k = Some t \<and> started k)
       (upd_tcb t (\<lambda>b. (unwaited b)\<lparr>state := Deleted\<rparr>) k))"
    "kinv k' (without t L) (remove_wake t W)"
    using delete_task_ok [OF inv assms(2) False] by blast
  then show ?thesis using sys_quiet [OF ob k'(2) _ k'(3) waits_shrink_without]
    by (simp add: task_terminate_def objects_same_upd)
qed

lemma exec_resume:
  assumes "sys_ok k" and "t < ntasks k" and "\<not> in_delay_list (tcbs k t)"
  shows "\<exists>k'. exec (Resume t) k = Inr k' \<and> sys_ok k'"
proof (cases "state (tcbs k t) = Suspended")
  case False
  then show ?thesis using assms resume_task_other [OF False] by (simp add: task_resume_def)
next
  case True
  obtain L W H where inv: "kinv k L W" and ob: "objects_ok k L H"
    using assms by (auto simp: sys_ok_def)
  obtain k' where k': "resume_task (Some t) k = Inr k'"
    "plain k' = plain (yield_if (outranks_current t k) (set_state t Ready k))" "kinv k' (enqueue k t L) W"
    using resume_task_ok [OF inv assms(2) True] by blast
  then show ?thesis using sys_quiet [OF ob k'(2) _ k'(3)] by (simp add: task_resume_def objects_same_upd)
qed

lemma exec_create:
  assumes "sys_ok k" and "allowed (Create site buf words n construct tramp p) k"
  shows "\<exists>k'. exec (Create site buf words n construct tramp p) k = Inr k' \<and> sys_ok k'"
proof -
  obtain L W H where inv: "kinv k L W" and ob: "objects_ok k L H"
    using assms by (auto simp: sys_ok_def)
  let ?slot = "callable_slot buf words n"
  let ?k0 = "k\<lparr>site_created := (site_created k)(site := True), mem := construct ?slot (mem k)\<rparr>"
  obtain k' where k': "create_task site buf words n construct tramp p k = Inr (Some (ntasks k), k')"
    "plain k' = plain (yield_if (started k \<and> (\<exists>c. current_task k = Some c \<and> priority (tcbs k c) < p))
       (created (ntasks k) buf words tramp ?slot p ?k0))"
    "kinv k' (L(Ready_List p := L (Ready_List p) @ [ntasks k])) W"
    using create_task_ok [OF inv _ _ refl _ refl refl] assms(2) by fastforce
  have "ntasks k \<le> unat (task_count k + 1)"
    using assms(2) ntasks_Suc [of k] by simp
  then have "objects_same k (created (ntasks k) buf words tramp ?slot p ?k0)"
    by (simp add: created_def objects_same_upd Let_def split: prod.split)
      (simp add: objects_same_def ntasks_def)
  then show ?thesis using k'(1) sys_quiet [OF ob k'(2) _ k'(3)] by simp
qed

subsection \<open>Starting the scheduler\<close>

lemma hardware_fields:
  assumes "reload_ok (g_cpu_hz k)"
  shows "\<exists>r. start_hardware_and_yield k = Inr (k\<lparr>psp := 0, regs := r, pendsv := True\<rparr>) \<and>
           r kSystickRvr = systick_reload (g_cpu_hz k) \<and> r kSystickCvr = 0 \<and> r kSystickCsr = 7 \<and>
           r kShpr3 = (regs k kShpr3 AND 0xFFFF) OR 0xFEFF0000"
proof -
  have m: "(- 4294901761 :: 32 word) = 0xFFFF" by simp
  show ?thesis
    using assms
    by (simp add: start_hardware_and_yield_def configure_pendsv_and_systick_def Let_def
        enable_fpu_lazy_stacking_def write_reg_def reload_ok_def task_yield_def kSystickCsr_def
        kSystickRvr_def kSystickCvr_def kShpr3_def kCpacr_def kFpccr_def kSystickClkSource_def
        kSystickTickInt_def kSystickEnable_def)
      (rule exI, rule conjI [OF refl], simp add: m or.assoc)
qed

lemma start_ok:
  assumes inv: "kinv k L W" and ob: "objects_ok k L H" and fresh: "\<not> started k" "current_task k = None"
    and room: "ntasks k < kMaxTasks" and site: "\<not> site_created k site" and hz: "reload_ok (g_cpu_hz k)"
  shows "\<exists>k'. start site buf construct tramp k = Inr k' \<and> sys_ok k' \<and> started k' \<and> pendsv k' \<and>
           psp k' = 0 \<and> current_task k' = None \<and>
           state (tcbs k' (ntasks k)) = Ready \<and> priority (tcbs k' (ntasks k)) = 0 \<and>
           ntasks k' = ntasks k + 1 \<and> regs k' kSystickRvr = systick_reload (g_cpu_hz k)"
proof -
  let ?slot = "callable_slot buf kStackSize 1"
  let ?k0 = "k\<lparr>site_created := (site_created k)(site := True), mem := construct ?slot (mem k)\<rparr>"
  obtain k1 where k1: "create_task site buf kStackSize 1 construct tramp 0 k = Inr (Some (ntasks k), k1)"
    "plain k1 = plain (created (ntasks k) buf kStackSize tramp ?slot 0 ?k0)"
    "kinv k1 (L(Ready_List 0 := L (Ready_List 0) @ [ntasks k])) W"
    using create_task_ok [OF inv room _ refl site refl refl, where p = 0 and words = kStackSize and
        n = 1 and buf = buf and construct = construct and tramp = tramp] fresh by auto
  note f1 = plainD [OF k1(2)]
  let ?K = "k1\<lparr>started := True\<rparr>"
  have g: "g_cpu_hz k1 = g_cpu_hz k" by (simp add: f1 created_def Let_def split: prod.split)
  obtain r where r: "start_hardware_and_yield ?K = Inr (?K\<lparr>psp := 0, regs := r, pendsv := True\<rparr>)"
    "r kSystickRvr = systick_reload (g_cpu_hz k)"
    using hardware_fields [of ?K] hz g by auto
  let ?k' = "?K\<lparr>psp := 0, regs := r, pendsv := True\<rparr>"
  have run: "start site buf construct tramp k = Inr ?k'" using k1(1) r(1) fresh by (simp add: start_def)
  have nt: "ntasks k1 = ntasks k + 1"
    using ntasks_Suc [OF room] by (simp add: ntasks_def f1 created_def Let_def split: prod.split)
  have "objects_same k (created (ntasks k) buf kStackSize tramp ?slot 0 ?k0)"
    using ntasks_Suc [OF room]
    by (simp add: created_def objects_same_upd Let_def split: prod.split)
      (simp add: objects_same_def ntasks_def)
  then have "objects_same k k1" by (simp add: objects_same_plain [OF k1(2)])
  then have "objects_ok ?k' (L(Ready_List 0 := L (Ready_List 0) @ [ntasks k])) H"
    by (intro objects_quiet [OF ob]) (simp_all add: objects_same_def ntasks_def)
  moreover have "kinv ?k' (L(Ready_List 0 := L (Ready_List 0) @ [ntasks k])) W" using k1(3) by simp
  ultimately have "sys_ok ?k'" by (rule sys_okI [rotated])
  moreover have "state (tcbs k1 (ntasks k)) = Ready" "priority (tcbs k1 (ntasks k)) = 0"
    "current_task k1 = None"
    using fresh by (simp_all add: f1 created_def Let_def split: prod.split)
  ultimately show ?thesis using run nt r(2) by (intro exI [of _ ?k']) (simp add: ntasks_def)
qed

lemma start_twice:
  "started k \<Longrightarrow> start site buf construct tramp k = (if use_assert k then Inl AssertFailed else Inr k)"
  by (simp add: start_def acr_assert_def)

lemma exec_start:
  assumes "sys_ok k" and "allowed (Start site buf construct tramp) k"
  shows "\<exists>k'. exec (Start site buf construct tramp) k = Inr k' \<and> sys_ok k'"
proof -
  obtain L W H where inv: "kinv k L W" and ob: "objects_ok k L H"
    using assms by (auto simp: sys_ok_def)
  show ?thesis using start_ok [OF inv ob, of site buf construct tramp] assms(2) by auto
qed

end
