(* ===== verification/Kernel_Ipc_Calls.thy ===== *)
theory Kernel_Ipc_Calls
  imports Kernel_Calls
begin

text \<open>
  The calls on synchronisation objects keep the invariant of the system, and \<open>exec_ok\<close>, the
  same for every call.
\<close>

subsection \<open>Semaphores\<close>

text \<open>A task joins a wait list.\<close>

lemma sys_park:
  assumes ob: "objects_ok k L H" and k': "plain k' = plain F" and F: "objects_same k F"
    and inv: "kinv k' (parked K l t L') W'" and L': "waits_shrink L L'" and l: "\<not> is_ready_list l"
    and new: "object_ok F l (parked K l t L' l)"
  shows "sys_ok k'"
proof -
  have same: "objects_same k k'" using F by (simp add: objects_same_plain [OF k'])
  have "object_same F k' l (parked K l t L' l)"
    unfolding object_same_def plainD [OF k'] condition_met_def by (simp split: list_id.split)
  then have "object_ok k' l (parked K l t L' l)" by (rule object_ok_same [OF new])
  moreover have "set (parked K l t L' l') \<subseteq> set (L l')" if "l' \<noteq> l" "\<not> is_ready_list l'" for l'
    using L' that by (simp add: waits_shrink_def)
  ultimately have "objects_ok k' (parked K l t L') H" by (intro objects_frame [OF ob same, of l])
  then show ?thesis by (rule sys_okI [OF inv])
qed

lemma sem_set_ok:
  assumes ob: "objects_ok k L H" and n: "L (Sem_Wait s) \<noteq> [] \<Longrightarrow> n = 0"
  shows "objects_ok (set_sem_count s n k) L H"
proof -
  let ?k = "set_sem_count s n k"
  have "waiters_ok ?k L"
  proof (rule waiters_frame)
    show "waiters_ok k L" using ob by (simp add: objects_ok_def)
    show "object_same k ?k l (L l) \<and> set (L l) \<subseteq> set (L l) \<or> object_ok ?k l (L l)" for l
      using n by (cases "l = Sem_Wait s")
        (auto simp: object_ok_def object_same_def set_sem_count_def split: list_id.split)
  qed
  moreover have "rings_ok ?k" using ob by (simp add: objects_ok_def rings_ok_def set_sem_count_def)
  moreover have "mutexes_ok ?k H"
    by (rule mutexes_ok_same [OF objects_okD(6) [OF ob]]) (simp_all add: set_sem_count_def ntasks_def)
  ultimately show ?thesis by (simp add: objects_ok_def)
qed

lemma blocked_store_same [simp]: "objects_same k k' \<Longrightarrow> objects_same k (blocked_store l t k')"
  by (simp add: blocked_store_def objects_same_upd)

lemma blocked_store_fields [simp]:
  "sem_count (blocked_store l t k) = sem_count k" "mutexes (blocked_store l t k) = mutexes k"
  by (simp_all add: blocked_store_def)

lemma exec_try_take:
  assumes "sys_ok k"
  shows "\<exists>k'. exec (Try_Take s) k = Inr k' \<and> sys_ok k'"
proof -
  obtain L W H where inv: "kinv k L W" and ob: "objects_ok k L H"
    using assms by (auto simp: sys_ok_def)
  show ?thesis
  proof (cases "sem_count k s = 0")
    case True
    then show ?thesis using assms by (simp add: try_take_eq)
  next
    case False
    then have "L (Sem_Wait s) = []" using objects_okD(1) [OF ob, of s] by (auto simp: sem_ok_def)
    then have "sys_ok (set_sem_count s (sem_count k s - 1) k)"
      using inv by (intro sys_okI [OF _ sem_set_ok [OF ob]]) simp_all
    then show ?thesis using False by (simp add: try_take_eq)
  qed
qed

lemma exec_take:
  assumes "sys_ok k" and "in_task k"
  shows "\<exists>k'. exec (Take s n) k = Inr k' \<and> sys_ok k'"
proof -
  obtain L W H where inv: "kinv k L W" and ob: "objects_ok k L H"
    using assms by (auto simp: sys_ok_def)
  obtain t where t: "current_task k = Some t" "state (tcbs k t) = Running" and isr: "ipsr k = 0"
    by (rule in_taskE [OF assms(2)])
  consider "n = 0" | "sem_count k s \<noteq> 0" "n \<noteq> 0" | "sem_count k s = 0" "n \<noteq> 0" by blast
  then show ?thesis
  proof cases
    case 1
    have "exec (Take s n) k = exec (Try_Take s) k" using 1 by (simp add: take_sem_def try_take_eq)
    then show ?thesis using exec_try_take [OF assms(1)] by simp
  next
    case 2
    then have "L (Sem_Wait s) = []" using objects_okD(1) [OF ob, of s] by (auto simp: sem_ok_def)
    then have "sys_ok (set_sem_count s (sem_count k s - 1) k)"
      using inv by (intro sys_okI [OF _ sem_set_ok [OF ob]]) simp_all
    then show ?thesis using take_sem_available [OF 2(1), of n] isr by simp
  next
    case 3
    obtain k' where k': "take_sem s n k = Inr (Waiting, k')"
      "plain k' = plain (task_yield (blocked_store (Sem_Wait s) t k))"
      "kinv k' (parked k (Sem_Wait s) t L) (time_limit n t W)"
      using take_sem_blocks [OF inv t 3 isr] by blast
    have "sys_ok k'" by (rule sys_park [OF ob k'(2) _ k'(3)]) (use 3 in \<open>simp_all add: object_ok_def\<close>)
    then show ?thesis using k'(1) by simp
  qed
qed

lemma give_locked_sys:
  assumes "sys_ok k"
  shows "\<exists>b k'. give_locked s k = Inr (b, k') \<and> sys_ok k'"
proof -
  obtain L W H where inv: "kinv k L W" and ob: "objects_ok k L H"
    using assms by (auto simp: sys_ok_def)
  show ?thesis
  proof (cases "L (Sem_Wait s)")
    case Nil
    have "sys_ok (set_sem_count s (sem_count k s + 1) k)"
      using inv Nil by (intro sys_okI [OF _ sem_set_ok [OF ob]]) simp_all
    then show ?thesis using give_locked_none [OF inv Nil] assms
      by (cases "sem_count k s < 0xFFFFFFFF") auto
  next
    case (Cons t ts)
    obtain k' where k': "give_locked s k = Inr (outranks_current t k, k')"
      "plain k' = plain (upd_tcb t (\<lambda>b. b\<lparr>state := Ready, wait_list := None\<rparr>) k)"
      "kinv k' (enqueue k t (L(Sem_Wait s := ts))) (remove_wake t W)"
      using give_locked_some [OF inv Cons] by blast
    have "waits_shrink L (L(Sem_Wait s := ts))" using Cons by (intro waits_shrink_upd) auto
    then show ?thesis using k' sys_quiet [OF ob k'(2) _ k'(3)] by (simp add: objects_same_upd)
  qed
qed

lemma sys_ok_yield [simp]: "sys_ok k \<Longrightarrow> sys_ok (task_yield k)" "sys_ok k \<Longrightarrow> sys_ok (yield_if c k)"
proof -
  show *: "sys_ok (task_yield k)" if a: "sys_ok k" for k
  proof -
    obtain L W H where "kinv k L W" "objects_ok k L H" using a by (auto simp: sys_ok_def)
    then show ?thesis using sys_quiet [of k L H "task_yield k" "task_yield k" L W] by simp
  qed
  show "sys_ok (yield_if c k)" if "sys_ok k" using that * by (simp add: yield_if_def)
qed

lemma exec_give:
  assumes "sys_ok k"
  shows "\<exists>k'. exec (Give s) k = Inr k' \<and> sys_ok k'" and "\<exists>k'. exec (Give_From_Isr s) k = Inr k' \<and> sys_ok k'"
  using give_locked_sys [OF assms, of s] by (auto simp: give_def give_from_isr_def)

subsection \<open>Mutexes\<close>

definition same_but_mutexes :: "kernel \<Rightarrow> kernel \<Rightarrow> bool" where
  "same_but_mutexes k k' \<longleftrightarrow>
     sem_count k' = sem_count k \<and> queues k' = queues k \<and> event_bits k' = event_bits k \<and>
     (\<forall>t. xfer_ptr (tcbs k' t) = xfer_ptr (tcbs k t) \<and>
          event_wait_mask (tcbs k' t) = event_wait_mask (tcbs k t) \<and>
          event_wait_all (tcbs k' t) = event_wait_all (tcbs k t))"

lemma same_but_mutexes_plain:
  assumes "plain k' = plain F"
  shows "same_but_mutexes k k' = same_but_mutexes k F"
  unfolding same_but_mutexes_def plainD [OF assms] ..

fun is_mutex_list :: "list_id \<Rightarrow> bool" where
  "is_mutex_list (Mutex_Wait m) = True"
| "is_mutex_list l = False"

lemma sys_mutex:
  assumes ob: "objects_ok k L H" and k': "plain k' = plain F" and F: "same_but_mutexes k F"
    and inv: "kinv k' L' W'" and mu: "mutex_ok k' L' H'"
    and L': "\<And>l. \<not> is_ready_list l \<Longrightarrow> \<not> is_mutex_list l \<Longrightarrow> set (L' l) \<subseteq> set (L l)"
  shows "sys_ok k'"
proof -
  have F': "same_but_mutexes k k'" using F by (simp add: same_but_mutexes_plain [OF k'])
  have "waiters_ok k' L'"
  proof (rule waiters_frame)
    show "waiters_ok k L" using ob by (simp add: objects_ok_def)
    fix l assume nr: "\<not> is_ready_list l"
    show "object_same k k' l (L l) \<and> set (L' l) \<subseteq> set (L l) \<or> object_ok k' l (L' l)"
    proof (cases "is_mutex_list l")
      case True
      then show ?thesis using mu by (cases l) (auto simp: mutex_ok_def object_ok_def)
    next
      case False
      then have "object_same k k' l (L l)"
        using F' by (cases l) (auto simp: object_same_def same_but_mutexes_def condition_met_def)
      then show ?thesis using L' [OF nr False] by simp
    qed
  qed
  moreover have "rings_ok k'" using ob F' by (simp add: objects_ok_def rings_ok_def same_but_mutexes_def)
  moreover have "mutexes_ok k' H'" using mu by (simp add: mutex_ok_def mutexes_ok_def)
  ultimately show ?thesis using inv by (auto simp: sys_ok_def objects_ok_def)
qed

lemma same_but_mutexes_stores [simp]:
  "same_but_mutexes k (holding h ms k') = same_but_mutexes k k'"
  "same_but_mutexes k (task_yield k') = same_but_mutexes k k'"
  "same_but_mutexes k (yield_if c k') = same_but_mutexes k k'"
  "same_but_mutexes k k"
  by (simp_all add: same_but_mutexes_def holding_def)

lemma same_but_mutexes_upd:
  assumes "\<And>b. xfer_ptr (f b) = xfer_ptr b" and "\<And>b. event_wait_mask (f b) = event_wait_mask b"
    and "\<And>b. event_wait_all (f b) = event_wait_all b" and "same_but_mutexes k k'"
  shows "same_but_mutexes k (upd_tcb t f k')"
  using assms by (simp add: same_but_mutexes_def)

lemma exec_lock:
  assumes "sys_ok k" and "in_task k" and "owner (mutexes k m) \<noteq> current_task k"
  shows "\<exists>k'. exec (Lock m) k = Inr k' \<and> sys_ok k'"
proof -
  obtain L W H where inv: "kinv k L W" and ob: "objects_ok k L H"
    using assms(1) by (auto simp: sys_ok_def)
  obtain c where c: "current_task k = Some c" "state (tcbs k c) = Running" and isr: "ipsr k = 0"
    by (rule in_taskE [OF assms(2)])
  note mu = objects_okD(3) [OF ob]
  show ?thesis
  proof (cases "owner (mutexes k m)")
    case None
    obtain k' h ms where k': "lock m k = Inr (Returned True, k')" "plain k' = plain (holding h ms k)"
      "kinv k' L W" "mutex_ok k' L (H(c := m # H c))"
      using lock_free_ok [OF inv mu isr c(1) None] by blast
    have "sys_ok k'" by (rule sys_mutex [OF ob k'(2) _ k'(3,4)]) simp_all
    then show ?thesis using k'(1) by simp
  next
    case (Some h)
    have hc: "h \<noteq> c" using assms(3) c Some by simp
    let ?L = "parked (raise_owner h c k) (Mutex_Wait m) c (raise_lists h c k L)"
    obtain k' where k': "lock m k = Inr (Waiting, k')"
      "plain k' = plain (task_yield (blocked_store (Mutex_Wait m) c (raise_owner h c k)))" "kinv k' ?L W"
      using lock_blocks [OF inv mu isr c Some hc] by blast
    have "same_but_mutexes k (task_yield (blocked_store (Mutex_Wait m) c (raise_owner h c k)))"
      by (simp add: blocked_store_def raise_owner_def same_but_mutexes_upd)
    moreover have "waits_shrink L (raise_lists h c k L)"
      using mu Some waits_shrink_reprioritize [OF inv]
      by (simp add: raise_lists_def mutex_ok_def)
    then have "set (?L l) \<subseteq> set (L l)" if "\<not> is_ready_list l" "\<not> is_mutex_list l" for l
      using that by (cases "l = Mutex_Wait m") (auto simp: waits_shrink_def)
    ultimately have "sys_ok k'"
      by (intro sys_mutex [OF ob k'(2) _ k'(3) lock_blocks_mutex_ok [OF inv mu Some k'(2)]])
    then show ?thesis using k'(1) by simp
  qed
qed

lemma exec_unlock:
  assumes "sys_ok k" and "in_task k" and "owner (mutexes k m) = current_task k"
  shows "\<exists>k'. exec (Unlock m) k = Inr k' \<and> sys_ok k'"
proof -
  obtain L W H where inv: "kinv k L W" and ob: "objects_ok k L H"
    using assms(1) by (auto simp: sys_ok_def)
  obtain c where c: "current_task k = Some c" "state (tcbs k c) = Running"
    by (rule in_taskE [OF assms(2)])
  then have own: "owner (mutexes k m) = Some c" using assms(3) by simp
  obtain np d k' h ms where k': "unlock m k = Inr (True, k')"
     "plain k' = plain (yield_if d (upd_tcb c (\<lambda>b. b\<lparr>priority := np\<rparr>) (holding h ms (next_owner_store m L k))))"
     "kinv k' (next_owner_lists k m L) (next_owner_wake m L W)"
     "mutex_ok k' (next_owner_lists k m L) (next_owner_held c m L H)"
    using unlock_ok [OF inv objects_okD(3) [OF ob] c own refl] by blast
  have "same_but_mutexes k (next_owner_store m L k)"
    by (simp add: next_owner_store_def same_but_mutexes_upd split: list.split)
  then have "same_but_mutexes k
      (yield_if d (upd_tcb c (\<lambda>b. b\<lparr>priority := np\<rparr>) (holding h ms (next_owner_store m L k))))"
    by (simp add: same_but_mutexes_upd)
  moreover have "set (next_owner_lists k m L l) \<subseteq> set (L l)"
    if "\<not> is_ready_list l" "\<not> is_mutex_list l" for l
    using that by (auto simp: next_owner_lists_def enqueue_def Let_def split: list.splits)
  ultimately have "sys_ok k'" by (intro sys_mutex [OF ob k'(2) _ k'(3,4)])
  then show ?thesis using k'(1) by simp
qed

subsection \<open>Queues\<close>

definition same_but_queue :: "nat \<Rightarrow> kernel \<Rightarrow> kernel \<Rightarrow> bool" where
  "same_but_queue q k k' \<longleftrightarrow>
     mutexes k' = mutexes k \<and> sem_count k' = sem_count k \<and> event_bits k' = event_bits k \<and>
     ntasks k' = ntasks k \<and> (\<forall>q'. q' \<noteq> q \<longrightarrow> queues k' q' = queues k q') \<and>
     (\<forall>t. held_mutexes (tcbs k' t) = held_mutexes (tcbs k t) \<and>
          (xfer_ptr (tcbs k t) \<noteq> None \<longrightarrow> xfer_ptr (tcbs k' t) \<noteq> None) \<and>
          event_wait_mask (tcbs k' t) = event_wait_mask (tcbs k t) \<and>
          event_wait_all (tcbs k' t) = event_wait_all (tcbs k t))"

lemma same_but_queue_plain:
  assumes "plain k' = plain F"
  shows "same_but_queue q k k' = same_but_queue q k F"
  unfolding same_but_queue_def ntasks_def plainD [OF assms] ..

fun is_queue_list :: "nat \<Rightarrow> list_id \<Rightarrow> bool" where
  "is_queue_list q (Queue_Senders q') \<longleftrightarrow> q' = q"
| "is_queue_list q (Queue_Receivers q') \<longleftrightarrow> q' = q"
| "is_queue_list q l \<longleftrightarrow> False"

lemma sys_queue:
  assumes ob: "objects_ok k L H" and k': "plain k' = plain F" and F: "same_but_queue q k F"
    and inv: "kinv k' L' W'" and qu: "queue_ok q k' L'"
    and L': "\<And>l. \<not> is_ready_list l \<Longrightarrow> \<not> is_queue_list q l \<Longrightarrow> set (L' l) \<subseteq> set (L l)"
  shows "sys_ok k'"
proof -
  have F': "same_but_queue q k k'" using F by (simp add: same_but_queue_plain [OF k'])
  have "waiters_ok k' L'"
  proof (rule waiters_frame)
    show "waiters_ok k L" using ob by (simp add: objects_ok_def)
    fix l assume nr: "\<not> is_ready_list l"
    show "object_same k k' l (L l) \<and> set (L' l) \<subseteq> set (L l) \<or> object_ok k' l (L' l)"
    proof (cases "is_queue_list q l")
      case True
      then show ?thesis using qu by (cases l) (auto simp: queue_ok_def object_ok_def)
    next
      case False
      then have "object_same k k' l (L l)"
        using F' by (cases l) (auto simp: object_same_def same_but_queue_def condition_met_def)
      then show ?thesis using L' [OF nr False] by simp
    qed
  qed
  moreover have "rings_ok k'"
    unfolding rings_ok_def
  proof
    show "ring_ok (queues k' q')" for q'
      using F' qu objects_okD(4) [OF ob, of q'] by (cases "q' = q") (simp_all add: same_but_queue_def queue_ok_def)
  qed
  moreover have "mutexes_ok k' H"
    by (rule mutexes_ok_same [OF objects_okD(6) [OF ob]]) (use F' in \<open>simp_all add: same_but_queue_def\<close>)
  ultimately show ?thesis using inv by (auto simp: sys_ok_def objects_ok_def)
qed

lemma same_but_queue_stores [simp]:
  "same_but_queue q k (set_ring q s k') = same_but_queue q k k'"
  "same_but_queue q k (task_yield k') = same_but_queue q k k'"
  "same_but_queue q k (yield_if c k') = same_but_queue q k k'"
  "same_but_queue q k k"
  by (simp_all add: same_but_queue_def) (simp add: set_ring_def)

lemma same_but_queue_woken [simp]: "same_but_queue q k k' \<Longrightarrow> same_but_queue q k (woken_store t k')"
  by (simp add: same_but_queue_def) (simp add: woken_store_def)

lemma same_but_queue_blocked [simp]: "same_but_queue q k (queue_blocked_store l x t k)"
  by (simp add: same_but_queue_def queue_blocked_store_def)

lemma sys_queue_raw:
  assumes ob: "objects_ok k L H" and inv: "kinv k L W" and q: "queue_ok q (set_ring q s k) L"
  shows "sys_ok (set_ring q s k)"
  by (rule sys_queue [OF ob refl _ _ q]) (use inv in simp_all)

lemma sys_queue_woken:
  assumes ob: "objects_ok k L H" and k': "plain k' = plain (set_ring q s (woken_store t k))"
    and inv: "kinv k' (enqueue k t (L(l := ts))) W'" and l: "is_queue_list q l"
    and q: "queue_ok q (set_ring q s (woken_store t k)) (L(l := ts))"
  shows "sys_ok k'"
proof (rule sys_queue [OF ob k' _ inv])
  have "queue_ok q k' (L(l := ts)) = queue_ok q (set_ring q s (woken_store t k)) (L(l := ts))"
    using plainD(10,22) [OF k'] by (intro queue_ok_cong) simp_all
  then show "queue_ok q k' (enqueue k t (L(l := ts)))" using q by simp
  show "set (enqueue k t (L(l := ts)) l') \<subseteq> set (L l')" if "\<not> is_ready_list l'" "\<not> is_queue_list q l'" for l'
    using that l by (auto simp: enqueue_def Let_def)
qed simp

text \<open>An attempt that does not block has the same effect in a call and in its ISR variant.\<close>

lemma send_attempt:
  assumes inv: "kinv k L W" and ob: "objects_ok k L H"
    and room: "L (Queue_Receivers q) \<noteq> [] \<or> q_count (queues k q) < capacity (queues k q)"
  shows "\<exists>sy k'. (\<forall>n. queue_send q item n k = Inr (Returned True, yield_if sy k')) \<and>
           queue_send_from_isr q item k = Inr ((True, sy), k') \<and> sys_ok k'"
proof (cases "L (Queue_Receivers q)")
  case (Cons r rs)
  note ok = objects_okD(2) [OF ob, of q]
  obtain x where x: "q_count (queues k q) = 0" "L (Queue_Senders q) = []" "xfer_ptr (tcbs k r) = Some x"
    using queue_ok_receivers [OF ok Cons] by blast
  let ?s = "(queues k q, memcpy x item (item_size (queues k q)) (mem k))"
  obtain k' where k': "queue_send_from_isr q item k = Inr ((True, outranks_current r k), k')"
    "plain k' = plain (set_ring q ?s (woken_store r k))"
    "kinv k' (enqueue k r (L(Queue_Receivers q := rs))) (remove_wake r W)"
    and run: "\<And>n. queue_send q item n k = Inr (Returned True, yield_if (outranks_current r k) k')"
    using queue_send_hand_over [OF inv Cons x(1,3) refl] by (metis Inr_inject prod.inject)
  have "queue_ok q (set_ring q ?s (woken_store r k)) (L(Queue_Receivers q := rs)) =
      queue_ok q k (L(Queue_Receivers q := rs))" by (rule queue_ok_cong) simp_all
  then have "sys_ok k'" using queue_ok_receiver_gone [OF ok Cons]
    by (intro sys_queue_woken [OF ob k'(2,3)]) simp_all
  then show ?thesis using k'(1) run by blast
next
  case Nil
  note ok = objects_okD(2) [OF ob, of q]
  have c: "q_count (queues k q) < capacity (queues k q)" using room Nil by simp
  have "sys_ok (push_raw q item k)"
    using sys_queue_raw [OF ob inv] queue_ok_push(1) [OF ok Nil c, of item] by (simp add: push_raw_eq)
  then show ?thesis using queue_send_stored [OF inv Nil c, of item]
    by (intro exI [of _ False] exI [of _ "push_raw q item k"]) simp
qed

text \<open>A call that blocks on a queue.\<close>

lemma sys_queue_blocked:
  assumes ob: "objects_ok k L H" and l: "l = Queue_Senders q \<and> q_count (queues k q) = capacity (queues k q) \<or>
      l = Queue_Receivers q \<and> q_count (queues k q) = 0"
    and k': "plain k' = plain (task_yield (queue_blocked_store l x t k))" "kinv k' (parked k l t L) W'"
  shows "sys_ok k'"
proof (rule sys_queue [OF ob k'(1) _ k'(2)])
  show "queue_ok q k' (parked k l t L)" by (rule queue_ok_block [OF objects_okD(2) [OF ob] l k'(1)])
  show "set (parked k l t L l') \<subseteq> set (L l')" if "\<not> is_queue_list q l'" for l'
    using that l by (cases "l' = l") auto
qed simp

lemma exec_send_from_isr:
  assumes "sys_ok k"
  shows "\<exists>k'. exec (Send_From_Isr q item) k = Inr k' \<and> sys_ok k'"
proof -
  obtain L W H where inv: "kinv k L W" and ob: "objects_ok k L H"
    using assms by (auto simp: sys_ok_def)
  show ?thesis
  proof (cases "L (Queue_Receivers q) \<noteq> [] \<or> q_count (queues k q) < capacity (queues k q)")
    case True
    then show ?thesis using send_attempt [OF inv ob True, of item] by (auto simp: typed_send_from_isr_def)
  next
    case False
    then show ?thesis using queue_send_full(2) [OF inv, of q item] assms by (simp add: typed_send_from_isr_def)
  qed
qed

lemma exec_send:
  assumes "sys_ok k" and "in_task k"
  shows "\<exists>k'. exec (Send q item n) k = Inr k' \<and> sys_ok k'"
proof -
  obtain L W H where inv: "kinv k L W" and ob: "objects_ok k L H"
    using assms(1) by (auto simp: sys_ok_def)
  obtain t where t: "current_task k = Some t" "state (tcbs k t) = Running" and isr: "ipsr k = 0"
    by (rule in_taskE [OF assms(2)])
  consider "L (Queue_Receivers q) \<noteq> [] \<or> q_count (queues k q) < capacity (queues k q)"
    | "L (Queue_Receivers q) = []" "\<not> q_count (queues k q) < capacity (queues k q)" "n = 0"
    | "L (Queue_Receivers q) = []" "\<not> q_count (queues k q) < capacity (queues k q)" "n \<noteq> 0" by blast
  then show ?thesis
  proof cases
    case 1
    then obtain sy k' where "queue_send q item n k = Inr (Returned True, yield_if sy k')" "sys_ok k'"
      using send_attempt [OF inv ob, of q item] by blast
    then show ?thesis by (simp add: typed_send_def)
  next
    case 2
    then show ?thesis using queue_send_full(1) [OF inv, of q item] assms(1) by (simp add: typed_send_def)
  next
    case 3
    obtain k' where k': "queue_send q item n k = Inr (Waiting, k')"
      "plain k' = plain (task_yield (queue_blocked_store (Queue_Senders q) item t k))"
      "kinv k' (parked k (Queue_Senders q) t L) (time_limit n t W)"
      using queue_send_blocks [OF inv 3(1,2) t 3(3) isr] by blast
    have "q_count (queues k q) = capacity (queues k q)"
      using 3(2) objects_okD(4) [OF ob, of q] by (simp add: ring_ok_def)
    then have "sys_ok k'" using sys_queue_blocked [OF ob _ k'(2,3)] by blast
    then show ?thesis using k'(1) by (simp add: typed_send_def)
  qed
qed

lemma receive_attempt:
  assumes inv: "kinv k L W" and ob: "objects_ok k L H" and c: "q_count (queues k q) \<noteq> 0"
  shows "\<exists>sy k'. (\<forall>n. queue_receive q out n k = Inr (Returned True, yield_if sy k')) \<and>
           queue_receive_from_isr q out k = Inr ((True, sy), k') \<and> sys_ok k'"
proof -
  note ok = objects_okD(2) [OF ob, of q]
  have rok: "ring_ok (queues k q)" and nr: "L (Queue_Receivers q) = []"
    using ok c by (auto simp: queue_ok_def)
  let ?p = "ring_pop out (ring_of q k)"
  have pop: "ring_ok (fst ?p)" using ring_pop_keeps [OF rok, of out "mem k"] c by (simp add: ring_of_def)
  show ?thesis
  proof (cases "L (Queue_Senders q)")
    case Nil
    then have "queue_ok q (set_ring q ?p k) L" using pop nr by (simp add: queue_ok_def)
    then have "sys_ok (pop_raw q out k)" using sys_queue_raw [OF ob inv] by (simp add: pop_raw_eq)
    then show ?thesis using queue_receive_stored [OF inv Nil c, of out]
      by (intro exI [of _ False] exI [of _ "pop_raw q out k"]) simp
  next
    case (Cons s ss)
    obtain x where x: "xfer_ptr (tcbs k s) = Some x" and full: "q_count (queues k q) = capacity (queues k q)"
      using queue_ok_senders [OF ok Cons] by blast
    let ?s = "ring_push x ?p"
    obtain k' where k': "queue_receive_from_isr q out k = Inr ((True, outranks_current s k), k')"
      "plain k' = plain (set_ring q ?s (woken_store s k))"
      "kinv k' (enqueue k s (L(Queue_Senders q := ss))) (remove_wake s W)"
      and run: "\<And>n. queue_receive q out n k = Inr (Returned True, yield_if (outranks_current s k) k')"
      using queue_receive_hand_over [OF inv Cons c x refl] by (metis Inr_inject prod.inject)
    have "ring_ok (fst ?s)"
      using ring_push_ok(1) [of "fst ?p" x "snd ?p"] pop c full by simp
    then have "queue_ok q (set_ring q ?s (woken_store s k)) (L(Queue_Senders q := ss))"
      using ok nr Cons c full by (auto simp: queue_ok_def)
    then have "sys_ok k'" by (intro sys_queue_woken [OF ob k'(2,3)]) simp_all
    then show ?thesis using k'(1) run by blast
  qed
qed

lemma exec_receive_from_isr:
  assumes "sys_ok k"
  shows "\<exists>k'. exec (Receive_From_Isr q out) k = Inr k' \<and> sys_ok k'"
proof -
  obtain L W H where inv: "kinv k L W" and ob: "objects_ok k L H"
    using assms by (auto simp: sys_ok_def)
  show ?thesis
  proof (cases "q_count (queues k q) = 0")
    case True
    then show ?thesis using queue_receive_empty(2) [OF True, of out] assms
      by (simp add: typed_receive_from_isr_def)
  next
    case False
    then show ?thesis using receive_attempt [OF inv ob False, of out]
      by (auto simp: typed_receive_from_isr_def)
  qed
qed

lemma exec_receive:
  assumes "sys_ok k" and "in_task k"
  shows "\<exists>k'. exec (Receive q out n) k = Inr k' \<and> sys_ok k'"
proof -
  obtain L W H where inv: "kinv k L W" and ob: "objects_ok k L H"
    using assms(1) by (auto simp: sys_ok_def)
  obtain t where t: "current_task k = Some t" "state (tcbs k t) = Running" and isr: "ipsr k = 0"
    by (rule in_taskE [OF assms(2)])
  consider "q_count (queues k q) \<noteq> 0" | "q_count (queues k q) = 0" "n = 0"
    | "q_count (queues k q) = 0" "n \<noteq> 0" by blast
  then show ?thesis
  proof cases
    case 1
    then obtain sy k' where "queue_receive q out n k = Inr (Returned True, yield_if sy k')" "sys_ok k'"
      using receive_attempt [OF inv ob, of q out] by blast
    then show ?thesis by (simp add: typed_receive_def)
  next
    case 2
    then show ?thesis using queue_receive_empty(1) [OF 2(1), of out] assms(1)
      by (simp add: typed_receive_def)
  next
    case 3
    obtain k' where k': "queue_receive q out n k = Inr (Waiting, k')"
      "plain k' = plain (task_yield (queue_blocked_store (Queue_Receivers q) out t k))"
      "kinv k' (parked k (Queue_Receivers q) t L) (time_limit n t W)"
      using queue_receive_blocks [OF inv 3(1) t 3(2) isr] by blast
    have "sys_ok k'" using sys_queue_blocked [OF ob _ k'(2,3)] 3(1) by blast
    then show ?thesis using k'(1) by (simp add: typed_receive_def)
  qed
qed

subsection \<open>Event groups\<close>

definition same_but_bits :: "nat \<Rightarrow> kernel \<Rightarrow> kernel \<Rightarrow> bool" where
  "same_but_bits e k k' \<longleftrightarrow> mutexes k' = mutexes k \<and> sem_count k' = sem_count k \<and> queues k' = queues k \<and>
     (\<forall>e'. e' \<noteq> e \<longrightarrow> event_bits k' e' = event_bits k e') \<and> ntasks k' = ntasks k \<and>
     (\<forall>t. held_mutexes (tcbs k' t) = held_mutexes (tcbs k t) \<and>
          (xfer_ptr (tcbs k t) \<noteq> None \<longrightarrow> xfer_ptr (tcbs k' t) \<noteq> None))"

lemma same_but_bits_plain:
  assumes "plain k' = plain F"
  shows "same_but_bits e k k' = same_but_bits e k F"
  unfolding same_but_bits_def ntasks_def plainD [OF assms] ..

lemma sys_event:
  assumes ob: "objects_ok k L H" and k': "plain k' = plain F" and F: "same_but_bits e k F"
    and cond: "\<And>t e' bits. e' \<noteq> e \<Longrightarrow> t \<in> set (L (Event_Waiters e')) \<Longrightarrow>
      condition_met (tcbs F t) bits = condition_met (tcbs k t) bits"
    and inv: "kinv k' L' W'"
    and new: "\<And>t. t \<in> set (L' (Event_Waiters e)) \<Longrightarrow> \<not> condition_met (tcbs F t) (event_bits F e)"
    and L': "\<And>l. \<not> is_ready_list l \<Longrightarrow> l \<noteq> Event_Waiters e \<Longrightarrow> set (L' l) \<subseteq> set (L l)"
  shows "sys_ok k'"
proof -
  have F': "same_but_bits e k k'" using F by (simp add: same_but_bits_plain [OF k'])
  have cm: "condition_met (tcbs k' t) bits = condition_met (tcbs F t) bits" for t bits
    unfolding condition_met_def plainD(11,12) [OF k'] ..
  have "waiters_ok k' L'"
  proof (rule waiters_frame)
    show "waiters_ok k L" using ob by (simp add: objects_ok_def)
    fix l assume nr: "\<not> is_ready_list l"
    show "object_same k k' l (L l) \<and> set (L' l) \<subseteq> set (L l) \<or> object_ok k' l (L' l)"
    proof (cases "l = Event_Waiters e")
      case True
      have "event_bits k' = event_bits F" by (rule plainD(21) [OF k'])
      then show ?thesis using new True by (simp add: object_ok_def cm)
    next
      case False
      then have "object_same k k' l (L l)"
        using F' cond by (cases l) (simp_all add: object_same_def same_but_bits_def cm)
      then show ?thesis using L' [OF nr False] by simp
    qed
  qed
  moreover have "rings_ok k'" using ob F' by (simp add: objects_ok_def rings_ok_def same_but_bits_def)
  moreover have "mutexes_ok k' H"
    by (rule mutexes_ok_same [OF objects_okD(6) [OF ob]]) (use F' in \<open>simp_all add: same_but_bits_def\<close>)
  ultimately show ?thesis using inv by (auto simp: sys_ok_def objects_ok_def)
qed

lemma event_unmet:
  "objects_ok k L H \<Longrightarrow> t \<in> set (L (Event_Waiters e)) \<Longrightarrow> \<not> condition_met (tcbs k t) (event_bits k e)"
  using objects_okD(5) [of k L H "Event_Waiters e"] by (simp add: object_ok_def)

lemma set_bits_locked_sys:
  assumes "sys_ok k"
  shows "\<exists>b v k'. set_bits_locked e m k = Inr ((b, v), k') \<and> sys_ok k'"
proof -
  obtain L W H where inv: "kinv k L W" and ob: "objects_ok k L H"
    using assms by (auto simp: sys_ok_def)
  let ?w = "event_bits k e OR m" and ?ts = "L (Event_Waiters e)"
  let ?ws = "scan_woken (tcbs k) ?w ?ts" and ?rest = "scan_rest (tcbs k) ?w ?ts"
  let ?F = "scan_store e ?ws (set_event_bits e ?w k)"
  obtain b v k' where k': "set_bits_locked e m k = Inr ((b, v), k')" "plain k' = plain ?F"
    "event_bits k' e = scan_bits (tcbs k) ?w ?ts"
    "kinv k' (scan_lists e k (map fst ?ws) ?rest L) (fold remove_wake (map fst ?ws) W)"
    using set_bits_locked_ok [OF inv refl refl, of e m] by blast
  have bits: "event_bits ?F e = scan_bits (tcbs k) ?w ?ts"
    using plainD(21) [OF k'(2)] k'(3) by simp
  have cm: "condition_met (tcbs ?F t) bits = condition_met (tcbs k t) bits" for t bits
    by (simp add: condition_met_def)
  have "sys_ok k'"
  proof (rule sys_event [OF ob k'(2) _ _ k'(4)])
    show "same_but_bits e k ?F" by (simp add: same_but_bits_def ntasks_def set_event_bits_def)
    show "set (scan_lists e k (map fst ?ws) ?rest L l) \<subseteq> set (L l)"
      if "\<not> is_ready_list l" "l \<noteq> Event_Waiters e" for l
      using that by (simp add: scan_lists_other)
    show "\<not> condition_met (tcbs ?F t) (event_bits ?F e)"
      if "t \<in> set (scan_lists e k (map fst ?ws) ?rest L (Event_Waiters e))" for t
      using that scan_rest_unmet [of t "tcbs k" ?w ?ts] by (simp add: scan_lists_other bits cm)
  qed (rule cm)
  then show ?thesis using k'(1) by blast
qed

lemma exec_set_bits:
  assumes "sys_ok k"
  shows "\<exists>k'. exec (Set_Bits e m) k = Inr k' \<and> sys_ok k'"
    and "\<exists>k'. exec (Set_Bits_From_Isr e m) k = Inr k' \<and> sys_ok k'"
  using set_bits_locked_sys [OF assms, of e m] by (auto simp: set_bits_def set_bits_from_isr_def)

text \<open>Bits are taken away.\<close>

lemma sys_clear:
  assumes "sys_ok k" and "bits_within w (event_bits k e)"
  shows "sys_ok (set_event_bits e w (k\<lparr>mem := m\<rparr>))"
proof -
  obtain L W H where inv: "kinv k L W" and ob: "objects_ok k L H"
    using assms by (auto simp: sys_ok_def)
  show ?thesis
  proof (rule sys_event [OF ob refl])
    show "same_but_bits e k (set_event_bits e w (k\<lparr>mem := m\<rparr>))"
      by (simp add: same_but_bits_def set_event_bits_def)
    show "kinv (set_event_bits e w (k\<lparr>mem := m\<rparr>)) L W" using inv by simp
    show "\<not> condition_met (tcbs (set_event_bits e w (k\<lparr>mem := m\<rparr>)) t)
        (event_bits (set_event_bits e w (k\<lparr>mem := m\<rparr>)) e)" if "t \<in> set (L (Event_Waiters e))" for t
      using event_unmet [OF ob that] condition_met_mono [OF assms(2)] by auto
  qed simp_all
qed

lemma exec_clear_bits:
  assumes "sys_ok k"
  shows "\<exists>k'. exec (Clear_Bits e m) k = Inr k' \<and> sys_ok k'"
  using sys_clear [OF assms bits_within_clear, of e m "mem k"] by (simp add: clear_bits_eq)

lemma exec_wait_bits:
  assumes "sys_ok k" and "in_task k"
  shows "\<exists>k'. exec (Wait_Bits e m al clr n ret) k = Inr k' \<and> sys_ok k'"
proof -
  obtain L W H where inv: "kinv k L W" and ob: "objects_ok k L H"
    using assms(1) by (auto simp: sys_ok_def)
  obtain t where t: "current_task k = Some t" "state (tcbs k t) = Running" and isr: "ipsr k = 0"
    by (rule in_taskE [OF assms(2)])
  consider "m = 0" | "m \<noteq> 0" "bits_satisfy (event_bits k e) m al"
    | "m \<noteq> 0" "\<not> bits_satisfy (event_bits k e) m al" "n = 0"
    | "m \<noteq> 0" "\<not> bits_satisfy (event_bits k e) m al" "n \<noteq> 0" by blast
  then show ?thesis
  proof cases
    case 1
    then show ?thesis using assms(1) by (simp add: wait_bits_def get_bits_eq)
  next
    case 2
    let ?w = "if clr then event_bits k e AND NOT m else event_bits k e"
    have "sys_ok (set_event_bits e ?w (k\<lparr>mem := store32 ret (event_bits k e) (store32 ret 0 (mem k))\<rparr>))"
      by (rule sys_clear [OF assms(1)]) simp
    then show ?thesis using wait_bits_match [OF t(1) isr 2 refl, of clr n ret]
      by (simp add: set_event_bits_def)
  next
    case 3
    have "sys_ok (k\<lparr>mem := store32 ret 0 (mem k)\<rparr>)"
      using sys_quiet [OF ob refl, of "k\<lparr>mem := store32 ret 0 (mem k)\<rparr>" L W] inv by simp
    then show ?thesis using wait_bits_poll [OF t(1) isr 3(1,2)] 3(3) by simp
  next
    case 4
    let ?F = "task_yield (event_wait_store e m al clr ret t k)"
    obtain k' where k': "wait_bits e m al clr n ret k = Inr (Waiting, k')" "plain k' = plain ?F"
      "kinv k' (parked k (Event_Waiters e) t L) (time_limit n t W)"
      using wait_bits_blocks [OF inv t isr 4(1,3,2)] by blast
    have tn: "t < ntasks k" by (rule kinv_current [OF inv t(1)])
    have nt: "t \<notin> set (L l)" for l
      using task_ok_detached [OF kinv_task [OF inv tn]] t(2) by (simp add: detached_from_def)
    have cm: "condition_met (tcbs ?F s) bits = condition_met (tcbs k s) bits" if "s \<noteq> t" for s bits
      using that by (simp add: event_wait_store_def condition_met_def)
    have "sys_ok k'"
    proof (rule sys_event [OF ob k'(2) _ _ k'(3)])
      show "same_but_bits e k ?F" by (simp add: same_but_bits_def event_wait_store_def)
      show "condition_met (tcbs ?F s) bits = condition_met (tcbs k s) bits"
        if "s \<in> set (L (Event_Waiters e'))" for s bits e'
        using cm nt that by metis
      show "\<not> condition_met (tcbs ?F s) (event_bits ?F e)"
        if "s \<in> set (parked k (Event_Waiters e) t L (Event_Waiters e))" for s
      proof (cases "s = t")
        case True
        then show ?thesis using 4(2) by (simp add: event_wait_store_def condition_met_def bits_satisfy_def split: if_splits)
      next
        case False
        then have "s \<in> set (L (Event_Waiters e))" using that by simp
        then show ?thesis using event_unmet [OF ob] cm [OF False] by (simp add: event_wait_store_def)
      qed
    qed simp_all
    then show ?thesis using k'(1) by simp
  qed
qed

subsection \<open>Every allowed call\<close>

lemma exec_ok:
  assumes "sys_ok k" and "allowed c k"
  shows "\<exists>k'. exec c k = Inr k' \<and> sys_ok k'"
proof (cases c)
  case (Switch c)
  then show ?thesis using assms exec_switch by simp
next
  case (Resume t)
  then show ?thesis using assms exec_resume by simp
next
  case (Create site buf words n construct tramp p)
  then show ?thesis using assms exec_create by blast
next
  case (Start site buf construct tramp)
  then show ?thesis using assms exec_start by blast
next
  case (Lock m)
  then show ?thesis using assms exec_lock by simp
next
  case (Unlock m)
  then show ?thesis using assms exec_unlock by simp
qed (use assms exec_tick exec_app exec_yield exec_delay_ms exec_delay_until exec_suspend exec_delete exec_take
  exec_try_take exec_give exec_send exec_send_from_isr exec_receive exec_receive_from_isr
  exec_wait_bits exec_set_bits exec_clear_bits in \<open>simp_all\<close>)

end
