(* ===== verification/Kernel_Run.thy ===== *)
theory Kernel_Run
  imports Kernel_Ipc_Calls
begin

text \<open>
  Runs of the kernel: the state after static initialisation, and the states that sequences
  of calls and interrupts reach. \<open>reach_sys_ok\<close> lifts the invariant of theory
  Kernel_Ipc_Calls to all of them by rule induction.
\<close>

subsection \<open>The step relation\<close>

inductive kstep :: "kernel \<Rightarrow> call \<Rightarrow> kernel \<Rightarrow> bool" where
  kstep: "allowed c k \<Longrightarrow> exec c k = Inr k' \<Longrightarrow> kstep k c k'"

inductive_cases kstepE: "kstep k c k'"

inductive_simps kstep_iff: "kstep k c k'"

inductive reach :: "kernel \<Rightarrow> kernel \<Rightarrow> bool" for k0 where
  reach_refl: "reach k0 k0"
| reach_step: "reach k0 k \<Longrightarrow> kstep k c k' \<Longrightarrow> reach k0 k'"

lemma kstep_sys_ok: "kstep k c k' \<Longrightarrow> sys_ok k \<Longrightarrow> sys_ok k'"
  using exec_ok [of k c] by (auto elim!: kstepE)

lemma reach_sys_ok: "reach k0 k \<Longrightarrow> sys_ok k0 \<Longrightarrow> sys_ok k"
  by (induction rule: reach.induct) (auto intro: kstep_sys_ok)

lemma kstep_progress: "sys_ok k \<Longrightarrow> allowed c k \<Longrightarrow> \<exists>k'. kstep k c k' \<and> sys_ok k'"
  using exec_ok by (blast intro: kstep)

subsection \<open>Static initialisation\<close>

text \<open>
  The state before \<open>main\<close> creates its tasks. The application chooses the initial counts of
  its semaphores, its queues and the memory behind them.
\<close>

definition boot :: "bool \<Rightarrow> (nat \<Rightarrow> 32 word) \<Rightarrow> (nat \<Rightarrow> queue_core) \<Rightarrow> (addr \<Rightarrow> 8 word) \<Rightarrow> kernel" where
  "boot asserts counts qs m =
     \<lparr>use_assert = asserts, tcbs = \<lambda>_. initial_tcb, lists = \<lambda>_. initial_list, current_task = None,
      ready_bitmask = 0, delay_head = None, task_count = 0, started = False, tick_count = 0,
      sem_count = counts, mutexes = \<lambda>_. initial_mutex, event_bits = \<lambda>_. 0, queues = qs, mem = m,
      site_created = \<lambda>_. False, current_sp = 0, psp = 0, primask = False, ipsr = 0,
      pendsv = False, g_cpu_hz = kCpuHz, regs = \<lambda>_. 0\<rparr>"

lemma boot_kinv: "kinv (boot a cs qs m) (\<lambda>_. []) []"
proof -
  have "wf_kernel (boot a cs qs m) (\<lambda>_. []) []"
    by (simp add: wf_kernel_def wf_lists_def linked_list_def wf_ready_def wf_delay_def delay_linked_def
        boot_def initial_list_def initial_tcb_def)
  then show ?thesis
    by (simp add: kinv_def kinv_but_def wait_sorted_def detached_from_def awake_none_def
        only_current_runs_def current_valid_def ntasks_def) (simp add: boot_def)
qed

lemma boot_sys_ok:
  assumes "\<And>q. ring_ok (qs q)"
  shows "sys_ok (boot a cs qs m)"
proof -
  let ?k = "boot a cs qs m"
  have "waiters_ok ?k (\<lambda>_. [])"
    by (simp add: waiters_ok_def object_ok_def split: list_id.split)
  moreover have "rings_ok ?k" using assms by (simp add: rings_ok_def boot_def)
  moreover have "mutexes_ok ?k (\<lambda>_. [])"
    by (simp add: mutexes_ok_def held_lists_def owners_def boot_def initial_tcb_def initial_mutex_def)
  ultimately show ?thesis using sys_okI [OF boot_kinv] by (simp add: objects_ok_def)
qed

end
