(* ===== verification/Example_Kernel.thy ===== *)
theory Example_Kernel
  imports Kernel_Run
begin

text \<open>
  A concrete state of the kernel, in the middle of a run, on which the theorems are
  instantiated: eleven tasks, one in each situation the kernel distinguishes.
  \<^item> 0 is running, with base priority 2 raised to 3 by the waiter of mutex 0, which it holds;
  \<^item> 1 and 2 are ready at priority 1, in this order;
  \<^item> 3 waits for semaphore 0 with one tick of its time limit left;
  \<^item> 4 waits for mutex 0;
  \<^item> 5 sleeps for four more ticks;
  \<^item> 6 is suspended;
  \<^item> 7 waits for both of the bits 0 and 1 of event group 0;
  \<^item> 8 is ready at priority 3;
  \<^item> 9 waits to send the item at 8100 to queue 1, which is full;
  \<^item> 10 waits to receive from queue 2, which is empty.
\<close>

definition ex_tcb :: "tid \<Rightarrow> tcb" where
  "ex_tcb = (\<lambda>_. initial_tcb)
    (0 := initial_tcb\<lparr>state := Running, sp := 1100, stack_base := 1000, stack_end := 2024,
            priority := 3, base_priority := 2, held_mutexes := Some 0\<rparr>,
     1 := initial_tcb\<lparr>state := Ready, sp := 3100, stack_base := 3000, stack_end := 4024,
            priority := 1, base_priority := 1, link_next := Some 2\<rparr>,
     2 := initial_tcb\<lparr>state := Ready, sp := 5100, stack_base := 5000, stack_end := 6024,
            priority := 1, base_priority := 1, link_prev := Some 1\<rparr>,
     3 := initial_tcb\<lparr>state := Blocked, priority := 2, base_priority := 2,
            wait_list := Some (Sem_Wait 0), delay_ticks := 1, delay_next := Some 5,
            in_delay_list := True\<rparr>,
     4 := initial_tcb\<lparr>state := Blocked, priority := 3, base_priority := 3,
            wait_list := Some (Mutex_Wait 0)\<rparr>,
     5 := initial_tcb\<lparr>state := Blocked, priority := 4, base_priority := 4, delay_ticks := 3,
            delay_prev := Some 3, in_delay_list := True\<rparr>,
     6 := initial_tcb\<lparr>state := Suspended, priority := 5, base_priority := 5\<rparr>,
     7 := initial_tcb\<lparr>state := Blocked, priority := 1, base_priority := 1,
            wait_list := Some (Event_Waiters 0), xfer_ptr := Some 8000, event_wait_mask := 3,
            event_wait_all := True, event_clear_on_exit := True\<rparr>,
     8 := initial_tcb\<lparr>state := Ready, sp := 7100, stack_base := 7000, stack_end := 8024,
            priority := 3, base_priority := 3\<rparr>,
     9 := initial_tcb\<lparr>state := Blocked, priority := 2, base_priority := 2,
            wait_list := Some (Queue_Senders 1), xfer_ptr := Some 8100\<rparr>,
     10 := initial_tcb\<lparr>state := Blocked, priority := 6, base_priority := 6,
            wait_list := Some (Queue_Receivers 2), xfer_ptr := Some 8200\<rparr>)"

definition ex_lists :: "list_id \<Rightarrow> task_list" where
  "ex_lists = (\<lambda>_. initial_list)
    (Ready_List 1 := \<lparr>head = Some 1, tail = Some 2\<rparr>,
     Ready_List 3 := \<lparr>head = Some 8, tail = Some 8\<rparr>,
     Sem_Wait 0 := \<lparr>head = Some 3, tail = Some 3\<rparr>,
     Mutex_Wait 0 := \<lparr>head = Some 4, tail = Some 4\<rparr>,
     Event_Waiters 0 := \<lparr>head = Some 7, tail = Some 7\<rparr>,
     Queue_Senders 1 := \<lparr>head = Some 9, tail = Some 9\<rparr>,
     Queue_Receivers 2 := \<lparr>head = Some 10, tail = Some 10\<rparr>)"

definition ex_queues :: "nat \<Rightarrow> queue_core" where
  "ex_queues = (\<lambda>q. \<lparr>storage = 9000 + 100 * q, item_size = 2, capacity = 2, q_head = 1, q_tail = 1, q_count = 0\<rparr>)
    (0 := \<lparr>storage = 9000, item_size = 2, capacity = 2, q_head = 1, q_tail = 0, q_count = 1\<rparr>,
     1 := \<lparr>storage = 9100, item_size = 2, capacity = 2, q_head = 1, q_tail = 1, q_count = 2\<rparr>)"

text \<open>Queue 0 holds the item 7 8, queue 1 the items 3 4 and 1 2; the buffer of task 9 holds 5 6.\<close>

definition ex_mem :: "addr \<Rightarrow> 8 word" where
  "ex_mem = (\<lambda>_. 0)(9002 := 7, 9003 := 8, 9100 := 1, 9101 := 2, 9102 := 3, 9103 := 4, 8100 := 5, 8101 := 6)"

definition ex_kernel :: kernel where
  "ex_kernel = \<lparr>use_assert = True, tcbs = ex_tcb, lists = ex_lists, current_task = Some 0,
     ready_bitmask = 10, delay_head = Some 3, task_count = 11, started = True,
     tick_count = 0xFFFFFFFE, sem_count = (\<lambda>_. 0)(1 := 5),
     mutexes = (\<lambda>_. initial_mutex)(0 := \<lparr>owner = Some 0, next_held = None\<rparr>),
     event_bits = (\<lambda>_. 0)(0 := 1),
     queues = ex_queues,
     mem = store32 1000 kStackCanary ex_mem, site_created = (\<lambda>_. False),
     current_sp = 1090, psp = 1090, primask = False, ipsr = 0, pendsv = False,
     g_cpu_hz = kCpuHz, regs = (\<lambda>_. 0)\<rparr>"

definition ex_L :: "list_id \<Rightarrow> tid list" where
  "ex_L = (\<lambda>_. [])(Ready_List 1 := [1, 2], Ready_List 3 := [8], Sem_Wait 0 := [3], Mutex_Wait 0 := [4],
     Event_Waiters 0 := [7], Queue_Senders 1 := [9], Queue_Receivers 2 := [10])"

definition ex_W :: "(tid \<times> nat) list" where
  "ex_W = [(3, 1), (5, 4)]"

definition ex_H :: "tid \<Rightarrow> mutex_id list" where
  "ex_H = (\<lambda>_. [])(0 := [0])"

lemma ex_kernel_simps [simp]:
  "use_assert ex_kernel" "tcbs ex_kernel = ex_tcb" "lists ex_kernel = ex_lists"
  "current_task ex_kernel = Some 0" "ready_bitmask ex_kernel = 10" "delay_head ex_kernel = Some 3"
  "task_count ex_kernel = 11" "queues ex_kernel = ex_queues" "started ex_kernel" "tick_count ex_kernel = 0xFFFFFFFE"
  "sem_count ex_kernel = (\<lambda>_. 0)(1 := 5)" "event_bits ex_kernel = (\<lambda>_. 0)(0 := 1)"
  "mutexes ex_kernel = (\<lambda>_. initial_mutex)(0 := \<lparr>owner = Some 0, next_held = None\<rparr>)"
  "mem ex_kernel = store32 1000 kStackCanary ex_mem" "current_sp ex_kernel = 1090"
  "primask ex_kernel = False" "ipsr ex_kernel = 0" "pendsv ex_kernel = False"
  "site_created ex_kernel = (\<lambda>_. False)" "ntasks ex_kernel = 11"
  by (simp_all add: ex_kernel_def ntasks_def)

lemma ex_tcb_state [simp]:
  "state (ex_tcb 0) = Running" "state (ex_tcb 1) = Ready" "state (ex_tcb (Suc 0)) = Ready"
  "state (ex_tcb 2) = Ready" "state (ex_tcb 3) = Blocked" "state (ex_tcb 4) = Blocked"
  "state (ex_tcb 5) = Blocked" "state (ex_tcb 6) = Suspended" "state (ex_tcb 7) = Blocked"
  "state (ex_tcb 8) = Ready" "priority (ex_tcb 8) = 3"
  "state (ex_tcb 9) = Blocked" "state (ex_tcb 10) = Blocked" "xfer_ptr (ex_tcb 9) = Some 8100"
  "xfer_ptr (ex_tcb 10) = Some 8200" "priority (ex_tcb 9) = 2" "priority (ex_tcb 10) = 6"
  "priority (ex_tcb 0) = 3" "priority (ex_tcb 1) = 1" "priority (ex_tcb (Suc 0)) = 1"
  "priority (ex_tcb 2) = 1" "priority (ex_tcb 3) = 2" "priority (ex_tcb 4) = 3"
  "priority (ex_tcb 5) = 4" "priority (ex_tcb 6) = 5" "priority (ex_tcb 7) = 1"
  "base_priority (ex_tcb 0) = 2" "stack_base (ex_tcb 0) = 1000"
  "wait_list (ex_tcb 0) = None" "wait_list (ex_tcb 3) = Some (Sem_Wait 0)"
  "wait_list (ex_tcb 5) = None"
  by (simp_all add: ex_tcb_def initial_tcb_def)

lemma ex_L_simps [simp]:
  "ex_L (Ready_List p) = (if p = 1 then [1, 2] else if p = 3 then [8] else [])"
  "ex_L (Sem_Wait s) = (if s = 0 then [3] else [])"
  "ex_L (Mutex_Wait s) = (if s = 0 then [4] else [])"
  "ex_L (Event_Waiters s) = (if s = 0 then [7] else [])"
  "ex_L (Queue_Senders s) = (if s = 1 then [9] else [])"
  "ex_L (Queue_Receivers s) = (if s = 2 then [10] else [])"
  by (simp_all add: ex_L_def)

lemma ex_wf_lists: "wf_lists ex_kernel ex_L"
  unfolding wf_lists_def
proof (intro conjI allI impI)
  show "linked_list ex_kernel l (ex_L l)" for l
    by (cases l) (auto simp: linked_list_def linked_def ex_lists_def ex_tcb_def initial_tcb_def
        initial_list_def first_of_def last_of_def)
  show "set (ex_L l) \<inter> set (ex_L l') = {}" if "l \<noteq> l'" for l l'
    using that by (cases l; cases l') auto
qed

lemma ex_wf_kernel: "wf_kernel ex_kernel ex_L ex_W"
proof -
  have "wf_ready ex_kernel ex_L"
    unfolding wf_ready_def
  proof (intro conjI allI impI)
    show "bit (ready_bitmask ex_kernel) (unat p) \<longleftrightarrow> ex_L (Ready_List p) \<noteq> []" if "p < 32" for p
    proof -
      have "(10 :: 32 word) = 2 ^ 1 OR 2 ^ 3" by simp
      then have "bit (10 :: 32 word) (unat p) \<longleftrightarrow> unat p = unat (1 :: prio) \<or> unat p = unat (3 :: prio)"
        by (simp only: bit_or_iff bit_one_shift) simp
      then show ?thesis by (simp only: unat_eq_iff_word) simp
    qed
    show "ex_L (Ready_List p) = []" if "\<not> p < 32" for p
      using that by (auto simp: word_less_nat_alt)
  qed
  moreover have "wf_delay ex_kernel ex_W"
    by (auto simp: wf_delay_def delay_linked_def linked_def ex_W_def ex_tcb_def initial_tcb_def
        first_of_def last_of_def)
  ultimately show ?thesis using ex_wf_lists by (simp add: wf_kernel_def)
qed

lemma ex_kinv: "kinv ex_kernel ex_L ex_W"
proof -
  have lt: "t < 11 \<longleftrightarrow> t \<in> {0, 1, 2, 3, 4, 5, 6, 7, 8, 9, 10}" for t :: nat by (simp, presburger)
  have tk: "task_ok ex_kernel ex_L ex_W t" if "t < 11" for t
  proof -
    have *: "(\<forall>l. \<not> is_ready_list l \<longrightarrow> P l) \<longleftrightarrow>
      (\<forall>s. P (Sem_Wait s) \<and> P (Mutex_Wait s) \<and> P (Queue_Senders s) \<and> P (Queue_Receivers s) \<and> P (Event_Waiters s))" for P
      by (metis is_ready_list.simps list_id.exhaust)
    show ?thesis using that unfolding lt
      by (elim insertE emptyE)
        (simp_all add: task_ok_def * ex_W_def ex_tcb_def initial_tcb_def word_le_nat_alt word_less_nat_alt, auto?)
  qed
  have ws: "wait_sorted ex_kernel ex_L"
    unfolding wait_sorted_def
  proof (intro allI impI)
    fix l assume "\<not> is_ready_list l"
    then show "prio_sorted (\<lambda>x. priority (tcbs ex_kernel x)) (ex_L l)" by (cases l) auto
  qed
  have de: "detached_from ex_L ex_W t" if "11 \<le> t" for t
    unfolding detached_from_def
  proof (intro conjI allI)
    show "t \<notin> set (ex_L l)" for l using that by (cases l) auto
    show "t \<notin> fst ` set ex_W" using that by (auto simp: ex_W_def)
  qed
  have oc: "only_current_runs {} ex_kernel" "current_valid ex_kernel"
    unfolding only_current_runs_def current_valid_def
    by (auto simp: lt)
  show ?thesis
    using ex_wf_kernel tk ws de oc
    by (simp add: kinv_def kinv_but_def kMaxTasks_def awake_none_def ex_W_def)
qed

lemma ex_mutex_ok: "mutex_ok ex_kernel ex_L ex_H"
  by (auto simp: mutex_ok_def held_lists_def owners_def ex_H_def ex_tcb_def initial_tcb_def
      initial_mutex_def split: if_splits)

lemma ex_queue_ok: "queue_ok q ex_kernel ex_L"
  by (auto simp: queue_ok_def ring_ok_def ex_queues_def ex_tcb_def initial_tcb_def)

lemma ex_objects_ok: "objects_ok ex_kernel ex_L ex_H"
proof -
  have "object_ok ex_kernel l (ex_L l)" for l
    by (cases l) (auto simp: object_ok_def ex_queues_def ex_tcb_def initial_tcb_def condition_met_def)
  moreover have "ring_ok (queues ex_kernel q)" for q using ex_queue_ok [of q] by (simp add: queue_ok_def)
  moreover have "mutexes_ok ex_kernel ex_H"
    using ex_mutex_ok by (simp add: mutex_ok_def mutexes_ok_def)
  ultimately show ?thesis by (simp add: objects_ok_def waiters_ok_def rings_ok_def)
qed

lemma ex_sys_ok: "sys_ok ex_kernel"
  by (rule sys_okI [OF ex_kinv ex_objects_ok])

text \<open>The registers of a task that has not used the floating point unit.\<close>

definition ex_cpu :: cpu where
  "ex_cpu = \<lparr>core_reg = \<lambda>_. 7, fpu_reg = \<lambda>_. 0, link_reg = 0xFFFFFFFD\<rparr>"

text \<open>An application with two queues, before it has created a task.\<close>

definition ex_boot :: kernel where
  "ex_boot = boot True (\<lambda>_. 0) ex_queues ex_mem"

lemma ex_rings: "ring_ok (ex_queues q)"
  using ex_queue_ok [of q] by (simp add: queue_ok_def)

end
