(* ===== verification/Kept_Facts.thy ===== *)
theory Kept_Facts
  imports Kernel_Calls
begin

text \<open>
  Facts that an operation keeps on every path, whatever the state. \<open>keeps P st r\<close> says that the
  result \<open>r\<close>, if it is one and not a fault, holds a state with \<open>P\<close>; \<open>st\<close> reads the state. The
  rules of \<open>keeps_rules\<close> follow the control flow of the model, so that the lemma of an operation
  is its definition, these rules, and the facts of the operations it calls.
\<close>

named_theorems keeps_rules

definition keeps :: "(kernel \<Rightarrow> bool) \<Rightarrow> ('a \<Rightarrow> kernel) \<Rightarrow> 'a res \<Rightarrow> bool" where
  "keeps P st r \<longleftrightarrow> (\<forall>v. r = Inr v \<longrightarrow> P (st v))"

lemma keepsD: "keeps P st r \<Longrightarrow> r = Inr v \<Longrightarrow> P (st v)"
  by (simp add: keeps_def)

lemma keeps_basic [keeps_rules]:
  "keeps P st (Inl e)"
  "P (st v) \<Longrightarrow> keeps P st (Inr v)"
  "keeps P st r \<Longrightarrow> keeps P st (acr_assert k b r)"
  by (auto simp: keeps_def acr_assert_def)

lemma keeps_andthen [keeps_rules]:
  "\<lbrakk>keeps P (\<lambda>k. k) m; \<And>k. P k \<Longrightarrow> keeps P st (f k)\<rbrakk> \<Longrightarrow> keeps P st (andthen m f)"
  "\<lbrakk>keeps P snd m'; \<And>v k. P k \<Longrightarrow> keeps P st (f' (v, k))\<rbrakk> \<Longrightarrow> keeps P st (andthen m' f')"
  by (auto simp: keeps_def andthen_eq_Inr)

lemma keeps_loop [keeps_rules]:
  "(\<And>v. keeps P st (f v)) \<Longrightarrow> keeps P st (andthen (loop_res r) f)"
  by (auto simp: keeps_def andthen_eq_Inr)

lemma keeps_cases [keeps_rules]:
  "\<lbrakk>b \<Longrightarrow> keeps P st x; \<not> b \<Longrightarrow> keeps P st y\<rbrakk> \<Longrightarrow> keeps P st (if b then x else y)"
  "\<lbrakk>keeps P st x; \<And>a. v = Some a \<Longrightarrow> keeps P st (g a)\<rbrakk> \<Longrightarrow> keeps P st (case v of None \<Rightarrow> x | Some a \<Rightarrow> g a)"
  "\<lbrakk>\<And>a. keeps P st (g1 a); \<And>b. keeps P st (g2 b)\<rbrakk> \<Longrightarrow> keeps P st (case w of Inl a \<Rightarrow> g1 a | Inr b \<Rightarrow> g2 b)"
  "(\<And>a. v = Some a \<Longrightarrow> keeps P st (g a)) \<Longrightarrow> keeps P st (deref v g)"
  by (auto split: option.splits sum.splits simp: deref_def keeps_def)

lemma keeps_unpair [keeps_rules]:
  "keeps P st (g a b) \<Longrightarrow> keeps P st (case (a, b) of (x, y) \<Rightarrow> g x y)"
  by simp

lemma keeps_state_of: "keeps P snd r \<Longrightarrow> keeps P (\<lambda>k. k) (state_of r)"
  by (auto simp: keeps_def state_of_def andthen_eq_Inr)

end
