(* ===== verification/Settled_Tasks.thy ===== *)
theory Settled_Tasks
  imports Kept_Facts Kernel_Run
begin

text \<open>
  Facts about tasks that no call disturbs. The locale \<open>settled\<close> lists what such a fact must
  stand: any change of other fields, waking, creating another task, and blocking or suspending
  one of the tasks \<open>may\<close>. What follows from these laws, by the control flow of every operation, is
  that every call keeps the fact (\<open>exec_settled\<close>). Only the context switch changes the current
  task, which is the first argument of the fact, and is left to the instances.
\<close>

subsection \<open>Calls that may block\<close>

fun blocking :: "call \<Rightarrow> bool" where
  "blocking (Delay_Ms n) = True"
| "blocking (Delay_Until n) = True"
| "blocking (Take s n) = True"
| "blocking (Lock m) = True"
| "blocking (Send q a n) = True"
| "blocking (Receive q a n) = True"
| "blocking (Wait_Bits e m al clr n ret) = True"
| "blocking c = False"

text \<open>The tasks that a call may take off the processor or off the ready lists for good.\<close>

definition stops :: "call \<Rightarrow> kernel \<Rightarrow> tid \<Rightarrow> bool" where
  "stops c k t \<longleftrightarrow> c = Suspend t \<or> c = Delete t \<or> blocking c \<and> current_task k = Some t"

fun is_switch :: "call \<Rightarrow> bool" where
  "is_switch (Switch c) = True"
| "is_switch c = False"

fun is_start :: "call \<Rightarrow> bool" where
  "is_start (Start site buf construct tramp) = True"
| "is_start c = False"

subsection \<open>The laws\<close>

lemma ntasks_room:
  "ntasks k < kMaxTasks \<Longrightarrow> ntasks (k\<lparr>task_count := task_count k + 1\<rparr>) = Suc (ntasks k)"
  using ntasks_Suc [of k] by (simp add: ntasks_def)

locale settled =
  fixes P :: "tptr \<Rightarrow> kernel \<Rightarrow> bool" and may :: "tid \<Rightarrow> bool" and n0 :: nat
  assumes frame: "\<lbrakk>P c k; ntasks k' = ntasks k; started k' = started k; current_task k' = current_task k;
      \<And>t. sp (tcbs k' t) = sp (tcbs k t);
      \<And>t. state (tcbs k' t) = state (tcbs k t) \<or> state (tcbs k' t) = Ready \<or> state (tcbs k' t) = Running \<or> may t\<rbrakk>
      \<Longrightarrow> P c k'"
    and current: "P c k \<Longrightarrow> current_task k = c"
    and room: "P c k \<Longrightarrow> n0 \<le> ntasks k"
    and other: "P c k \<Longrightarrow> n0 \<le> t \<Longrightarrow> P c (upd_tcb t f k)"
    and allocate: "P c k \<Longrightarrow> ntasks k < kMaxTasks \<Longrightarrow> P c (k\<lparr>task_count := task_count k + 1\<rparr>)"
begin

lemma same:
  assumes "ntasks k' = ntasks k" and "started k' = started k" and "current_task k' = current_task k"
    and "\<And>t. sp (tcbs k' t) = sp (tcbs k t)" and "\<And>t. state (tcbs k' t) = state (tcbs k t)"
  shows "P c k' = P c k"
  using frame [of c k k'] frame [of c k' k] assms by auto

lemma same_fields [simp]:
  "P c (k\<lparr>primask := b\<rparr>) = P c k" "P c (k\<lparr>pendsv := b\<rparr>) = P c k"
  "P c (k\<lparr>tick_count := tc\<rparr>) = P c k"
  "P c (task_yield k) = P c k" "P c (yield_if b k) = P c k"
  "P c (k\<lparr>mem := m\<rparr>) = P c k" "P c (k\<lparr>ready_bitmask := w\<rparr>) = P c k"
  "P c (k\<lparr>delay_head := dh\<rparr>) = P c k" "P c (set_sem_count s n k) = P c k"
  "P c (set_event_bits e w k) = P c k" "P c (upd_mutex mx g k) = P c k"
  "P c (upd_queue q f k) = P c k" "P c (k\<lparr>current_sp := a\<rparr>) = P c k" "P c (k\<lparr>psp := a\<rparr>) = P c k"
  "P c (upd_list l h k) = P c k" "P c (k\<lparr>site_created := sc\<rparr>) = P c k"
  by (rule same; simp add: ntasks_def task_yield_def yield_if_def set_sem_count_def set_event_bits_def
      upd_mutex_def upd_queue_def upd_list_def)+

lemma same_upd [simp]:
  assumes "\<And>b. state (f b) = state b" and "\<And>b. sp (f b) = sp b"
  shows "P c (upd_tcb t f k) = P c k"
  by (rule same) (use assms in \<open>auto simp: ntasks_def upd_tcb_def\<close>)

lemma moved: "P c k \<Longrightarrow> may t \<or> s = Ready \<or> s = Running \<Longrightarrow> P c (set_state t s k)"
  by (erule frame) (auto simp: ntasks_def upd_tcb_def)

lemma same_plain: "plain k' = plain k \<Longrightarrow> P c k' = P c k"
  by (rule same) (simp_all add: ntasks_def plainD [of k' k])

lemma stays_critical:
  "\<lbrakk>P c k; P c (k\<lparr>primask := True\<rparr>) \<Longrightarrow> keeps (P c) snd (body (k\<lparr>primask := True\<rparr>))\<rbrakk> \<Longrightarrow>
     keeps (P c) snd (critical body k)"
  "\<lbrakk>P c k; P c (k\<lparr>primask := True\<rparr>) \<Longrightarrow> keeps (P c) (\<lambda>k. k) (body' (k\<lparr>primask := True\<rparr>))\<rbrakk> \<Longrightarrow>
     keeps (P c) (\<lambda>k. k) (critical_u body' k)"
  by (auto simp: keeps_def critical_def critical_u_def enter_critical_def exit_critical_def andthen_eq_Inr)

lemmas stays_rules = stays_critical keeps_rules

subsection \<open>Lists and ready manager\<close>

lemma stays_lists:
  "P c k \<Longrightarrow> keeps (P c) (\<lambda>k. k) (push_back l t k)"
  "P c k \<Longrightarrow> keeps (P c) snd (pop_front l k)"
  "P c k \<Longrightarrow> keeps (P c) (\<lambda>k. k) (list_remove l t k)"
  unfolding push_back_def pop_front_def list_remove_def Let_def
  by (intro stays_rules; simp split: option.split)+

lemma stays_insert:
  "P c k \<Longrightarrow> keeps (P c) (\<lambda>k. k) (insert_by_priority l t k)"
  "P c k \<Longrightarrow> keeps (P c) (\<lambda>k. k) (delay_insert t n k)"
  unfolding insert_by_priority_def delay_insert_def Let_def case_prod_unfold
  by (intro stays_lists stays_rules; simp split: option.split)+

lemma same_delay_remove [simp]: "P c (delay_remove t k) = P c k"
  by (simp add: delay_remove_def Let_def split: option.split)

lemma stays_rm:
  "P c k \<Longrightarrow> keeps (P c) (\<lambda>k. k) (rm_add t k)"
  "P c k \<Longrightarrow> keeps (P c) (\<lambda>k. k) (rm_remove t k)"
  "P c k \<Longrightarrow> keeps (P c) snd (get_highest_priority_task k)"
  "P c k \<Longrightarrow> keeps (P c) (\<lambda>k. k) (cancel_timeout t k)"
  unfolding rm_add_def rm_remove_def get_highest_priority_task_def cancel_timeout_def ready_at_def Let_def
  by (intro stays_lists stays_rules; simp)+

subsection \<open>Scheduling\<close>

lemma stays_ready:
  "P c k \<Longrightarrow> keeps (P c) snd (make_task_ready t k)"
  "P c k \<Longrightarrow> keeps (P c) (\<lambda>k. k) (resume_task t k)"
  "P c k \<Longrightarrow> keeps (P c) (\<lambda>k. k) (set_task_priority t p k)"
  unfolding make_task_ready_def resume_task_def set_task_priority_def Let_def
  by (intro stays_rm stays_insert stays_lists stays_rules; simp add: moved)+

lemma stays_unlink: "P c k \<Longrightarrow> keeps (P c) (\<lambda>k. k) (unlink_blocked t k)"
  unfolding unlink_blocked_def Let_def
  by (intro stays_lists stays_rules; simp)+

lemma stays_suspend:
  "P c k \<Longrightarrow> may t \<Longrightarrow> keeps (P c) (\<lambda>k. k) (suspend_task (Some t) k)"
  "P c k \<Longrightarrow> may t \<Longrightarrow> keeps (P c) (\<lambda>k. k) (delete_task (Some t) k)"
  unfolding suspend_task_def delete_task_def Let_def
  by (intro stays_rm stays_unlink stays_rules; simp add: moved)+

lemma stays_timeout: "P c k \<Longrightarrow> keeps (P c) (\<lambda>k. k) (start_timeout n k)"
  unfolding start_timeout_def start_timeout_for_current_task_def
  by (intro stays_insert stays_rules; simp)

lemma stays_sleep:
  "P c k \<Longrightarrow> current_task k = c \<Longrightarrow> (\<And>s. c = Some s \<Longrightarrow> may s) \<Longrightarrow> keeps (P c) (\<lambda>k. k) (delay_ms n k)"
  "P c k \<Longrightarrow> current_task k = c \<Longrightarrow> (\<And>s. c = Some s \<Longrightarrow> may s) \<Longrightarrow> keeps (P c) (\<lambda>k. k) (delay_until n k)"
  unfolding delay_ms_def delay_until_def get_tick_count_def Let_def
  by (intro stays_insert stays_rules; auto intro!: moved)+

lemma stays_allocate:
  assumes "P c k" and "allocate_tcb k = Inr (v, k')"
  shows "P c k' \<and> (\<forall>t. v = Some t \<longrightarrow> n0 \<le> t)"
proof (cases "ntasks k < kMaxTasks")
  case True
  let ?t = "ntasks k"
  let ?k = "set_next ?t None (set_prev ?t None (upd_tcb ?t (\<lambda>b. b\<lparr>wait_list := None\<rparr>) (set_state ?t Suspended k)))"
  have "P c ?k" using assms(1) room [OF assms(1)] by (simp add: other)
  then have "P c (?k\<lparr>task_count := task_count ?k + 1\<rparr>)"
    by (rule allocate) (use True in \<open>simp add: ntasks_def\<close>)
  moreover have "k' = ?k\<lparr>task_count := task_count ?k + 1\<rparr>" "v = Some ?t"
    using assms(2) True
    by (auto simp: allocate_tcb_def critical_def enter_critical_def exit_critical_def ntasks_def Let_def)
  ultimately show ?thesis using room [OF assms(1)] by simp
next
  case False
  then show ?thesis using assms
    by (auto simp: allocate_tcb_def critical_def enter_critical_def exit_critical_def ntasks_def)
qed

lemma stays_create:
  assumes "P c k"
  shows "keeps (P c) snd (create_task site buf words n construct tramp p k)"
proof -
  have add: "keeps (P c) (\<lambda>k. k) (add_to_ready_queue t k)" if "P c k" for t k
    using that unfolding add_to_ready_queue_def
    by (intro stays_rm stays_rules; simp add: moved)
  have impl: "keeps (P c) snd (create_task_impl buf words tramp slot p k)" if "P c k" for slot k
  proof (cases "allocate_tcb k")
    case (Inl e)
    then show ?thesis using that by (simp add: create_task_impl_def keeps_def acr_assert_def)
  next
    case (Inr r)
    obtain v k' where r: "r = (v, k')" by (cases r)
    note st = stays_allocate [OF that Inr [unfolded r]]
    show ?thesis using that st unfolding create_task_impl_def Inr r Let_def case_prod_unfold andthen.simps
      by (intro add stays_rules) (simp_all add: other)
  qed
  then show ?thesis using assms unfolding create_task_def Let_def by (intro stays_rules) simp_all
qed

subsection \<open>Synchronisation objects\<close>

lemma stays_park: "P c k \<Longrightarrow> (\<And>s. t = Some s \<Longrightarrow> may s) \<Longrightarrow> keeps (P c) (\<lambda>k. k) (park l t k)"
  unfolding park_def Let_def
  by (intro stays_insert stays_rules; simp add: moved)

lemma stays_wake: "P c k \<Longrightarrow> keeps (P c) snd (wake_highest l k)"
  unfolding wake_highest_def Let_def
  by (intro stays_lists stays_rm stays_rules; simp)

lemma stays_take:
  "P c k \<Longrightarrow> keeps (P c) snd (try_take s k)" "P c k \<Longrightarrow> keeps (P c) snd (give_locked s k)"
  "P c k \<Longrightarrow> current_task k = c \<Longrightarrow> (\<And>s. c = Some s \<Longrightarrow> may s) \<Longrightarrow> keeps (P c) snd (take_sem s n k)"
  "P c k \<Longrightarrow> keeps (P c) (\<lambda>k. k) (give s k)"
  unfolding take_sem_def try_take_def give_def give_locked_def Let_def
  by (intro stays_park stays_timeout stays_wake stays_ready stays_rules; simp)+

lemma same_held [simp]:
  "P c (add_held m t k) = P c k" "P c (write_held pp v k) = P c k"
  by (simp_all add: add_held_def Let_def) (cases pp; simp)

lemma stays_remove_held: "P c k \<Longrightarrow> keeps (P c) (\<lambda>k. k) (remove_held m t k)"
  unfolding remove_held_def Let_def
  by (intro stays_rules; simp)

lemma stays_mutex:
  "P c k \<Longrightarrow> current_task k = c \<Longrightarrow> (\<And>s. c = Some s \<Longrightarrow> may s) \<Longrightarrow> keeps (P c) snd (lock m k)"
  "P c k \<Longrightarrow> keeps (P c) snd (unlock m k)"
  unfolding lock_def unlock_def recompute_priority_def Let_def
  by (intro stays_park stays_wake stays_ready stays_remove_held stays_rules; auto)+

lemma same_raw [simp]:
  "P c (push_raw q a k) = P c k" "P c (pop_raw q a k) = P c k"
  by (simp_all add: push_raw_def pop_raw_def Let_def)

lemma stays_queue_steps:
  "P c k \<Longrightarrow> keeps (P c) snd (try_send_locked q a b k)"
  "P c k \<Longrightarrow> keeps (P c) snd (try_receive_locked q a b k)"
  unfolding try_send_locked_def try_receive_locked_def Let_def
  by (intro stays_wake stays_ready stays_rules; simp)+

lemma stays_block: "P c k \<Longrightarrow> (\<And>s. c = Some s \<Longrightarrow> may s) \<Longrightarrow> keeps (P c) snd (block_current_locked l x n k)"
  using current [of c k] unfolding block_current_locked_def Let_def
  by (intro stays_park stays_timeout stays_rules; auto)

lemma stays_queue:
  "P c k \<Longrightarrow> (\<And>s. c = Some s \<Longrightarrow> may s) \<Longrightarrow> keeps (P c) snd (queue_send q a n k)"
  "P c k \<Longrightarrow> (\<And>s. c = Some s \<Longrightarrow> may s) \<Longrightarrow> keeps (P c) snd (queue_receive q a n k)"
  "P c k \<Longrightarrow> keeps (P c) snd (queue_send_from_isr q a k)"
  "P c k \<Longrightarrow> keeps (P c) snd (queue_receive_from_isr q a k)"
  unfolding queue_send_def queue_receive_def queue_send_from_isr_def queue_receive_from_isr_def
    finish_call_def case_prod_unfold
  by (intro stays_queue_steps stays_block stays_rules; simp split: option.split)+

lemma stays_event:
  "P c k \<Longrightarrow> current_task k = c \<Longrightarrow> (\<And>s. c = Some s \<Longrightarrow> may s) \<Longrightarrow> keeps (P c) snd (wait_bits e m al clr n ret k)"
  "P c k \<Longrightarrow> keeps (P c) snd (clear_bits e m k)"
  unfolding wait_bits_def get_bits_def clear_bits_def Let_def
  by (intro stays_insert stays_timeout stays_rules; auto intro!: moved)+

subsection \<open>Every call\<close>

lemma settled_woken: "P c k \<Longrightarrow> P c (woken_set S k)"
  by (erule frame) (auto simp: woken_set_def woken_def ntasks_def)

lemma settled_scan: "P c k \<Longrightarrow> P c (scan_store e ws k)"
proof (induction ws arbitrary: k)
  case (Cons w ws)
  obtain t b where w: "w = (t, b)" by (cases w)
  have "P c (event_store e b t k)"
    by (rule frame [OF Cons.prems]) (auto simp: event_store_def upd_tcb_def ntasks_def)
  then show ?case using Cons.IH by (simp add: w scan_store_def)
qed (simp add: scan_store_def)

lemma exec_settled:
  assumes inv: "kinv k L W" and P: "P (current_task k) k" and stops: "\<And>t. stops c k t \<Longrightarrow> may t"
    and c: "\<not> is_switch c" "\<not> is_start c" and run: "exec c k = Inr k'"
  shows "P (current_task k) k'"
proof -
  let ?c = "current_task k"
  have other: ?thesis if "keeps (P ?c) (\<lambda>k. k) (exec c k)" using keepsD [OF that run] .
  have may: "may t" if "blocking c" "?c = Some t" for t using stops that by (simp add: stops_def)
  note stays = keeps_state_of stays_suspend stays_sleep stays_create stays_take stays_mutex stays_queue
    stays_event stays_ready
  show ?thesis
  proof (cases c)
    case Tick
    obtain b S where k': "plain k' = plain (yield_if b (woken_set S (k\<lparr>tick_count := tick_count k + 1\<rparr>)))"
      using sched_tick_ok [OF inv refl refl] run Tick
      by (auto simp: SysTick_Handler_def rtos_tick_handler_def acrtos_tick_hook_def)
    show ?thesis using P by (simp add: same_plain [OF k'] settled_woken)
  next
    case (Set_Bits e m)
    obtain w k1 b ws v where k1: "set_bits e m k = Inr (w, k1)"
      "plain k1 = plain (yield_if b (scan_store e ws (set_event_bits e v k)))"
      using set_bits_ok [OF inv refl refl] by blast
    have "P ?c k1" using P by (simp add: same_plain [OF k1(2)] settled_scan)
    then show ?thesis using k1(1) run Set_Bits by simp
  next
    case (Set_Bits_From_Isr e m)
    obtain w k1 ws v where k1: "set_bits_locked e m k = Inr (w, k1)"
      "plain k1 = plain (scan_store e ws (set_event_bits e v k))"
      using set_bits_locked_ok [OF inv refl refl] by blast
    have "P ?c k1" using P by (simp add: same_plain [OF k1(2)] settled_scan)
    then show ?thesis using k1(1) run Set_Bits_From_Isr by (simp add: set_bits_from_isr_def)
  next
    case (App m a)
    then show ?thesis using run P by auto
  qed (rule other, use stops may P c in \<open>simp add: stops_def stays keeps_basic(2) task_suspend_def
      task_resume_def task_terminate_def give_from_isr_def typed_send_def typed_receive_def
      typed_send_from_isr_def typed_receive_from_isr_def\<close>)+
qed

end

subsection \<open>Runs\<close>

text \<open>
  A run in which the current task always satisfies \<open>ok\<close> and only the tasks \<open>may\<close> are blocked,
  suspended or deleted.
\<close>

inductive tame_run :: "(tptr \<Rightarrow> bool) \<Rightarrow> (tid \<Rightarrow> bool) \<Rightarrow> kernel \<Rightarrow> kernel \<Rightarrow> bool" for ok may k0 where
  tame_refl: "ok (current_task k0) \<Longrightarrow> tame_run ok may k0 k0"
| tame_step: "tame_run ok may k0 k \<Longrightarrow> (\<And>t. stops c k t \<Longrightarrow> may t) \<Longrightarrow> kstep k c k' \<Longrightarrow>
    ok (current_task k') \<Longrightarrow> tame_run ok may k0 k'"

lemma tame_now: "tame_run ok may k0 k \<Longrightarrow> ok (current_task k)"
  by (induction rule: tame_run.induct) simp_all

text \<open>The context switch stores the stack pointer of the task it leaves and no other.\<close>

lemma switch_effect:
  assumes "kinv k L W" and "may_switch c k" and "exec (Switch c) k = Inr k'"
  shows "ntasks k' = ntasks k" and "started k' = started k"
    and "current_task k \<noteq> Some t \<Longrightarrow> sp (tcbs k' t) = sp (tcbs k t)"
    and "state (tcbs k' t) = state (tcbs k t) \<or> state (tcbs k' t) = Ready \<or> state (tcbs k' t) = Running"
proof -
  obtain k1 n where "PendSV_Handler c (at_entry k) = Inr (fst (restore_context c k1), (snd (restore_context c k1))\<lparr>primask := False\<rparr>)"
    and k1: "plain k1 = plain (switch_to n (enter_switch c (at_entry k)))"
    using PendSV_ok [of "at_entry k" L W c] assms(1,2) by auto
  then have k': "k' = (snd (restore_context c k1))\<lparr>primask := False\<rparr>" using assms(3) by simp
  note f = k' restore_context_def ntasks_def plainD [OF k1] switch_to_def save_current_def Let_def
  have "started (enter_switch c (at_entry k)) = started k"
    by (simp add: enter_switch_def save_context_pushes Let_def)
  then show "ntasks k' = ntasks k" "started k' = started k"
    by (simp_all add: f split: option.split)
  show "sp (tcbs k' t) = sp (tcbs k t)" if "current_task k \<noteq> Some t"
    using that by (simp add: f split: option.split)
  show "state (tcbs k' t) = state (tcbs k t) \<or> state (tcbs k' t) = Ready \<or> state (tcbs k' t) = Running"
    by (simp add: f split: option.split)
qed

locale lasting = settled P may n0
  for P :: "tptr \<Rightarrow> kernel \<Rightarrow> bool" and may :: "tid \<Rightarrow> bool" and n0 :: nat +
  fixes ok :: "tptr \<Rightarrow> bool"
  assumes begun: "P c k \<Longrightarrow> started k"
    and switched: "\<lbrakk>P c k; ok c; ntasks k' = ntasks k; started k' = started k; current_task k' = c';
      \<And>t. c \<noteq> Some t \<Longrightarrow> sp (tcbs k' t) = sp (tcbs k t);
      \<And>t. state (tcbs k' t) = state (tcbs k t) \<or> state (tcbs k' t) = Ready \<or> state (tcbs k' t) = Running\<rbrakk>
      \<Longrightarrow> P c' k'"
begin

lemma switch_lasting:
  assumes "kinv k L W" and "may_switch c k" and "P (current_task k) k" and "ok (current_task k)"
    and "exec (Switch c) k = Inr k'"
  shows "P (current_task k') k'"
  by (rule switched [OF assms(3,4)]) (use switch_effect [OF assms(1,2,5)] in simp_all)

lemma run_lasting:
  assumes "tame_run ok may k0 k" and "sys_ok k0" and "P (current_task k0) k0"
  shows "sys_ok k \<and> P (current_task k) k"
  using assms
proof (induction rule: tame_run.induct)
  case (tame_step k c k')
  then have sys: "sys_ok k" and P: "P (current_task k) k" by simp_all
  then obtain L W where inv: "kinv k L W" by (auto simp: sys_ok_def)
  have c: "allowed c k" "exec c k = Inr k'" using tame_step.hyps(3) by (auto simp: kstep_iff)
  have "P (current_task k') k'"
  proof (cases "is_switch c")
    case True
    then obtain d where "c = Switch d" by (cases c) simp_all
    then show ?thesis using switch_lasting [OF inv _ P tame_now [OF tame_step.hyps(1)], of d k'] c by auto
  next
    case False
    have "\<not> is_start c" using c(1) begun [OF P] by (cases c) auto
    then have "P (current_task k) k'"
      using exec_settled [OF inv P tame_step.hyps(2) False _ c(2)] by blast
    then show ?thesis using current by metis
  qed
  then show ?case using kstep_sys_ok [OF tame_step.hyps(3) sys] by simp
qed simp

end

end
