(* ===== verification/Lasting_Facts.thy ===== *)
theory Lasting_Facts
  imports Settled_Tasks
begin

text \<open>
  Facts that last. A scheduler that was started stays started. A task that nobody suspends or deletes and that makes no blocking call
  itself, as the idle task, stays Ready or Running for ever, so that a context switch always
  finds a task to run. And a task that is off the processor keeps the stack pointer under which
  its context was saved, in every run in which it is not chosen.
\<close>

interpretation running: lasting "\<lambda>c k. started k \<and> current_task k = c" "\<lambda>_. True" 0 "\<lambda>_. True"
  by unfold_locales auto

lemma kstep_started: "kstep k c k' \<Longrightarrow> sys_ok k \<Longrightarrow> started k \<Longrightarrow> started k'"
  using running.run_lasting [OF tame_step [OF tame_refl]] by blast

definition runnable :: "tid \<Rightarrow> tptr \<Rightarrow> kernel \<Rightarrow> bool" where
  "runnable i c k \<longleftrightarrow> i < ntasks k \<and> started k \<and> current_task k = c \<and>
     (state (tcbs k i) = Ready \<or> state (tcbs k i) = Running)"

interpretation idle: lasting "runnable i" "\<lambda>t. t \<noteq> i" "Suc i" "\<lambda>_. True" for i
proof
  show "runnable i c (upd_tcb t f k)" if "runnable i c k" "Suc i \<le> t" for c k t f
    using that by (simp add: runnable_def ntasks_def)
  show "runnable i c (k\<lparr>task_count := task_count k + 1\<rparr>)" if "runnable i c k" "ntasks k < kMaxTasks" for c k
    using that ntasks_room [OF that(2)] by (simp add: runnable_def)
qed (force simp: runnable_def)+

abbreviation spared_run :: "tid \<Rightarrow> kernel \<Rightarrow> kernel \<Rightarrow> bool" where
  "spared_run i \<equiv> tame_run (\<lambda>_. True) (\<lambda>t. t \<noteq> i)"

definition saved :: "tid \<Rightarrow> addr \<Rightarrow> tptr \<Rightarrow> kernel \<Rightarrow> bool" where
  "saved t a c k \<longleftrightarrow> t < ntasks k \<and> started k \<and> current_task k = c \<and> sp (tcbs k t) = a"

interpretation away: lasting "saved t a" "\<lambda>_. True" "Suc t" "\<lambda>c. c \<noteq> Some t" for t a
proof
  show "saved t a c (upd_tcb s f k)" if "saved t a c k" "Suc t \<le> s" for c k s f
    using that by (simp add: saved_def ntasks_def)
  show "saved t a c (k\<lparr>task_count := task_count k + 1\<rparr>)" if "saved t a c k" "ntasks k < kMaxTasks" for c k
    using that ntasks_room [OF that(2)] by (simp add: saved_def)
qed (auto simp: saved_def)

abbreviation away_run :: "tid \<Rightarrow> kernel \<Rightarrow> kernel \<Rightarrow> bool" where
  "away_run t \<equiv> tame_run (\<lambda>c. c \<noteq> Some t) (\<lambda>_. True)"

end
