(* ===== verification/Call_Effects.thy ===== *)
theory Call_Effects
  imports Lasting_Facts
begin

text \<open>
  What a call does to the states of the tasks, in one relation. \<open>moves\<close> says that the states change
  along the edges of the documented state diagram, and that a task which becomes ready and is more
  urgent than the running one leaves a switch pending, or, in an interrupt handler, is reported to
  the handler, and that a task on a wait list is not marked expired. \<open>exec_moves\<close> shows it of every call but the switch, the start and \<open>create_task\<close>.
\<close>

subsection \<open>The state diagram\<close>

fun wakes :: "call \<Rightarrow> bool" where
  "wakes Tick = True"
| "wakes (Give s) = True"
| "wakes (Give_From_Isr s) = True"
| "wakes (Unlock m) = True"
| "wakes (Send q item n) = True"
| "wakes (Send_From_Isr q item) = True"
| "wakes (Receive q out n) = True"
| "wakes (Receive_From_Isr q out) = True"
| "wakes (Set_Bits e m) = True"
| "wakes (Set_Bits_From_Isr e m) = True"
| "wakes c = False"

definition edge :: "call \<Rightarrow> tid \<Rightarrow> task_state \<Rightarrow> task_state \<Rightarrow> bool" where
  "edge c t s s' \<longleftrightarrow> s' = s \<or>
     s = Ready \<and> s' = Running \<and> is_switch c \<or>
     s = Running \<and> s' = Ready \<and> is_switch c \<or>
     s = Running \<and> s' = Blocked \<and> blocking c \<or>
     s = Blocked \<and> s' = Ready \<and> wakes c \<or>
     s = Suspended \<and> s' = Ready \<and> c = Resume t \<or>
     s \<noteq> Deleted \<and> s' = Suspended \<and> c = Suspend t \<or>
     s' = Deleted \<and> c = Delete t"

lemma edge_same [simp]: "edge c t s s"
  by (simp add: edge_def)

text \<open>Whether a call from an interrupt handler reports that the handler must ask for a switch.\<close>

fun asks :: "call \<Rightarrow> kernel \<Rightarrow> bool" where
  "asks (Give_From_Isr s) k \<longleftrightarrow> (\<exists>k'. give_from_isr s k = Inr (True, k'))"
| "asks (Send_From_Isr q item) k \<longleftrightarrow> (\<exists>r k'. typed_send_from_isr q item k = Inr ((r, True), k'))"
| "asks (Receive_From_Isr q out) k \<longleftrightarrow> (\<exists>r k'. typed_receive_from_isr q out k = Inr ((r, True), k'))"
| "asks (Set_Bits_From_Isr e m) k \<longleftrightarrow> (\<exists>v k'. set_bits_from_isr e m k = Inr ((True, v), k'))"
| "asks c k \<longleftrightarrow> False"

definition no_rival :: "kernel \<Rightarrow> kernel \<Rightarrow> bool" where
  "no_rival k k' \<longleftrightarrow> (\<forall>t. priority (tcbs k' t) = priority (tcbs k t) \<and>
     (state (tcbs k' t) = Ready \<longrightarrow> state (tcbs k t) = Ready \<or> \<not> outranks_current t k))"

text \<open>No task that waits is marked expired.\<close>

definition live_wait :: "tcb \<Rightarrow> bool" where
  "live_wait b \<longleftrightarrow> wait_list b = None \<or> \<not> timeout_expired b"

definition keeps_waits :: "kernel \<Rightarrow> kernel \<Rightarrow> bool" where
  "keeps_waits k k' \<longleftrightarrow> (\<forall>t. live_wait (tcbs k t) \<longrightarrow> live_wait (tcbs k' t))"

lemma keeps_waits_plain: "plain k' = plain F \<Longrightarrow> keeps_waits k k' = keeps_waits k F"
  unfolding keeps_waits_def live_wait_def plainD [of k' F] ..

lemma keeps_waits_upd:
  "\<forall>b. live_wait b \<longrightarrow> live_wait (f b) \<Longrightarrow> keeps_waits k F \<Longrightarrow> keeps_waits k (upd_tcb t f F)"
  by (simp add: keeps_waits_def)

lemma keeps_waits_simps [simp]:
  "keeps_waits k k" "keeps_waits k (task_yield F) = keeps_waits k F" "keeps_waits k (yield_if e F) = keeps_waits k F"
  "keeps_waits k (holding h ms F) = keeps_waits k F" "keeps_waits k (set_event_bits ev w F) = keeps_waits k F"
  "keeps_waits k (F\<lparr>mem := m\<rparr>) = keeps_waits k F" "keeps_waits k (F\<lparr>mem := m, psp := p\<rparr>) = keeps_waits k F"
  "keeps_waits k (F\<lparr>mem := m, event_bits := eb\<rparr>) = keeps_waits k F"
  "keeps_waits k (set_sem_count sm n F) = keeps_waits k F" "keeps_waits k (set_ring q r F) = keeps_waits k F"
  by (simp_all add: keeps_waits_def live_wait_def holding_def set_event_bits_def set_sem_count_def set_ring_def
      yield_if_def task_yield_def)

lemmas waits_upd = keeps_waits_upd live_wait_def

definition moves :: "call \<Rightarrow> bool \<Rightarrow> kernel \<Rightarrow> kernel \<Rightarrow> bool" where
  "moves c a k k' \<longleftrightarrow> current_task k' = current_task k \<and> ntasks k' = ntasks k \<and>
     (pendsv k \<longrightarrow> pendsv k') \<and> (\<forall>t. edge c t (state (tcbs k t)) (state (tcbs k' t))) \<and>
     keeps_waits k k' \<and> (a \<or> pendsv k' \<or> no_rival k k')"

lemma moves_plain: "plain k' = plain F \<Longrightarrow> moves c a k k' = moves c a k F"
  unfolding moves_def no_rival_def keeps_waits_plain [of k' F] ntasks_def plainD [of k' F] ..

lemma moves_quiet:
  assumes "current_task k' = current_task k" and "ntasks k' = ntasks k" and "pendsv k \<Longrightarrow> pendsv k'"
    and "\<And>t. state (tcbs k' t) = state (tcbs k t)" and "\<And>t. priority (tcbs k' t) = priority (tcbs k t)"
    and "keeps_waits k k'"
  shows "moves c a k k'"
  using assms by (simp add: moves_def no_rival_def)

lemma moves_fields [simp]:
  "moves c a k k" "moves c a k (k\<lparr>mem := m\<rparr>)" "moves c a k (k\<lparr>mem := m, psp := p\<rparr>)"
  "moves c a k (set_sem_count s n k)" "moves c a k (set_ring q r k)" "moves c a k (set_event_bits e w k)"
  "moves c a k (holding h ms k)" "moves c a k (k\<lparr>mem := m, event_bits := eb\<rparr>)" "moves c a k (task_yield k)"
  by (rule moves_quiet; simp add: keeps_waits_def live_wait_def ntasks_def set_sem_count_def set_ring_def set_event_bits_def holding_def
      task_yield_def)+

lemma moves_yield_if: "moves c b k k' \<Longrightarrow> moves c a k (yield_if b k')"
  by (cases b) (auto simp: moves_def no_rival_def yield_if_def task_yield_def ntasks_def keeps_waits_def)

text \<open>One task moves, and a switch is asked for if it must be.\<close>

lemma moves_one:
  assumes "plain k' = plain (yield_if b F)"
    and "current_task F = current_task k" and "ntasks F = ntasks k" and "pendsv F = pendsv k"
    and "\<And>s. s \<noteq> t \<Longrightarrow> state (tcbs F s) = state (tcbs k s)"
    and "edge c t (state (tcbs k t)) (state (tcbs F t))"
    and "\<not> b \<Longrightarrow> state (tcbs F t) = Ready \<Longrightarrow> \<not> outranks_current t k"
    and "\<And>s. \<not> b \<Longrightarrow> priority (tcbs F s) = priority (tcbs k s)"
    and "keeps_waits k F"
  shows "moves c a k k'"
proof -
  have "edge c s (state (tcbs k s)) (state (tcbs F s))" for s
    using assms(5) [of s] assms(6) by (cases "s = t") simp_all
  moreover have "no_rival k F" if "\<not> b"
    unfolding no_rival_def using assms(5,7,8) that by metis
  ultimately have "moves c a k (yield_if b F)"
    using assms(2-4,9) by (auto simp: moves_def no_rival_def ntasks_def yield_if_def task_yield_def keeps_waits_def)
  then show ?thesis by (simp add: moves_plain [OF assms(1)])
qed

lemma moves_blocked:
  assumes "plain k' = plain (task_yield F)" and "current_task F = current_task k" and "ntasks F = ntasks k"
    and "\<And>s. s \<noteq> t \<Longrightarrow> state (tcbs F s) = state (tcbs k s)"
    and "state (tcbs k t) = Running" and "state (tcbs F t) = Blocked" and "blocking c"
    and "keeps_waits k F"
  shows "moves c a k k'"
proof -
  have "edge c s (state (tcbs k s)) (state (tcbs F s))" for s
    using assms(4) [of s] assms(5-7) by (cases "s = t") (simp_all add: edge_def)
  then have "moves c a k (task_yield F)" using assms(2,3,8) by (simp add: moves_def) (simp add: ntasks_def task_yield_def)
  then show ?thesis by (simp only: moves_plain [OF assms(1)])
qed

text \<open>A waiter that is woken was Blocked.\<close>

lemma waiter_blocked:
  assumes "kinv k L W" and "t \<in> set (L l)" and "\<not> is_ready_list l"
  shows "state (tcbs k t) = Blocked"
  using task_ok_blocked [OF kinv_task [OF assms(1) kinv_member [OF assms(1,2)]]]
    task_ok_wait [OF kinv_task [OF assms(1) kinv_member [OF assms(1,2)]] assms(3)] assms(2) by simp

subsection \<open>Tasks and time\<close>

lemma moves_tick:
  assumes inv: "kinv k L W" and run: "exec Tick k = Inr k'"
  shows "moves Tick a k k'"
proof -
  let ?T = "expired (one_tick W)"
  let ?L = "fold (waken k) ?T L"
  obtain k1 where k1: "sched_tick k = Inr k1"
    "plain k1 = plain (yield_if (preempt_due k ?L) (woken_set (set ?T) (k\<lparr>tick_count := tick_count k + 1\<rparr>)))"
    "kinv k1 ?L (pending (one_tick W))"
    using sched_tick_ok [OF inv refl refl] by blast
  have k': "k1 = k'" using run k1(1) by (simp add: SysTick_Handler_def rtos_tick_handler_def acrtos_tick_hook_def)
  note f = plainD [OF k1(2)]
  have fields: "current_task k1 = current_task k" "ntasks k1 = ntasks k" "pendsv k \<Longrightarrow> pendsv k1"
    "priority (tcbs k1 t) = priority (tcbs k t)"
    "state (tcbs k1 t) = (if t \<in> set ?T then Ready else state (tcbs k t))" for t
    by (simp_all add: f ntasks_def woken_set_def woken_def yield_if_def task_yield_def)
  have lw: "keeps_waits k k1" by (auto simp: keeps_waits_def live_wait_def f woken_set_def woken_def)
  have bl: "state (tcbs k t) = Blocked" "t < ntasks k" if t: "t \<in> set ?T" for t
  proof -
    obtain n where "(t, n) \<in> set W" using t by (auto simp: expired_def one_tick_def)
    then show "state (tcbs k t) = Blocked" "t < ntasks k"
      using task_ok_blocked [OF kinv_task [OF inv kinv_sleeper [OF inv]]] kinv_sleeper [OF inv] by force+
  qed
  have "\<not> outranks_current t k" if "\<not> pendsv k1" "t \<in> set ?T" for t
  proof -
    have "state (tcbs k1 t) = Ready" "t < ntasks k1" using fields(2,5) bl that(2) by simp_all
    then have "?L (Ready_List (priority (tcbs k t))) \<noteq> []"
      using task_ok_ready [OF kinv_task [OF k1(3)]] fields(4) by (metis empty_iff list.set(1))
    moreover have "\<not> preempt_due k ?L" using that(1) by (auto simp: f)
    ultimately show ?thesis
      by (auto simp: preempt_due_def outranks_current_def split: option.splits)
  qed
  then show ?thesis
    using fields bl unfolding k' [symmetric] moves_def no_rival_def edge_def by (auto simp: lw)
qed

lemma moves_sleep:
  assumes inv: "kinv k L W" and task: "in_task k"
  shows "exec (Delay_Ms n) k = Inr k' \<Longrightarrow> moves (Delay_Ms n) a k k'"
    and "exec (Delay_Until n) k = Inr k' \<Longrightarrow> moves (Delay_Until n) a k k'"
proof -
  obtain t where t: "current_task k = Some t" "state (tcbs k t) = Running" by (rule in_taskE [OF task])
  show "moves (Delay_Ms n) a k k'" if run: "exec (Delay_Ms n) k = Inr k'"
  proof (cases "n = 0")
    case True
    then show ?thesis using run by (simp add: delay_ms_def)
  next
    case False
    obtain k1 where "delay_ms n k = Inr k1" and k1: "plain k1 = plain (task_yield (set_state t Blocked k))"
      using delay_ms_ok [OF inv t False] by blast
    then show ?thesis using run moves_blocked [OF k1, of k t] t by (simp add: waits_upd)
  qed
  show "moves (Delay_Until n) a k k'" if run: "exec (Delay_Until n) k = Inr k'"
  proof (cases "sint (n - tick_count k) \<le> 0")
    case True
    then show ?thesis using run by (simp add: delay_until_past)
  next
    case False
    then have pos: "0 < sint (n - tick_count k)" by simp
    obtain k1 where "delay_until n k = Inr k1" and k1: "plain k1 = plain (task_yield (set_state t Blocked k))"
      using delay_until_ok [OF inv t refl pos] by blast
    then show ?thesis using run moves_blocked [OF k1, of k t] t by (simp add: waits_upd)
  qed
qed

lemma moves_suspend:
  assumes inv: "kinv k L W" and t: "t < ntasks k"
  shows "exec (Suspend t) k = Inr k' \<Longrightarrow> moves (Suspend t) a k k'"
    and "exec (Delete t) k = Inr k' \<Longrightarrow> moves (Delete t) a k k'"
proof -
  show "moves (Suspend t) a k k'" if run: "exec (Suspend t) k = Inr k'"
  proof (cases "state (tcbs k t) = Suspended \<or> state (tcbs k t) = Deleted")
    case True
    then show ?thesis using run suspend_task_idle [of k t] by (simp add: task_suspend_def)
  next
    case False
    obtain k1 where "suspend_task (Some t) k = Inr k1"
      and k1: "plain k1 = plain (yield_if (current_task k = Some t \<and> started k)
       (upd_tcb t (\<lambda>b. (unwaited b)\<lparr>state := Suspended\<rparr>) k))"
      using suspend_task_ok [OF inv t] False by blast
    then show ?thesis using run moves_one [OF k1, of k t] False
      by (simp add: task_suspend_def edge_def unwaited_def waits_upd)
  qed
  show "moves (Delete t) a k k'" if run: "exec (Delete t) k = Inr k'"
  proof (cases "state (tcbs k t) = Deleted")
    case True
    then show ?thesis using run delete_task_twice [of k t] by (simp add: task_terminate_def)
  next
    case False
    obtain k1 where "delete_task (Some t) k = Inr k1"
      and k1: "plain k1 = plain (yield_if (current_task k = Some t \<and> started k)
       (upd_tcb t (\<lambda>b. (unwaited b)\<lparr>state := Deleted\<rparr>) k))"
      using delete_task_ok [OF inv t False] by blast
    then show ?thesis using run moves_one [OF k1, of k t]
      by (simp add: task_terminate_def edge_def unwaited_def waits_upd)
  qed
qed

lemma moves_resume:
  assumes inv: "kinv k L W" and t: "t < ntasks k" "\<not> in_delay_list (tcbs k t)"
    and run: "exec (Resume t) k = Inr k'"
  shows "moves (Resume t) a k k'"
proof (cases "state (tcbs k t) = Suspended")
  case False
  then show ?thesis using run t resume_task_other [OF False] by (simp add: task_resume_def)
next
  case True
  obtain k1 where "resume_task (Some t) k = Inr k1"
    and k1: "plain k1 = plain (yield_if (outranks_current t k) (set_state t Ready k))"
    using resume_task_ok [OF inv t(1) True] by blast
  then show ?thesis using run moves_one [OF k1, of k t] True by (simp add: task_resume_def edge_def waits_upd)
qed

subsection \<open>Synchronisation objects\<close>

lemma woken_store_fields [simp]:
  "current_task (woken_store t k) = current_task k" "ntasks (woken_store t k) = ntasks k"
  "pendsv (woken_store t k) = pendsv k" "pendsv (set_ring q r k) = pendsv k" "pendsv (holding h ms k) = pendsv k"
  "ntasks (holding h ms k) = ntasks k"
  by (simp_all add: woken_store_def ntasks_def set_ring_def holding_def)

text \<open>A hand-over to the waiter \<open>t\<close>.\<close>

lemma moves_hand_over:
  assumes inv: "kinv k L W" and t: "t \<in> set (L l)" "\<not> is_ready_list l" and k': "plain k' = plain F"
    and c: "wakes c" and same: "current_task F = current_task k" "ntasks F = ntasks k" "pendsv F = pendsv k"
    and F: "tcbs F = tcbs (woken_store t k)"
  shows "moves c (outranks_current t k) k k'"
proof -
  have "moves c (outranks_current t k) k F"
    using waiter_blocked [OF inv t] same c
    by (auto simp: moves_def no_rival_def keeps_waits_def live_wait_def F woken_store_def edge_def)
  then show ?thesis by (simp only: moves_plain [OF k'])
qed

lemma moves_give_locked:
  assumes inv: "kinv k L W" and run: "give_locked s k = Inr (b, k')" and c: "wakes c"
  shows "moves c b k k'"
proof (cases "L (Sem_Wait s)")
  case Nil
  then show ?thesis using give_locked_none [OF inv Nil] run by (auto split: if_splits)
next
  case (Cons t ts)
  obtain k1 where "give_locked s k = Inr (outranks_current t k, k1)"
    and k1: "plain k1 = plain (upd_tcb t (\<lambda>b. b\<lparr>state := Ready, wait_list := None\<rparr>) k)"
    using give_locked_some [OF inv Cons] by blast
  then have "k1 = k'" "b = outranks_current t k" using run by simp_all
  then show ?thesis
    using moves_hand_over [OF inv _ _ k1, of t "Sem_Wait s" c] c Cons by (simp add: woken_store_def)
qed

lemma moves_take:
  assumes inv: "kinv k L W" and task: "in_task k" and run: "exec (Take s n) k = Inr k'"
  shows "moves (Take s n) a k k'"
proof -
  obtain t where t: "current_task k = Some t" "state (tcbs k t) = Running" and isr: "ipsr k = 0"
    by (rule in_taskE [OF task])
  consider "n = 0" | "sem_count k s \<noteq> 0" "n \<noteq> 0" | "sem_count k s = 0" "n \<noteq> 0" by blast
  then show ?thesis
  proof cases
    case 1
    then show ?thesis using run by (auto simp: take_sem_def try_take_eq split: if_splits)
  next
    case 2
    then show ?thesis using take_sem_available [OF 2(1), of n] isr run by auto
  next
    case 3
    obtain k1 where "take_sem s n k = Inr (Waiting, k1)"
      and k1: "plain k1 = plain (task_yield (blocked_store (Sem_Wait s) t k))"
      using take_sem_blocks [OF inv t 3 isr] by blast
    then show ?thesis using run moves_blocked [OF k1, of k t] t by (simp add: blocked_store_def waits_upd)
  qed
qed

lemma moves_lock:
  assumes inv: "kinv k L W" and mu: "mutex_ok k L H" and task: "in_task k"
    and other: "owner (mutexes k m) \<noteq> current_task k" and run: "exec (Lock m) k = Inr k'"
  shows "moves (Lock m) a k k'"
proof -
  obtain c where c: "current_task k = Some c" "state (tcbs k c) = Running" and isr: "ipsr k = 0"
    by (rule in_taskE [OF task])
  show ?thesis
  proof (cases "owner (mutexes k m)")
    case None
    obtain k1 h ms where "lock m k = Inr (Returned True, k1)" and k1: "plain k1 = plain (holding h ms k)"
      using lock_free_ok [OF inv mu isr c(1) None] by blast
    then show ?thesis using run moves_plain [OF k1] by simp
  next
    case (Some h)
    have "h \<noteq> c" using other c Some by simp
    then obtain k1 where "lock m k = Inr (Waiting, k1)"
      and k1: "plain k1 = plain (task_yield (blocked_store (Mutex_Wait m) c (raise_owner h c k)))"
      using lock_blocks [OF inv mu isr c Some] by blast
    then show ?thesis using run moves_blocked [OF k1, of k c] c by (simp add: blocked_store_def raise_owner_def waits_upd)
  qed
qed

lemma moves_unlock:
  assumes inv: "kinv k L W" and mu: "mutex_ok k L H" and task: "in_task k"
    and own: "owner (mutexes k m) = current_task k" and run: "exec (Unlock m) k = Inr k'"
  shows "moves (Unlock m) a k k'"
proof -
  obtain c where c: "current_task k = Some c" "state (tcbs k c) = Running" by (rule in_taskE [OF task])
  obtain np k1 h ms where "unlock m k = Inr (True, k1)" and k1: "plain k1 = plain (yield_if (np \<noteq> priority (tcbs k c) \<or>
         (\<exists>n. first_of (L (Mutex_Wait m)) = Some n \<and> outranks_current n k))
       (upd_tcb c (\<lambda>b. b\<lparr>priority := np\<rparr>) (holding h ms (next_owner_store m L k))))"
    using unlock_ok [OF inv mu c _ refl, of m] own c(1) by auto
  moreover have "moves (Unlock m) a k k1"
  proof (cases "L (Mutex_Wait m)")
    case Nil
    then show ?thesis using c by (intro moves_one [OF k1, of _ c]) (auto simp: next_owner_store_def waits_upd)
  next
    case (Cons t ts)
    then have bl: "state (tcbs k t) = Blocked" using waiter_blocked [OF inv, of t "Mutex_Wait m"] by simp
    show ?thesis using c bl
      by (intro moves_one [OF k1, of _ t]) (auto simp: next_owner_store_def Cons edge_def waits_upd)
  qed
  ultimately show ?thesis using run by simp
qed

subsection \<open>Queues\<close>

lemma moves_send_attempt:
  assumes inv: "kinv k L W" and ob: "objects_ok k L H" and c: "wakes c"
    and run: "queue_send_from_isr q item k = Inr ((r, sy), k')"
  shows "moves c sy k k'"
proof (cases "L (Queue_Receivers q)")
  case (Cons t ts)
  obtain x where x: "q_count (queues k q) = 0" "xfer_ptr (tcbs k t) = Some x"
    using queue_ok_receivers [OF objects_okD(2) [OF ob] Cons] by blast
  let ?F = "set_ring q (queues k q, memcpy x item (item_size (queues k q)) (mem k)) (woken_store t k)"
  obtain k1 where "queue_send_from_isr q item k = Inr ((True, outranks_current t k), k1)"
    and k1: "plain k1 = plain ?F"
    using queue_send_hand_over [OF inv Cons x refl] by blast
  then have "k1 = k'" "sy = outranks_current t k" using run by simp_all
  then show ?thesis
    using moves_hand_over [OF inv _ _ k1, of t "Queue_Receivers q" c] c Cons by simp
next
  case Nil
  then show ?thesis
    using queue_send_stored(2) [OF inv Nil, of item] queue_send_full(2) [OF inv Nil, of item] run
    by (cases "q_count (queues k q) < capacity (queues k q)") (auto simp: push_raw_eq)
qed

lemma moves_receive_attempt:
  assumes inv: "kinv k L W" and ob: "objects_ok k L H" and c: "wakes c"
    and run: "queue_receive_from_isr q out k = Inr ((r, sy), k')"
  shows "moves c sy k k'"
proof (cases "q_count (queues k q) = 0")
  case True
  then show ?thesis using queue_receive_empty(2) [OF True, of out] run by simp
next
  case False
  show ?thesis
  proof (cases "L (Queue_Senders q)")
    case (Cons t ts)
    obtain x where x: "xfer_ptr (tcbs k t) = Some x"
      using queue_ok_senders [OF objects_okD(2) [OF ob] Cons] by blast
    let ?F = "set_ring q (ring_push x (ring_pop out (ring_of q k))) (woken_store t k)"
    obtain k1 where "queue_receive_from_isr q out k = Inr ((True, outranks_current t k), k1)"
      and k1: "plain k1 = plain ?F"
      using queue_receive_hand_over [OF inv Cons False x refl] by blast
    then have "k1 = k'" "sy = outranks_current t k" using run by simp_all
  then show ?thesis
    using moves_hand_over [OF inv _ _ k1, of t "Queue_Senders q" c] c Cons by simp
  next
    case Nil
    then show ?thesis using queue_receive_stored(2) [OF inv Nil False, of out] run by (auto simp: pop_raw_eq)
  qed
qed

lemma moves_send:
  assumes inv: "kinv k L W" and ob: "objects_ok k L H"
    and task: "in_task k" and run: "exec (Send q item n) k = Inr k'"
  shows "moves (Send q item n) a k k'"
proof -
  obtain t where t: "current_task k = Some t" "state (tcbs k t) = Running" and isr: "ipsr k = 0"
    by (rule in_taskE [OF task])
  show ?thesis
  proof (cases "L (Queue_Receivers q) \<noteq> [] \<or> q_count (queues k q) < capacity (queues k q)")
    case True
    then obtain sy k1 where "queue_send q item n k = Inr (Returned True, yield_if sy k1)"
      and isr: "queue_send_from_isr q item k = Inr ((True, sy), k1)"
      using send_attempt [OF inv ob True, of item] by blast
    then show ?thesis using run moves_yield_if [OF moves_send_attempt [OF inv ob _ isr]] by (simp add: typed_send_def)
  next
    case False
    then have f: "L (Queue_Receivers q) = []" "\<not> q_count (queues k q) < capacity (queues k q)" by simp_all
    show ?thesis
    proof (cases "n = 0")
      case True
      then show ?thesis using queue_send_full(1) [OF inv f] run by (simp add: typed_send_def)
    next
      case False
      obtain k1 where k1: "queue_send q item n k = Inr (Waiting, k1)"
        "plain k1 = plain (task_yield (queue_blocked_store (Queue_Senders q) item t k))"
        using queue_send_blocks [OF inv f t False isr] by blast
      then show ?thesis using run moves_blocked [OF k1(2), of k t] t by (simp add: typed_send_def queue_blocked_store_def waits_upd)
    qed
  qed
qed

lemma moves_receive:
  assumes inv: "kinv k L W" and ob: "objects_ok k L H"
    and task: "in_task k" and run: "exec (Receive q out n) k = Inr k'"
  shows "moves (Receive q out n) a k k'"
proof -
  obtain t where t: "current_task k = Some t" "state (tcbs k t) = Running" and isr: "ipsr k = 0"
    by (rule in_taskE [OF task])
  consider "q_count (queues k q) \<noteq> 0" | "q_count (queues k q) = 0" "n = 0"
    | "q_count (queues k q) = 0" "n \<noteq> 0" by blast
  then show ?thesis
  proof cases
    case 1
    then obtain sy k1 where "queue_receive q out n k = Inr (Returned True, yield_if sy k1)"
      and isr: "queue_receive_from_isr q out k = Inr ((True, sy), k1)"
      using receive_attempt [OF inv ob, of q out] by blast
    then show ?thesis using run moves_yield_if [OF moves_receive_attempt [OF inv ob _ isr]] by (simp add: typed_receive_def)
  next
    case 2
    then show ?thesis using queue_receive_empty(1) [OF 2(1), of out] run by (simp add: typed_receive_def)
  next
    case 3
    obtain k1 where k1: "queue_receive q out n k = Inr (Waiting, k1)"
      "plain k1 = plain (task_yield (queue_blocked_store (Queue_Receivers q) out t k))"
      using queue_receive_blocks [OF inv 3(1) t 3(2) isr] by blast
    then show ?thesis using run moves_blocked [OF k1(2), of k t] t by (simp add: typed_receive_def queue_blocked_store_def waits_upd)
  qed
qed

subsection \<open>Event groups\<close>

lemma scan_store_moves:
  "current_task (scan_store e ws k) = current_task k" "ntasks (scan_store e ws k) = ntasks k"
  "pendsv (scan_store e ws k) = pendsv k" "priority (tcbs (scan_store e ws k) t) = priority (tcbs k t)"
  "state (tcbs (scan_store e ws k) t) = (if t \<in> fst ` set ws then Ready else state (tcbs k t))"
  by (induction ws arbitrary: k) (auto simp: scan_store_def event_store_def ntasks_def)

lemma moves_set_bits:
  assumes inv: "kinv k L W" and c: "wakes c" and run: "set_bits_locked e m k = Inr ((b, v), k')"
  shows "moves c b k k'"
proof -
  let ?w = "event_bits k e OR m"
  let ?ws = "scan_woken (tcbs k) ?w (L (Event_Waiters e))"
  let ?F = "scan_store e ?ws (set_event_bits e ?w k)"
  obtain v' k1 where "set_bits_locked e m k = Inr ((\<exists>t \<in> fst ` set ?ws. outranks_current t k, v'), k1)"
    and k1: "plain k1 = plain ?F"
    using set_bits_locked_ok [OF inv refl refl] by blast
  then have k': "k1 = k'" and b: "b \<longleftrightarrow> (\<exists>t \<in> fst ` set ?ws. outranks_current t k)" using run by simp_all
  have bl: "state (tcbs k t) = Blocked" if "t \<in> fst ` set ?ws" for t
    using waiter_blocked [OF inv, of t "Event_Waiters e"] scan_woken_subset that by fastforce
  have F: "current_task ?F = current_task k" "ntasks ?F = ntasks k" "pendsv ?F = pendsv k"
    "priority (tcbs ?F t) = priority (tcbs k t)"
    "state (tcbs ?F t) = (if t \<in> fst ` set ?ws then Ready else state (tcbs k t))" for t
    by (simp_all add: scan_store_moves) (simp_all add: set_event_bits_def ntasks_def)
  have e: "edge c t (state (tcbs k t)) (state (tcbs ?F t))" for t using bl c by (simp add: F edge_def)
  have r: "b \<or> no_rival k ?F" using b by (auto simp: no_rival_def F)
  have "keeps_waits k ?F"
    by (auto simp: keeps_waits_def live_wait_def scan_store_woken set_event_bits_def)
  then have "moves c b k ?F" using e r by (auto simp: moves_def F)
  then show ?thesis using k1 by (simp only: moves_plain [of k' ?F] k')
qed

lemma moves_wait_bits:
  assumes inv: "kinv k L W" and task: "in_task k"
    and run: "exec (Wait_Bits e m al clr n ret) k = Inr k'"
  shows "moves (Wait_Bits e m al clr n ret) a k k'"
proof -
  obtain t where t: "current_task k = Some t" "state (tcbs k t) = Running" and isr: "ipsr k = 0"
    by (rule in_taskE [OF task])
  consider "m = 0" | "m \<noteq> 0" "bits_satisfy (event_bits k e) m al"
    | "m \<noteq> 0" "\<not> bits_satisfy (event_bits k e) m al" "n = 0"
    | "m \<noteq> 0" "\<not> bits_satisfy (event_bits k e) m al" "n \<noteq> 0" by blast
  then show ?thesis
  proof cases
    case 1
    then show ?thesis using run by (simp add: wait_bits_def get_bits_eq)
  next
    case 2
    then show ?thesis using run wait_bits_match [OF t(1) isr 2 refl, of clr n ret] by auto
  next
    case 3
    then show ?thesis using run wait_bits_poll [OF t(1) isr 3(1,2)] by auto
  next
    case 4
    obtain k1 where k1: "wait_bits e m al clr n ret k = Inr (Waiting, k1)"
      "plain k1 = plain (task_yield (event_wait_store e m al clr ret t k))"
      using wait_bits_blocks [OF inv t isr 4(1,3,2)] by blast
    then show ?thesis using run moves_blocked [OF k1(2), of k t] t by (simp add: event_wait_store_def waits_upd)
  qed
qed

subsection \<open>Every call\<close>

fun is_create :: "call \<Rightarrow> bool" where
  "is_create (Create site buf words n construct tramp p) = True"
| "is_create c = False"

lemma state_of_eq: "state_of r = Inr k' \<longleftrightarrow> (\<exists>v. r = Inr (v, k'))"
  by (auto simp: state_of_def andthen_eq_Inr)

lemma exec_moves:
  assumes "sys_ok k" and al: "allowed c k" and run: "exec c k = Inr k'"
    and c: "\<not> is_switch c" "\<not> is_start c" "\<not> is_create c"
  shows "moves c (asks c k) k k'"
proof -
  obtain L W H where inv: "kinv k L W" and ob: "objects_ok k L H" using assms(1) by (auto simp: sys_ok_def)
  note mu = objects_okD(3) [OF ob]
  show ?thesis
  proof (cases c)
    case (Give s)
    then obtain b k1 where k1: "give_locked s k = Inr (b, k1)" "k' = yield_if b k1"
      using run by (auto simp: give_def andthen_eq_Inr yield_if_def)
    then show ?thesis using moves_yield_if [OF moves_give_locked [OF inv k1(1)]] Give by simp
  next
    case (Give_From_Isr s)
    then obtain b where b: "give_locked s k = Inr (b, k')"
      using run by (auto simp: give_from_isr_def state_of_eq)
    then show ?thesis using moves_give_locked [OF inv b, of c] Give_From_Isr by (simp add: give_from_isr_def)
  next
    case (Set_Bits e m)
    then obtain b v k1 where k1: "set_bits_locked e m k = Inr ((b, v), k1)" "k' = yield_if b k1"
      using run by (auto simp: set_bits_def andthen_eq_Inr state_of_eq yield_if_def)
    then show ?thesis using moves_yield_if [OF moves_set_bits [OF inv _ k1(1)]] Set_Bits by simp
  next
    case (Set_Bits_From_Isr e m)
    then obtain b v where b: "set_bits_locked e m k = Inr ((b, v), k')"
      using run by (auto simp: set_bits_from_isr_def state_of_eq)
    then show ?thesis using moves_set_bits [OF inv _ b, of c] Set_Bits_From_Isr by (simp add: set_bits_from_isr_def)
  next
    case (Send_From_Isr q item)
    then obtain r sy where b: "queue_send_from_isr q item k = Inr ((r, sy), k')"
      using run by (auto simp: typed_send_from_isr_def state_of_eq)
    then show ?thesis using moves_send_attempt [OF inv ob _ b, of c] Send_From_Isr
      by (simp add: typed_send_from_isr_def)
  next
    case (Receive_From_Isr q out)
    then obtain r sy where b: "queue_receive_from_isr q out k = Inr ((r, sy), k')"
      using run by (auto simp: typed_receive_from_isr_def state_of_eq)
    then show ?thesis using moves_receive_attempt [OF inv ob _ b, of c] Receive_From_Isr
      by (simp add: typed_receive_from_isr_def)
  next
    case Tick
    then show ?thesis using moves_tick [OF inv] run by simp
  next
    case (Lock m)
    then show ?thesis using moves_lock [OF inv mu] al run by auto
  next
    case (Unlock m)
    then show ?thesis using moves_unlock [OF inv mu] al run by auto
  next
    case (Resume t)
    then show ?thesis using moves_resume [OF inv] al run by auto
  next
    case (Send q item n)
    then show ?thesis using moves_send [OF inv ob] al run by auto
  next
    case (Receive q out n)
    then show ?thesis using moves_receive [OF inv ob] al run by auto
  next
    case (Take s n)
    then show ?thesis using moves_take [OF inv] al run by auto
  next
    case (Wait_Bits e m b clr n ret)
    then show ?thesis using moves_wait_bits [OF inv] al run by auto
  next
    case (Suspend t)
    then show ?thesis using moves_suspend(1) [OF inv] al run by auto
  next
    case (Delete t)
    then show ?thesis using moves_suspend(2) [OF inv] al run by auto
  next
    case (Delay_Ms n)
    then show ?thesis using moves_sleep(1) [OF inv] al run by auto
  next
    case (Delay_Until n)
    then show ?thesis using moves_sleep(2) [OF inv] al run by auto
  qed (use run c in \<open>auto simp: try_take_eq clear_bits_eq split: if_splits\<close>)
qed

end
