(* ===== verification/Preemption.thy ===== *)
theory Preemption
  imports Call_Effects
begin

text \<open>
  Steps over the effects of theory Call_Effects. \<open>kstep_edge\<close>: in every step of the kernel the state
  of every task changes along an edge of the state diagram, so a deleted task stays deleted.
  \<open>obeying_prompt\<close>: whenever a task is ready that is more urgent than the running one, the switch to
  it is pending. Calls ask for the switch themselves; an interrupt handler is told by the call it
  makes and asks for it before it returns.
\<close>

subsection \<open>The switch and the creation of tasks\<close>

lemma created_effect:
  assumes "ntasks k < kMaxTasks" and "plain k' = plain (yield_if b (created (ntasks k) buf words tramp a p k0))"
    and "k0 = k\<lparr>site_created := sc, mem := m\<rparr>"
  shows "current_task k' = current_task k" and "ntasks k' = Suc (ntasks k)" and "pendsv k' \<longleftrightarrow> b \<or> pendsv k"
    and "t < ntasks k \<Longrightarrow> state (tcbs k' t) = state (tcbs k t)"
    and "t < ntasks k \<Longrightarrow> priority (tcbs k' t) = priority (tcbs k t)"
    and "priority (tcbs k' (ntasks k)) = p" and "keeps_waits k k'"
  using ntasks_Suc [OF assms(1)]
  by (simp_all add: plainD [OF assms(2)] ntasks_def created_def assms(3) Let_def yield_if_def task_yield_def
      keeps_waits_def live_wait_def split: prod.split)

lemma create_effect:
  assumes "kinv k L W" and al: "allowed (Create site buf words n construct tramp p) k"
    and run: "exec (Create site buf words n construct tramp p) k = Inr k'"
  shows "\<exists>b sc m a. (b \<longleftrightarrow> started k \<and> (\<exists>c. current_task k = Some c \<and> priority (tcbs k c) < p)) \<and>
     plain k' = plain (yield_if b (created (ntasks k) buf words tramp a p (k\<lparr>site_created := sc, mem := m\<rparr>)))"
proof -
  let ?slot = "callable_slot buf words n"
  let ?k0 = "k\<lparr>site_created := (site_created k)(site := True), mem := construct ?slot (mem k)\<rparr>"
  obtain k1 where "create_task site buf words n construct tramp p k = Inr (Some (ntasks k), k1)"
    "plain k1 = plain (yield_if (started k \<and> (\<exists>c. current_task k = Some c \<and> priority (tcbs k c) < p))
       (created (ntasks k) buf words tramp ?slot p ?k0))"
    using create_task_ok [OF assms(1) _ _ refl _ refl refl] al by fastforce
  then show ?thesis using run by auto
qed

lemma start_states:
  assumes "kinv k L W" and al: "allowed (Start site buf construct tramp) k"
    and run: "exec (Start site buf construct tramp) k = Inr k'"
  shows "t < ntasks k \<Longrightarrow> t < ntasks k'" and "t < ntasks k \<Longrightarrow> state (tcbs k' t) = state (tcbs k t)" and "keeps_waits k k'"
proof -
  let ?slot = "callable_slot buf kStackSize 1"
  let ?k0 = "k\<lparr>site_created := (site_created k)(site := True), mem := construct ?slot (mem k)\<rparr>"
  have room: "ntasks k < kMaxTasks" and fresh: "\<not> started k" "\<not> site_created k site" "reload_ok (g_cpu_hz k)"
    using al by simp_all
  obtain k1 where k1: "create_task site buf kStackSize 1 construct tramp 0 k = Inr (Some (ntasks k), k1)"
    "plain k1 = plain (yield_if False (created (ntasks k) buf kStackSize tramp ?slot 0 ?k0))"
    using create_task_ok [OF assms(1) room _ refl fresh(2) refl refl, where p = 0 and words = kStackSize and
        n = 1 and buf = buf and construct = construct and tramp = tramp] fresh by auto
  have "g_cpu_hz k1 = g_cpu_hz k"
    using plainD [OF k1(2)] by (simp add: created_def Let_def split: prod.split)
  then obtain r where "start_hardware_and_yield (k1\<lparr>started := True\<rparr>)
      = Inr (k1\<lparr>started := True, psp := 0, regs := r, pendsv := True\<rparr>)"
    using hardware_fields [of "k1\<lparr>started := True\<rparr>"] fresh by auto
  then have "k' = k1\<lparr>started := True, psp := 0, regs := r, pendsv := True\<rparr>"
    using run k1(1) fresh by (simp add: start_def)
  then have "tcbs k' = tcbs k1" "ntasks k' = ntasks k1" by (simp_all add: ntasks_def)
  then show "t < ntasks k \<Longrightarrow> t < ntasks k'" "t < ntasks k \<Longrightarrow> state (tcbs k' t) = state (tcbs k t)" "keeps_waits k k'"
    using created_effect(2,4,7) [OF room k1(2) refl] by (simp_all add: keeps_waits_def)
qed

subsection \<open>The state diagram\<close>

lemma switch_edge:
  assumes "kinv k L W" and "may_switch c k" and run: "exec (Switch c) k = Inr k'"
  shows "edge (Switch c) t (state (tcbs k t)) (state (tcbs k' t))" and "keeps_waits k k'"
proof -
  let ?k = "at_entry k"
  let ?L = "requeue_current ?k L"
  obtain k1 p n ts where hd: "PendSV_Handler c ?k = Inr (fst (restore_context c k1), (snd (restore_context c k1))\<lparr>primask := False\<rparr>)"
    and p: "?L (Ready_List p) = n # ts"
    and k1: "plain k1 = plain (switch_to n (enter_switch c ?k))"
    using PendSV_ok [of ?k L W c] assms(1,2) by auto
  have k': "state (tcbs k' s) = (if s = n then Running
      else if current_task k = Some s \<and> state (tcbs k s) = Running then Ready else state (tcbs k s))" for s
    using run by (auto simp: hd restore_context_fields plainD [OF k1] switch_to_def save_current_def Let_def
        split: option.split)
  have "state (tcbs k n) = Ready \<or> state (tcbs k n) = Running"
  proof (cases "n \<in> set (L (Ready_List p))")
    case True
    then show ?thesis using kinv_ready_member(2) [OF assms(1)] by blast
  next
    case False
    moreover have "n \<in> set (?L (Ready_List p))" using p by simp
    ultimately show ?thesis
      by (auto simp: requeue_current_def enqueue_def Let_def split: option.splits if_splits)
  qed
  then show "edge (Switch c) t (state (tcbs k t)) (state (tcbs k' t))" by (auto simp: k' edge_def)
  have "k' = (snd (restore_context c k1))\<lparr>primask := False\<rparr>" using hd run by simp
  then have "wait_list (tcbs k' s) = wait_list (tcbs k s)" "timeout_expired (tcbs k' s) = timeout_expired (tcbs k s)" for s
    by (simp_all add: restore_context_fields plainD [OF k1] switch_to_def save_current_def Let_def split: option.split)
  then show "keeps_waits k k'" by (simp add: keeps_waits_def live_wait_def)
qed

lemma kstep_edge:
  assumes "sys_ok k" and "kstep k c k'"
  shows "t < ntasks k \<Longrightarrow> t < ntasks k'"
    and "t < ntasks k \<Longrightarrow> edge c t (state (tcbs k t)) (state (tcbs k' t))" and "keeps_waits k k'"
proof -
  obtain L W where inv: "kinv k L W" using assms(1) by (auto simp: sys_ok_def)
  have al: "allowed c k" and run: "exec c k = Inr k'" using assms(2) by (auto simp: kstep_iff)
  consider d where "c = Switch d" | site buf construct tramp where "c = Start site buf construct tramp"
    | site buf words n construct tramp p where "c = Create site buf words n construct tramp p"
    | "\<not> is_switch c" "\<not> is_start c" "\<not> is_create c"
    by (cases c) auto
  then have "(t < ntasks k \<longrightarrow> t < ntasks k' \<and> edge c t (state (tcbs k t)) (state (tcbs k' t))) \<and> keeps_waits k k'"
  proof cases
    case 1
    then show ?thesis using switch_edge [OF inv] switch_effect(1) [OF inv] al run by auto
  next
    case 2
    then show ?thesis using start_states [OF inv] al run by auto
  next
    case 3
    then obtain b sc m a where k': "plain k' = plain (yield_if b
        (created (ntasks k) buf words tramp a p (k\<lparr>site_created := sc, mem := m\<rparr>)))"
      using create_effect [OF inv] al run by blast
    have room: "ntasks k < kMaxTasks" using al 3 by simp
    show ?thesis using created_effect(2,4,7) [OF room k' refl] by simp
  next
    case 4
    then show ?thesis using exec_moves [OF assms(1) al run] by (simp add: moves_def)
  qed
  then show "t < ntasks k \<Longrightarrow> t < ntasks k'" "t < ntasks k \<Longrightarrow> edge c t (state (tcbs k t)) (state (tcbs k' t))"
    "keeps_waits k k'" by simp_all
qed

subsection \<open>Preemption\<close>

definition prompt :: "kernel \<Rightarrow> bool" where
  "prompt k \<longleftrightarrow> pendsv k \<or>
     (\<forall>c s. current_task k = Some c \<longrightarrow> state (tcbs k c) = Running \<longrightarrow>
        s < ntasks k \<longrightarrow> state (tcbs k s) = Ready \<longrightarrow> priority (tcbs k s) \<le> priority (tcbs k c))"

lemma promptI:
  assumes "\<And>c s. \<lbrakk>\<not> pendsv k; current_task k = Some c; state (tcbs k c) = Running; s < ntasks k;
      state (tcbs k s) = Ready\<rbrakk> \<Longrightarrow> priority (tcbs k s) \<le> priority (tcbs k c)"
  shows "prompt k"
  using assms unfolding prompt_def by blast

lemma promptD:
  "\<lbrakk>prompt k; \<not> pendsv k; current_task k = Some c; state (tcbs k c) = Running; s < ntasks k;
    state (tcbs k s) = Ready\<rbrakk> \<Longrightarrow> priority (tcbs k s) \<le> priority (tcbs k c)"
  unfolding prompt_def by blast

lemma prompt_moves:
  assumes pr: "prompt k" and st: "started k" and mv: "moves c False k k'" and c: "\<not> is_switch c"
  shows "prompt k'"
proof (rule promptI)
  fix d s assume a: "\<not> pendsv k'" "current_task k' = Some d" "state (tcbs k' d) = Running" "s < ntasks k'"
    "state (tcbs k' s) = Ready"
  have e: "edge c d (state (tcbs k d)) Running" using mv a(3) unfolding moves_def by metis
  have d: "current_task k = Some d" "\<not> pendsv k" "s < ntasks k" "state (tcbs k d) = Running"
    using mv a(1,2,4) e c by (auto simp: moves_def edge_def)
  have p: "priority (tcbs k' t) = priority (tcbs k t)" "state (tcbs k s) = Ready \<or> \<not> outranks_current s k" for t
    using mv a(1,5) by (auto simp: moves_def no_rival_def)
  then show "priority (tcbs k' s) \<le> priority (tcbs k' d)"
    using promptD [OF pr d(2,1,4,3)] st d(1) by (auto simp: outranks_current_def)
qed

lemma prompt_switch:
  assumes "kinv k L W" and "may_switch c k" and run: "exec (Switch c) k = Inr k'"
  shows "prompt k'"
proof -
  let ?k = "at_entry k"
  let ?L = "requeue_current ?k L"
  obtain k1 p n ts where hd: "PendSV_Handler c ?k = Inr (fst (restore_context c k1), (snd (restore_context c k1))\<lparr>primask := False\<rparr>)"
    and p: "highest_ready ?L p" "?L (Ready_List p) = n # ts"
    and k1: "plain k1 = plain (switch_to n (enter_switch c ?k))" "kinv k1 (?L(Ready_List p := ts)) W"
    using PendSV_ok [of ?k L W c] assms(1,2) by auto
  have k': "k' = (snd (restore_context c k1))\<lparr>primask := False\<rparr>" using hd run by simp
  have inv': "kinv k' (?L(Ready_List p := ts)) W" using k1(2) by (simp add: k')
  have cur: "current_task k' = Some n" "priority (tcbs k' s) = priority (tcbs k s)" for s
    by (simp_all add: k' restore_context_fields plainD [OF k1(1)] switch_to_def save_current_def Let_def
        split: option.split)
  have le: "q \<le> p" if "?L (Ready_List q) \<noteq> []" for q using p(1) that by (simp add: highest_ready_def)
  have pn: "priority (tcbs k n) = p"
  proof (cases "n \<in> set (L (Ready_List p))")
    case True
    then show ?thesis using kinv_ready_member(3) [OF assms(1)] by blast
  next
    case False
    moreover have "n \<in> set (?L (Ready_List p))" using p(2) by simp
    ultimately show ?thesis
      by (auto simp: requeue_current_def enqueue_def Let_def split: option.splits if_splits)
  qed
  show ?thesis
  proof (rule promptI)
    fix c' s assume "current_task k' = Some c'" "s < ntasks k'" "state (tcbs k' s) = Ready"
    then have "c' = n" "s \<in> set ((?L(Ready_List p := ts)) (Ready_List (priority (tcbs k' s))))"
      using cur(1) task_ok_ready [OF kinv_task [OF inv']] by simp_all
    moreover have "?L (Ready_List (priority (tcbs k' s))) \<noteq> []" using calculation(2) p(2) by (auto split: if_splits)
    ultimately show "priority (tcbs k' s) \<le> priority (tcbs k' c')" using le by (simp add: cur(2) pn)
  qed
qed

lemma prompt_create:
  assumes "kinv k L W" and pr: "prompt k" and st: "started k"
    and al: "allowed (Create site buf words n construct tramp p) k"
    and run: "exec (Create site buf words n construct tramp p) k = Inr k'"
  shows "prompt k'"
proof (rule promptI)
  fix c s assume a: "\<not> pendsv k'" "current_task k' = Some c" "state (tcbs k' c) = Running" "s < ntasks k'"
    "state (tcbs k' s) = Ready"
  obtain b sc m e where b: "b \<longleftrightarrow> started k \<and> (\<exists>c. current_task k = Some c \<and> priority (tcbs k c) < p)"
    and k': "plain k' = plain (yield_if b (created (ntasks k) buf words tramp e p (k\<lparr>site_created := sc, mem := m\<rparr>)))"
    using create_effect [OF assms(1) al run] by blast
  note f = created_effect [OF _ k' refl]
  have room: "ntasks k < kMaxTasks" using al by simp
  have c: "current_task k = Some c" using f(1) [OF room] a(2) by simp
  have cn: "c < ntasks k" by (rule kinv_current [OF assms(1) c])
  show "priority (tcbs k' s) \<le> priority (tcbs k' c)"
  proof (cases "s = ntasks k")
    case True
    then show ?thesis using b st c a(1) f(3,6) [OF room] f(5) [OF room cn] by auto
  next
    case False
    then have s: "s < ntasks k" using a(4) f(2) [OF room] by simp
    show ?thesis
      using promptD [OF pr _ c _ s] a(1,3,5) f(3) [OF room] f(4,5) [OF room cn] f(4,5) [OF room s] by simp
  qed
qed

lemma prompt_exec:
  assumes "sys_ok k" and pr: "prompt k" and st: "started k" and al: "allowed c k" and no: "\<not> asks c k"
    and run: "exec c k = Inr k'"
  shows "prompt k'"
proof -
  obtain L W where inv: "kinv k L W" using assms(1) by (auto simp: sys_ok_def)
  consider d where "c = Switch d" | site buf words n construct tramp p where "c = Create site buf words n construct tramp p"
    | "\<not> is_switch c" "\<not> is_start c" "\<not> is_create c"
    using al st by (cases c) auto
  then show ?thesis
  proof cases
    case 1
    then show ?thesis using prompt_switch [OF inv] al run by auto
  next
    case 2
    then show ?thesis using prompt_create [OF inv pr st] al run by blast
  next
    case 3
    then show ?thesis using prompt_moves [OF pr st _ 3(1)] exec_moves [OF assms(1) al run 3] no by simp
  qed
qed

subsection \<open>Runs\<close>

lemma deleted_stays:
  assumes "reach k k'" and "sys_ok k" and "t < ntasks k" and "state (tcbs k t) = Deleted"
  shows "t < ntasks k' \<and> state (tcbs k' t) = Deleted"
  using assms
proof (induction rule: reach.induct)
  case (reach_step k' c k'')
  then have *: "t < ntasks k'" "state (tcbs k' t) = Deleted" "sys_ok k'" using reach_sys_ok by blast+
  have "t < ntasks k''" "edge c t Deleted (state (tcbs k'' t))"
    using kstep_edge(1,2) [OF *(3) reach_step.hyps(2) *(1)] *(2) by simp_all
  then show ?case by (auto simp: edge_def)
qed simp

text \<open>Whoever is on a wait list is not marked expired.\<close>

definition waits_live :: "kernel \<Rightarrow> bool" where
  "waits_live k \<longleftrightarrow> (\<forall>t. live_wait (tcbs k t))"

lemma waits_live_boot: "waits_live (boot a counts qs m)"
  by (simp add: waits_live_def live_wait_def boot_def initial_tcb_def)

lemma reach_waits_live:
  assumes "reach k k'" and "sys_ok k" and "waits_live k"
  shows "waits_live k'"
  using assms
proof (induction rule: reach.induct)
  case (reach_step k' c k'')
  then have "sys_ok k'" by (blast intro: reach_sys_ok)
  then have "keeps_waits k' k''" using reach_step.hyps(2) by (rule kstep_edge(3))
  then show ?case using reach_step by (simp add: keeps_waits_def waits_live_def)
qed simp

text \<open>Interrupt handlers ask for the switch when a call tells them to.\<close>

inductive obeying_run :: "kernel \<Rightarrow> kernel \<Rightarrow> bool" for k0 where
  obeying_refl: "obeying_run k0 k0"
| obeying_call: "obeying_run k0 k \<Longrightarrow> kstep k c k' \<Longrightarrow> \<not> asks c k \<Longrightarrow> obeying_run k0 k'"
| obeying_isr: "obeying_run k0 k \<Longrightarrow> kstep k c k1 \<Longrightarrow> kstep k1 Yield k' \<Longrightarrow> obeying_run k0 k'"

lemma obeying_prompt:
  assumes "obeying_run k0 k" and "sys_ok k0" and "started k0" and "prompt k0"
  shows "sys_ok k \<and> started k \<and> prompt k"
  using assms
proof (induction rule: obeying_run.induct)
  case (obeying_call k c k')
  then have *: "sys_ok k" "started k" "prompt k" by simp_all
  have "allowed c k" "exec c k = Inr k'" using obeying_call.hyps(2) by (auto simp: kstep_iff)
  then have "prompt k'" by (rule prompt_exec [OF *(1,3,2) _ obeying_call.hyps(3)])
  then show ?case using * kstep_sys_ok kstep_started obeying_call.hyps(2) by blast
next
  case (obeying_isr k c k1 k')
  have "k' = task_yield k1" using obeying_isr.hyps(3) by (simp add: kstep_iff)
  moreover have "prompt (task_yield k1)" by (simp add: prompt_def task_yield_def)
  ultimately show ?case using obeying_isr kstep_sys_ok kstep_started by blast
qed simp

end
