(* ===== verification/Props_System.thy ===== *)
theory Props_System
  imports Example_Kernel Preemption
begin

text \<open>
  Properties of the whole kernel, over all sequences of calls, interrupts, context switches
  and application code.
\<close>

subsection \<open>Safety\<close>

text \<open>C1 No fault: from static initialisation on, in every state that the application can reach,
  every call it is allowed to make returns: no assertion fails, no null pointer is dereferenced,
  no array is indexed out of bounds and no loop over a list runs for ever.\<close>

theorem boot_runs_safe:
  assumes "\<And>q. ring_ok (qs q)" and "reach (boot a counts qs m) k" and "allowed c k"
  shows "\<exists>k'. exec c k = Inr k' \<and> reach (boot a counts qs m) k'"
proof -
  have "sys_ok k" by (rule reach_sys_ok [OF assms(2) boot_sys_ok [OF assms(1)]])
  then obtain k' where "kstep k c k'" using kstep_progress [OF _ assms(3)] by blast
  then show ?thesis using reach_step [OF assms(2)] by (auto simp: kstep_iff)
qed

theorem boot_runs_safe_witness:
  "\<exists>k'. exec (Start 9 2000 (\<lambda>_ m. m) 64) ex_boot = Inr k' \<and> reach ex_boot k'"
  unfolding ex_boot_def
  by (rule boot_runs_safe [OF ex_rings reach_refl])
    (simp add: boot_def ntasks_def kMaxTasks_def reload_ok_def systick_reload_def kTickRateMs_def kCpuHz_def)

text \<open>C2 No lost wake-up: in every reachable state, a task on a wait list waits for a reason. The
  semaphore has no token, the mutex is owned, the queue it sends to is full, the queue it
  receives from is empty, or the bits of the event group do not meet its condition.\<close>

theorem no_lost_wakeup:
  assumes "sys_ok k0" and "reach k0 k" and "t < ntasks k" and "wait_list (tcbs k t) = Some l"
  shows "case l of
      Ready_List p \<Rightarrow> False
    | Sem_Wait s \<Rightarrow> sem_count k s = 0
    | Mutex_Wait m \<Rightarrow> owner (mutexes k m) \<noteq> None
    | Queue_Senders q \<Rightarrow> q_count (queues k q) = capacity (queues k q)
    | Queue_Receivers q \<Rightarrow> q_count (queues k q) = 0
    | Event_Waiters e \<Rightarrow> \<not> condition_met (tcbs k t) (event_bits k e)"
proof -
  obtain L W H where inv: "kinv k L W" and ob: "objects_ok k L H"
    using reach_sys_ok [OF assms(2,1)] by (auto simp: sys_ok_def)
  have l: "\<not> is_ready_list l" "t \<in> set (L l)"
    using task_ok_wait_list [OF kinv_task [OF inv assms(3)] assms(4)] by auto
  then have "L l \<noteq> []" by auto
  then show ?thesis using l objects_okD(5) [OF ob, of l] by (cases l) (auto simp: object_ok_def)
qed

theorem no_lost_wakeup_witness:
  "\<not> condition_met (tcbs ex_kernel 7) (event_bits ex_kernel 0)"
  using no_lost_wakeup [OF ex_sys_ok reach_refl, of 7 "Event_Waiters 0"]
  by (simp add: ex_tcb_def)

text \<open>C6 States of tasks: in every reachable state at most one task is Running, and it is the current
  one; bit p of the ready mask is set exactly when some task of priority p is Ready; and a task is
  Blocked exactly when it waits on a list or for a time.\<close>

theorem task_states:
  assumes "sys_ok k0" and "reach k0 k"
  shows "(\<forall>t < ntasks k. state (tcbs k t) = Running \<longrightarrow> current_task k = Some t) \<and>
         (\<forall>p < 32. bit (ready_bitmask k) (unat p) \<longleftrightarrow>
            (\<exists>t < ntasks k. state (tcbs k t) = Ready \<and> priority (tcbs k t) = p)) \<and>
         (\<forall>t < ntasks k. state (tcbs k t) = Blocked \<longleftrightarrow>
            wait_list (tcbs k t) \<noteq> None \<or> in_delay_list (tcbs k t))"
proof -
  obtain L W H where inv: "kinv k L W" using reach_sys_ok [OF assms(2,1)] by (auto simp: sys_ok_def)
  have "L (Ready_List p) \<noteq> [] \<longleftrightarrow> (\<exists>t < ntasks k. state (tcbs k t) = Ready \<and> priority (tcbs k t) = p)" for p
  proof
    assume "L (Ready_List p) \<noteq> []"
    then obtain t where "t \<in> set (L (Ready_List p))" by (cases "L (Ready_List p)") auto
    then show "\<exists>t < ntasks k. state (tcbs k t) = Ready \<and> priority (tcbs k t) = p"
      using kinv_ready_member [OF inv] by blast
  next
    assume "\<exists>t < ntasks k. state (tcbs k t) = Ready \<and> priority (tcbs k t) = p"
    then obtain t where t: "t < ntasks k" "state (tcbs k t) = Ready" "priority (tcbs k t) = p" by blast
    have "t \<in> set (L (Ready_List p))" using task_ok_ready [OF kinv_task [OF inv t(1)]] t by simp
    then show "L (Ready_List p) \<noteq> []" by auto
  qed
  moreover have "wf_ready k L" using kinv_wf [OF inv] by (simp add: wf_kernel_def)
  ultimately show ?thesis
    using kinv_running [OF inv] task_ok_blocked [OF kinv_task [OF inv]] wf_kernel_in_delay [OF kinv_wf [OF inv]]
    by (simp add: wf_ready_def)
qed

theorem task_states_witness:
  "current_task ex_kernel = Some 0 \<and> bit (ready_bitmask ex_kernel) (unat (3 :: prio)) \<and>
   in_delay_list (tcbs ex_kernel 5)"
proof -
  note st = task_states [OF ex_sys_ok reach_refl]
  have "\<exists>t < ntasks ex_kernel. state (tcbs ex_kernel t) = Ready \<and> priority (tcbs ex_kernel t) = 3"
    by (rule exI [of _ 8]) simp
  then have "bit (ready_bitmask ex_kernel) (unat (3 :: prio))"
    using st [THEN conjunct2, THEN conjunct1, rule_format, of 3] by simp
  then show ?thesis
    using st [THEN conjunct1, rule_format, of 0] st [THEN conjunct2, THEN conjunct2, rule_format, of 5] by simp
qed



text \<open>C8 No dangling pointer: in every reachable state the task table, the ring indices and all pointers
  are in range. Priorities index the ready lists; the current task, the ends of every list and the
  owner of every mutex are tasks that exist; the successor of a listed task is a task on the same
  list, in the same state, of no higher priority, whose link back leads to it; and the same holds
  of the list of sleepers.\<close>

theorem pointers_valid:
  assumes "sys_ok k0" and "reach k0 k"
  shows "ntasks k \<le> kMaxTasks \<and>
         (\<forall>t. current_task k = Some t \<or> delay_head k = Some t \<or> owner (mutexes k m) = Some t \<or>
            head (lists k l) = Some t \<or> tail (lists k l) = Some t \<longrightarrow> t < ntasks k) \<and>
         (\<forall>t < ntasks k. priority (tcbs k t) < 32 \<and> base_priority (tcbs k t) \<le> priority (tcbs k t)) \<and>
         (\<forall>t < ntasks k. \<forall>n. link_next (tcbs k t) = Some n \<and>
            (state (tcbs k t) = Ready \<or> wait_list (tcbs k t) \<noteq> None) \<longrightarrow>
            n < ntasks k \<and> link_prev (tcbs k n) = Some t \<and> state (tcbs k n) = state (tcbs k t) \<and>
            wait_list (tcbs k n) = wait_list (tcbs k t) \<and> priority (tcbs k n) \<le> priority (tcbs k t)) \<and>
         (\<forall>t < ntasks k. \<forall>n. delay_next (tcbs k t) = Some n \<and> in_delay_list (tcbs k t) \<longrightarrow>
            n < ntasks k \<and> in_delay_list (tcbs k n) \<and> delay_prev (tcbs k n) = Some t) \<and>
         q_head (queues k q) < capacity (queues k q) \<and> q_tail (queues k q) < capacity (queues k q) \<and>
         q_count (queues k q) \<le> capacity (queues k q)"
proof -
  obtain L W H where inv: "kinv k L W" and ob: "objects_ok k L H"
    using reach_sys_ok [OF assms(2,1)] by (auto simp: sys_ok_def)
  have ends: "t < ntasks k" if "current_task k = Some t \<or> delay_head k = Some t \<or> owner (mutexes k m) = Some t \<or>
      head (lists k l) = Some t \<or> tail (lists k l) = Some t" for t
    using that objects_okD(6) [OF ob] by (auto simp: mutexes_ok_def dest: kinv_ends [OF inv])
  have ring: "ring_ok (queues k q)" using ob by (simp add: objects_ok_def rings_ok_def)
  have prio: "priority (tcbs k t) < 32 \<and> base_priority (tcbs k t) \<le> priority (tcbs k t)" if "t < ntasks k" for t
    using task_ok_priority task_ok_base kinv_task [OF inv that] by blast
  have nb: "n < ntasks k \<and> link_prev (tcbs k n) = Some t \<and> state (tcbs k n) = state (tcbs k t) \<and>
      wait_list (tcbs k n) = wait_list (tcbs k t) \<and> priority (tcbs k n) \<le> priority (tcbs k t)"
    if "t < ntasks k" "link_next (tcbs k t) = Some n \<and> (state (tcbs k t) = Ready \<or> wait_list (tcbs k t) \<noteq> None)" for t n
    using kinv_neighbour [OF inv that(1) conjunct2 [OF that(2)] conjunct1 [OF that(2)]] by blast
  have sl: "n < ntasks k \<and> in_delay_list (tcbs k n) \<and> delay_prev (tcbs k n) = Some t"
    if "delay_next (tcbs k t) = Some n \<and> in_delay_list (tcbs k t)" for t n
    using kinv_sleeping_neighbour [OF inv conjunct2 [OF that] conjunct1 [OF that]] by blast
  have "q_tail (queues k q) < capacity (queues k q)" using ring by (simp add: ring_ok_def)
  then show ?thesis
    using kinv_ntasks [OF inv] ends prio nb sl ring unfolding ring_ok_def by blast
qed

theorem pointers_valid_witness:
  "link_prev (tcbs ex_kernel 2) = Some 1 \<and> delay_prev (tcbs ex_kernel 5) = Some 3"
proof -
  note v = pointers_valid [OF ex_sys_ok reach_refl, THEN conjunct2, THEN conjunct2, THEN conjunct2]
  have "link_next (tcbs ex_kernel 1) = Some 2" "delay_next (tcbs ex_kernel 3) = Some 5"
    "in_delay_list (tcbs ex_kernel 3)" by (simp_all add: ex_tcb_def)
  then show ?thesis
    using v [THEN conjunct1, rule_format, of 1 2] v [THEN conjunct2, THEN conjunct1, rule_format, of 3 5] by simp
qed

text \<open>C9 Mutual exclusion: in every reachable state the list of mutexes that a task holds contains
  exactly the mutexes whose owner it is, each once; so no mutex is held by two tasks.\<close>

theorem mutual_exclusion:
  assumes "sys_ok k0" and "reach k0 k"
  shows "\<exists>H. (\<forall>t. held_chain k (held_mutexes (tcbs k t)) (H t) \<and> distinct (H t)) \<and>
         (\<forall>m t. m \<in> set (H t) \<longleftrightarrow> owner (mutexes k m) = Some t)"
proof -
  obtain L W H where "objects_ok k L H" using reach_sys_ok [OF assms(2,1)] by (auto simp: sys_ok_def)
  then have "held_lists k H" "owners k H" using objects_okD(6) by (auto simp: mutexes_ok_def)
  then show ?thesis by (intro exI [of _ H]) (simp add: held_lists_def owners_def)
qed

theorem mutual_exclusion_witness:
  "\<exists>H :: tid \<Rightarrow> mutex_id list. held_chain ex_kernel (held_mutexes (tcbs ex_kernel 0)) (H 0) \<and> 0 \<in> set (H 0)"
proof -
  obtain H where "(\<forall>t. held_chain ex_kernel (held_mutexes (tcbs ex_kernel t)) (H t) \<and> distinct (H t)) \<and>
      (\<forall>m t. m \<in> set (H t) \<longleftrightarrow> owner (mutexes ex_kernel m) = Some t)"
    using mutual_exclusion [OF ex_sys_ok reach_refl] by (rule exE)
  note H = conjunct1 [OF this, rule_format, of 0] conjunct2 [OF this, rule_format, of 0 0]
  show ?thesis by (intro exI [of _ H] conjI) (use H in simp_all)
qed

subsection \<open>Preemption\<close>

text \<open>C3 Preemption is never forgotten: after the start (which leaves a switch pending) and after every
  sequence of calls, ticks, switches and interrupt handlers that ask for a switch when the call they
  made reports it, no ready task is more urgent than the running one unless a switch is pending.\<close>

theorem preemption_never_forgotten:
  assumes "sys_ok k0" and "started k0" and "prompt k0" and "obeying_run k0 k"
    and "\<not> pendsv k" and "current_task k = Some c" and "state (tcbs k c) = Running"
  shows "\<forall>s < ntasks k. state (tcbs k s) = Ready \<longrightarrow> priority (tcbs k s) \<le> priority (tcbs k c)"
  using obeying_prompt [OF assms(4,1-3)] promptD [OF _ assms(5-7)] by blast

theorem preemption_never_forgotten_witness:
  "\<exists>k. exec (Give 0) ex_kernel = Inr k \<and> \<not> pendsv k \<and> state (tcbs k 3) = Ready \<and>
     priority (tcbs k 3) \<le> priority (tcbs k 0)"
proof -
  have low: "\<not> outranks_current 3 ex_kernel" by (simp add: outranks_current_def)
  obtain k1 where k1: "give_locked 0 ex_kernel = Inr (False, k1)"
    "plain k1 = plain (upd_tcb 3 (\<lambda>b. b\<lparr>state := Ready, wait_list := None\<rparr>) ex_kernel)"
    using give_locked_some [OF ex_kinv, of 0 3 "[]"] low by auto
  note f = plainD [OF k1(2)]
  have run: "exec (Give 0) ex_kernel = Inr k1" using k1(1) by (simp add: give_def)
  have nt: "ntasks k1 = 11" by (simp add: f ntasks_def)
  have "state (ex_tcb s) = Ready \<Longrightarrow> s < 11 \<Longrightarrow> priority (ex_tcb s) \<le> 3" for s
    by (auto simp: ex_tcb_def initial_tcb_def)
  then have "prompt ex_kernel" by (intro promptI) simp
  moreover have "obeying_run ex_kernel k1"
    by (rule obeying_call [OF obeying_refl kstep [OF _ run]]) simp_all
  ultimately have "\<forall>s < ntasks k1. state (tcbs k1 s) = Ready \<longrightarrow> priority (tcbs k1 s) \<le> priority (tcbs k1 0)"
    by (intro preemption_never_forgotten [OF ex_sys_ok]) (simp_all add: f)
  from this [rule_format, of 3] show ?thesis using run nt by (simp add: f)
qed

subsection \<open>The idle task\<close>

text \<open>C4 There is always a task to run: after the start, as long as nobody suspends or deletes the idle
  task and it makes no blocking call, it is Ready or Running in every state that any sequence of
  calls, interrupts and switches reaches, so that the switch handler, entered with an intact stack
  that has room for the frame, always finds a task and runs it.\<close>

theorem idle_task_keeps_running:
  assumes "sys_ok k" and "allowed (Start site buf construct tramp) k"
    and "start site buf construct tramp k = Inr k0" and "spared_run (ntasks k) k0 k'"
    and "psp k' = 0 \<or> 100 \<le> psp k'" and "canary_intact (enter_switch c k')"
  shows "(state (tcbs k' (ntasks k)) = Ready \<or> state (tcbs k' (ntasks k)) = Running) \<and>
         (\<exists>c' k'' n. PendSV_Handler c k' = Inr (c', k'') \<and> current_task k'' = Some n \<and>
            state (tcbs k'' n) = Running)"
proof -
  let ?i = "ntasks k"
  obtain L W H where "kinv k L W" "objects_ok k L H" using assms(1) by (auto simp: sys_ok_def)
  from start_ok [OF this, of site buf construct tramp] assms(2,3) have "sys_ok k0" "runnable ?i (current_task k0) k0"
    by (auto simp: runnable_def)
  from idle.run_lasting [OF assms(4) this] have ok: "sys_ok k'" and r: "runnable ?i (current_task k') k'"
    by simp_all
  then obtain L' W' where inv: "kinv k' L' W'" by (auto simp: sys_ok_def)
  have "may_switch c k'" using r assms(5,6) by (auto simp: may_switch_def can_run_def runnable_def)
  from PendSV_ok [OF inv this] obtain k1 n where
    k1: "PendSV_Handler c k' = Inr (fst (restore_context c k1), (snd (restore_context c k1))\<lparr>primask := False\<rparr>)"
    "plain k1 = plain (switch_to n (enter_switch c k'))" by blast
  have "current_task k1 = Some n" "state (tcbs k1 n) = Running"
    using plainD(2,15) [OF k1(2)] by (simp_all add: switch_to_def Let_def)
  then show ?thesis using r k1(1) by (simp add: runnable_def restore_context_fields)
qed

theorem idle_task_keeps_running_witness:
  "\<exists>k0 c' k''. start 9 2000 (\<lambda>_ m. m) 64 ex_boot = Inr k0 \<and> PendSV_Handler ex_cpu k0 = Inr (c', k'')"
proof -
  have al: "allowed (Start 9 2000 (\<lambda>_ m. m) 64) ex_boot"
    by (simp add: ex_boot_def boot_def ntasks_def kMaxTasks_def reload_ok_def systick_reload_def
        kTickRateMs_def kCpuHz_def)
  have ok: "sys_ok ex_boot" unfolding ex_boot_def by (rule boot_sys_ok [OF ex_rings])
  then obtain L W H where "kinv ex_boot L W" "objects_ok ex_boot L H" by (auto simp: sys_ok_def)
  from start_ok [OF this, of 9 2000 "\<lambda>_ m. m" 64] al obtain k0 where k0: "start 9 2000 (\<lambda>_ m. m) 64 ex_boot = Inr k0"
    "current_task k0 = None" "psp k0 = 0" by auto
  have "canary_intact (enter_switch ex_cpu k0)" using k0(2) by (simp add: canary_intact_def)
  then show ?thesis
    using idle_task_keeps_running [OF ok al k0(1) tame_refl, of ex_cpu] k0(1,3) by auto
qed

end
