(* ===== verification/Time_Slices.thy ===== *)
theory Time_Slices
  imports Kernel_Run
begin

text \<open>
  Time slices: the application computes until the next tick; after the tick the switch is taken
  if it is pending, and only then. \<open>turn\<close> is the state between two slices while the tasks that share
  the highest priority run one after another: the task running, those behind it in line, and
  for how many ticks nobody else of their priority or above wakes up.
\<close>

inductive slices :: "kernel \<Rightarrow> tid list \<Rightarrow> kernel \<Rightarrow> bool" where
  slices_none: "slices k [] k"
| slices_more: "\<lbrakk>kstep k (App m a) k1; kstep k1 Tick k2;
    if pendsv k2 then kstep k2 (Switch c) k3 else k3 = k2; current_task k3 = Some n; slices k3 ns k'\<rbrakk> \<Longrightarrow> slices k (n # ns) k'"

definition turn :: "prio \<Rightarrow> nat \<Rightarrow> kernel \<Rightarrow> tid \<Rightarrow> tid list \<Rightarrow> bool" where
  "turn p d k t ts \<longleftrightarrow> (\<exists>L W. kinv k L W \<and> current_task k = Some t \<and> state (tcbs k t) = Running \<and>
     priority (tcbs k t) = p \<and> L (Ready_List p) = ts \<and> (\<forall>q > p. L (Ready_List q) = []) \<and>
     (\<forall>s n. (s, n) \<in> set W \<longrightarrow> n \<le> d \<longrightarrow> priority (tcbs k s) < p))"

lemma turnE:
  assumes "turn p d k t ts"
  obtains L W where "kinv k L W" "current_task k = Some t" "state (tcbs k t) = Running"
    "priority (tcbs k t) = p" "L (Ready_List p) = ts" "\<forall>q > p. L (Ready_List q) = []"
    "\<forall>s n. (s, n) \<in> set W \<longrightarrow> n \<le> d \<longrightarrow> priority (tcbs k s) < p"
  using assms unfolding turn_def by blast

lemma fold_waken_ready:
  assumes "\<And>s. s \<in> set T \<Longrightarrow> priority (tcbs k s) \<noteq> q \<and> wait_list (tcbs k s) \<noteq> Some (Ready_List q)"
  shows "fold (waken k) T L (Ready_List q) = L (Ready_List q)"
  using assms
proof (induction T arbitrary: L)
  case (Cons s T)
  have "waken k s L (Ready_List q) = L (Ready_List q)"
    using Cons.prems [of s] by (auto simp: waken_def Let_def split: option.split)
  then show ?case using Cons by simp
qed simp

lemma tick_turn:
  assumes turn: "turn p (Suc d) k t ts" and tick: "exec Tick k = Inr k'"
  shows "turn p d k' t ts" and "ts \<noteq> [] \<Longrightarrow> pendsv k'" and "mem k' = mem k" and "psp k' = psp k"
    and "primask k' = primask k" and "stack_base (tcbs k' t) = stack_base (tcbs k t)"
proof -
  obtain L W where inv: "kinv k L W" and t: "current_task k = Some t" "state (tcbs k t) = Running"
      "priority (tcbs k t) = p" "L (Ready_List p) = ts" "\<forall>q > p. L (Ready_List q) = []"
    and W: "\<forall>s n. (s, n) \<in> set W \<longrightarrow> n \<le> Suc d \<longrightarrow> priority (tcbs k s) < p"
    by (rule turnE [OF turn])
  let ?T = "expired (one_tick W)"
  let ?L = "fold (waken k) ?T L"
  obtain k1 where k1: "sched_tick k = Inr k1"
    "plain k1 = plain (yield_if (preempt_due k ?L) (woken_set (set ?T) (k\<lparr>tick_count := tick_count k + 1\<rparr>)))"
    "kinv k1 ?L (pending (one_tick W))"
    using sched_tick_ok [OF inv refl refl] by blast
  have k': "k1 = k'" using tick k1(1) by (simp add: SysTick_Handler_def rtos_tick_handler_def acrtos_tick_hook_def)
  note f = plainD [OF k1(2)]
  have T: "\<exists>n \<le> Suc d. (s, n) \<in> set W" if s: "s \<in> set ?T" for s
  proof -
    obtain n where "(s, n) \<in> set W" "n - 1 = 0" using s by (auto simp: expired_def one_tick_def)
    then show ?thesis by (intro exI [of _ n]) simp
  qed
  have low: "?L (Ready_List q) = L (Ready_List q)" if "p \<le> q" for q
  proof (rule fold_waken_ready)
    fix s assume "s \<in> set ?T"
    then obtain n where s: "(s, n) \<in> set W" "n \<le> Suc d" using T by blast
    then have "priority (tcbs k s) \<noteq> q" using W that by fastforce
    moreover have "wait_list (tcbs k s) \<noteq> Some (Ready_List q)"
      using task_ok_wait_list [OF kinv_task [OF inv kinv_sleeper [OF inv s(1)]]] by fastforce
    ultimately show "priority (tcbs k s) \<noteq> q \<and> wait_list (tcbs k s) \<noteq> Some (Ready_List q)" by simp
  qed
  have "t \<notin> set ?T" using T W t(3) by fastforce
  then have t': "state (tcbs k1 t) = Running" using t(2) by (simp add: f woken_set_def)
  have pr: "priority (tcbs k1 s) = priority (tcbs k s)" for s by (simp add: f woken_set_def woken_def)
  have "priority (tcbs k1 s) < p" if "(s, n) \<in> set (pending (one_tick W))" "n \<le> d" for s n
    using that W by (force simp: pr pending_def one_tick_def)
  then show "turn p d k' t ts"
    unfolding turn_def k' [symmetric]
    using k1(3) t t' by (intro exI [of _ ?L] exI [of _ "pending (one_tick W)"]) (auto simp: low pr f)
  show "pendsv k'" if "ts \<noteq> []"
    using that t low [of p] by (auto simp: k' [symmetric] f preempt_due_def)
  show "mem k' = mem k" "psp k' = psp k" "primask k' = primask k"
    "stack_base (tcbs k' t) = stack_base (tcbs k t)"
    by (simp_all add: k' [symmetric] f woken_set_def woken_def yield_if_def task_yield_def)
qed

lemma switch_turn:
  assumes turn: "turn p d k t ts" and may: "may_switch c k" and run: "exec (Switch c) k = Inr k'"
    and line: "ts @ [t] = n # ts'"
  shows "turn p d k' n ts'" and "current_task k' = Some n"
proof -
  obtain L W where inv: "kinv k L W" and t: "current_task k = Some t" "state (tcbs k t) = Running"
      "priority (tcbs k t) = p" "L (Ready_List p) = ts" "\<forall>q > p. L (Ready_List q) = []"
    and W: "\<forall>s n. (s, n) \<in> set W \<longrightarrow> n \<le> d \<longrightarrow> priority (tcbs k s) < p"
    by (rule turnE [OF turn])
  have r: "requeue_current (at_entry k) L = L(Ready_List p := n # ts')"
    using t(1-4) line by (simp add: requeue_current_def enqueue_def Let_def)
  have h: "highest_ready (L(Ready_List p := n # ts')) p"
    using t(5) by (auto simp: highest_ready_def not_le [symmetric])
  obtain k1 where k1: "PendSV_Handler c (at_entry k) = Inr (fst (restore_context c k1), (snd (restore_context c k1))\<lparr>primask := False\<rparr>)"
    "plain k1 = plain (switch_to n (enter_switch c (at_entry k)))" "kinv k1 (L(Ready_List p := ts')) W"
    using PendSV_next [of "at_entry k" L W c p n ts', unfolded r, OF _ _ h] inv may
    by (auto simp: may_switch_def)
  have k': "k' = (snd (restore_context c k1))\<lparr>primask := False\<rparr>" using k1(1) run by simp
  have f: "current_task k' = Some n" "state (tcbs k' n) = Running" "priority (tcbs k' s) = priority (tcbs k s)" for s
    by (simp_all add: k' restore_context_fields plainD [OF k1(2)] switch_to_def save_current_def Let_def
        split: option.split)
  have inv': "kinv k' (L(Ready_List p := ts')) W" using k1(3) by (simp add: k')
  have "n = t \<or> n \<in> set ts" using line by (cases ts) auto
  then have "priority (tcbs k n) = p"
    using t(3,4) kinv_ready_member(3) [OF inv, of n p] by auto
  then show "turn p d k' n ts'"
    unfolding turn_def using inv' t(5) W
    by (intro exI [of _ "L(Ready_List p := ts')"] exI [of _ W]) (auto simp: f)
  show "current_task k' = Some n" by (rule f)
qed

lemma app_turn: "turn p d (k\<lparr>mem := m, psp := a\<rparr>) t ts = turn p d k t ts"
  by (simp add: turn_def)

text \<open>After a tick that asks for the switch whenever somebody is in line.\<close>

lemma taken_turn:
  assumes turn: "turn p d k t ts" and asked: "ts \<noteq> [] \<Longrightarrow> pendsv k"
    and step: "if pendsv k then kstep k (Switch c) k' else k' = k" and line: "ts @ [t] = n # ts'"
  shows "turn p d k' n ts' \<and> current_task k' = Some n"
proof (cases "pendsv k")
  case True
  then have "may_switch c k" "exec (Switch c) k = Inr k'" using step by (simp_all add: kstep_iff)
  then show ?thesis using switch_turn [OF turn _ _ line] by blast
next
  case False
  then have "ts = []" "k' = k" using asked step by auto
  then show ?thesis using turn line by (auto elim: turnE)
qed

text \<open>The tasks run in the order of the line, and start over.\<close>

lemma slices_turn:
  assumes "slices k ns k'" and "turn p (length ns) k t ts"
  shows "\<forall>i < length ns. ns ! i = (ts @ [t]) ! (i mod Suc (length ts))"
  using assms
proof (induction arbitrary: t ts rule: slices.induct)
  case (slices_more k m a k1 k2 c k3 n ns k')
  obtain n' ts' where nx: "ts @ [t] = n' # ts'" by (cases ts) auto
  have "turn p (Suc (length ns)) k1 t ts"
    using slices_more.hyps(1) slices_more.prems by (auto simp add: kstep_iff app_turn)
  moreover have "exec Tick k1 = Inr k2" using slices_more.hyps(2) by (simp only: kstep_iff)
  ultimately have "turn p (length ns) k2 t ts" "ts \<noteq> [] \<Longrightarrow> pendsv k2" by (rule tick_turn(1,2))+
  then have k3: "turn p (length ns) k3 n' ts'" "current_task k3 = Some n'"
    using taken_turn [OF _ _ slices_more.hyps(3) nx] by blast+
  have n: "n' = n" using k3(2) slices_more.hyps(4) by simp
  have len: "length ts' = length ts" using arg_cong [OF nx, of length] by simp
  have rot: "ts' @ [n] = rotate1 (ts @ [t])" unfolding nx n by simp
  show ?case
  proof (intro allI impI)
    fix i assume i: "i < length (n # ns)"
    show "(n # ns) ! i = (ts @ [t]) ! (i mod Suc (length ts))"
    proof (cases i)
      case 0
      then show ?thesis using nx n by simp
    next
      case (Suc j)
      then have "ns ! j = (ts' @ [n]) ! (j mod Suc (length ts))"
        using slices_more.IH [OF k3(1)] i len n by simp
      also have "\<dots> = (ts @ [t]) ! (Suc (j mod Suc (length ts)) mod Suc (length ts))"
        unfolding rot by (subst nth_rotate1) simp_all
      also have "Suc (j mod Suc (length ts)) mod Suc (length ts) = i mod Suc (length ts)"
        by (simp add: Suc mod_Suc_eq)
      finally show ?thesis using Suc by simp
    qed
  qed
qed simp

end
