(* ===== verification/Props_Scheduler.thy ===== *)
theory Props_Scheduler
  imports Example_Kernel Time_Slices
begin

text \<open>
  The properties of the scheduler: the choice of the next task, the tick, sleeping, and the
  methods that move tasks between states. Each is followed by its instance on the state of
  theory Example_Kernel.
\<close>

subsection \<open>The context switch\<close>

lemma switch_to_fields:
  "current_task (switch_to n k) = Some n" "state (tcbs (switch_to n k) n) = Running"
  "priority (tcbs (switch_to n k) s) = priority (tcbs k s)"
  "s \<noteq> n \<Longrightarrow> state (tcbs (switch_to n k) s) =
     (if current_task k = Some s \<and> state (tcbs k s) = Running then Ready else state (tcbs k s))"
  "task_count (switch_to n k) = task_count k"
  by (auto simp: switch_to_def Let_def save_current_def split: option.splits)

text \<open>C11 The context switch: if the stack of the running task is intact and some task can run,
  \<open>schedule_next_task\<close> returns, keeps the kernel invariant, and leaves the CPU to a task whose
  priority is at least that of every task that is Ready or Running.\<close>

theorem switch_runs_highest:
  assumes "kinv k L W" and "canary_intact k"
    and "r < ntasks k" and "state (tcbs k r) = Ready \<or> state (tcbs k r) = Running"
  shows "\<exists>k' L' n. schedule_next_task k = Inr k' \<and> kinv k' L' W \<and>
           current_task k' = Some n \<and> state (tcbs k' n) = Running \<and>
           (\<forall>s < ntasks k. state (tcbs k s) = Ready \<or> state (tcbs k s) = Running \<longrightarrow>
              priority (tcbs k s) \<le> priority (tcbs k n))"
proof -
  let ?L = "requeue_current k L"
  note inL = requeued [OF assms(1)]
  obtain p n ts where p: "highest_ready ?L p" and n: "?L (Ready_List p) = n # ts"
    using next_task_exists [OF assms] by blast
  obtain k' where k': "schedule_next_task k = Inr k'" "plain k' = plain (switch_to n k)"
    "kinv k' (?L(Ready_List p := ts)) W"
    using schedule_next_task_ok [OF assms(1,2) p n] by blast
  note f = plainD [OF k'(2)]
  have "priority (tcbs k n) = p"
  proof -
    have nin: "n \<in> set (?L (Ready_List p))" using n by simp
    obtain k1 where k1: "plain k1 = plain (save_current k)" "kinv k1 ?L W"
      using save_step_ok [OF assms(1,2)] by blast
    have "priority (tcbs k1 n) = p"
      using task_ok_ready [OF kinv_task [OF k1(2) kinv_member [OF k1(2) nin]]] nin by simp
    moreover have "priority (tcbs k1 n) = priority (tcbs (save_current k) n)" by (rule plainD(5) [OF k1(1)])
    moreover have "priority (tcbs (save_current k) n) = priority (tcbs k n)"
      by (simp add: save_current_def split: option.splits)
    ultimately show ?thesis by simp
  qed
  moreover have "priority (tcbs k s) \<le> p"
    if "s < ntasks k" "state (tcbs k s) = Ready \<or> state (tcbs k s) = Running" for s
    using p inL [OF that] unfolding highest_ready_def by (metis empty_iff list.set(1))
  ultimately show ?thesis
    using k'(1,3) by (intro exI [of _ k'] exI [of _ "?L(Ready_List p := ts)"] exI [of _ n])
      (auto simp: f switch_to_fields)
qed

theorem switch_runs_highest_witness:
  "\<exists>k' n. schedule_next_task ex_kernel = Inr k' \<and> current_task k' = Some n \<and>
     state (tcbs k' n) = Running \<and> 3 \<le> priority (tcbs ex_kernel n)"
proof -
  obtain k' n where "schedule_next_task ex_kernel = Inr k'" "current_task k' = Some n"
    "state (tcbs k' n) = Running"
    and top: "\<And>s. s < ntasks ex_kernel \<Longrightarrow>
      state (tcbs ex_kernel s) = Ready \<or> state (tcbs ex_kernel s) = Running \<Longrightarrow>
      priority (tcbs ex_kernel s) \<le> priority (tcbs ex_kernel n)"
    using switch_runs_highest [OF ex_kinv, of 1] by (auto simp: canary_intact_def)
  then show ?thesis using top [of 8] by auto
qed

text \<open>One switch among equals: the oldest of the ready tasks of the priority runs next and the running
  task goes behind the others.\<close>

theorem round_robin:
  assumes "kinv k L W" and "canary_intact k"
    and "current_task k = Some t" and "state (tcbs k t) = Running"
    and "p = priority (tcbs k t)" and "L (Ready_List p) = n # ts"
    and "\<And>q. p < q \<Longrightarrow> L (Ready_List q) = []"
  shows "\<exists>k'. schedule_next_task k = Inr k' \<and> current_task k' = Some n \<and>
           state (tcbs k' t) = Ready \<and> sp (tcbs k' t) = current_sp k \<and>
           kinv k' (L(Ready_List p := ts @ [t])) W"
proof -
  let ?L = "requeue_current k L"
  have L: "?L = L(Ready_List p := n # ts @ [t])"
    using assms(3-6) by (simp add: requeue_current_def enqueue_def Let_def)
  have "highest_ready ?L p"
    unfolding highest_ready_def L using assms(7) by (auto simp: not_le [symmetric])
  from schedule_next_task_ok [OF assms(1,2) this] obtain k' where k': "schedule_next_task k = Inr k'"
    "plain k' = plain (switch_to n k)" "kinv k' (L(Ready_List p := ts @ [t])) W"
    unfolding L by auto
  have "state (tcbs k n) = Ready" using kinv_ready_member(2) [OF assms(1), of n p] assms(6) by simp
  then have "n \<noteq> t" using assms(4) by auto
  then have "state (tcbs k' t) = Ready" "sp (tcbs k' t) = current_sp k" "current_task k' = Some n"
    using assms(3,4) plainD(1,2,15) [OF k'(2)]
    by (auto simp: switch_to_def save_current_def Let_def)
  then show ?thesis using k'(1,3) by blast
qed

theorem round_robin_witness:
  "\<exists>k'. schedule_next_task ex_kernel = Inr k' \<and> current_task k' = Some 8 \<and>
     state (tcbs k' 0) = Ready \<and> sp (tcbs k' 0) = current_sp ex_kernel \<and>
     kinv k' (ex_L(Ready_List 3 := [] @ [0])) ex_W"
  by (rule round_robin [OF ex_kinv]) (auto simp: canary_intact_def)

text \<open>C10 Round robin: while no task of a higher priority is ready and none of that priority or above
  wakes up, the tasks that share the highest priority take turns of one tick each, in the order of
  their ready list and starting over after the last, whatever they do to memory. The run takes the
  switch after a tick if it is pending, and goes on with the same task if not.\<close>

theorem equals_take_turns:
  assumes "kinv k L W" and "current_task k = Some t" and "state (tcbs k t) = Running"
    and "ts = L (Ready_List (priority (tcbs k t)))"
    and "\<And>q. priority (tcbs k t) < q \<Longrightarrow> L (Ready_List q) = []"
    and "\<And>s n. (s, n) \<in> set W \<Longrightarrow> n \<le> length ns \<Longrightarrow> priority (tcbs k s) < priority (tcbs k t)"
    and "slices k ns k'"
  shows "\<forall>i < length ns. ns ! i = (ts @ [t]) ! (i mod Suc (length ts))"
  by (rule slices_turn [OF assms(7)], unfold turn_def) (use assms(1-6) in blast)

theorem equals_take_turns_witness:
  "\<exists>k'. slices ex_kernel [8] k'"
proof -
  let ?k1 = "ex_kernel\<lparr>mem := store32 1000 kStackCanary ex_mem, psp := 1900\<rparr>"
  have s1: "kstep ex_kernel (App (store32 1000 kStackCanary ex_mem) 1900) ?k1" by (simp add: kstep_iff)
  have ok1: "sys_ok ?k1" using ex_sys_ok by simp
  obtain k2 where k2: "kstep ?k1 Tick k2" "sys_ok k2" using kstep_progress [OF ok1, of Tick] by auto
  have hi: "ex_L (Ready_List q) = []" if "3 < q" for q using that by auto
  have W: "priority (ex_tcb s) < 3" if "(s, n) \<in> set ex_W" "n \<le> 1" for s n using that by (auto simp: ex_W_def)
  have "turn 3 (Suc 0) ex_kernel 0 [8]"
    unfolding turn_def using ex_kinv hi W by (intro exI [of _ ex_L] exI [of _ ex_W]) auto
  then have "turn 3 (Suc 0) ?k1 0 [8]" by (simp add: app_turn)
  note t = tick_turn [OF this, of k2]
  have run: "exec Tick ?k1 = Inr k2" using k2(1) by (simp only: kstep_iff)
  obtain L W where "kinv k2 L W" and cur: "current_task k2 = Some 0" "state (tcbs k2 0) = Running"
    by (rule turnE [OF t(1) [OF run]])
  then have "0 < ntasks k2" by (auto intro: kinv_current)
  then have "can_run k2" using cur unfolding can_run_def by blast
  moreover have "load32 1000 (mem (enter_switch ex_cpu k2)) = kStackCanary"
    using enter_switch_load [of k2 1000 ex_cpu] t(3,4) [OF run] by simp
  ultimately have "allowed (Switch ex_cpu) k2"
    using t(2-6) [OF run] cur by (simp add: may_switch_def canary_intact_def)
  from kstep_progress [OF k2(2) this] obtain k3 where k3: "kstep k2 (Switch ex_cpu) k3" by blast
  have "current_task k3 = Some 8"
    using switch_turn(2) [OF t(1) [OF run], of ex_cpu k3 8 "[0]"] k3 by (simp add: kstep_iff)
  then obtain n where n: "current_task k3 = Some n" by simp
  have "if pendsv k2 then kstep k2 (Switch ex_cpu) k3 else k3 = k2" using t(2) [OF run] k3 by simp
  then have sl: "slices ex_kernel [n] k3" by (rule slices_more [OF s1 k2(1) _ n slices_none])
  have "[n] ! 0 = ([8] @ [0]) ! (0 mod Suc (length [8 :: tid]))"
    by (rule equals_take_turns [OF ex_kinv _ _ _ _ _ sl, rule_format]) (use hi W in auto)
  then show ?thesis using sl by auto
qed

text \<open>Stack overflow: with assertions on, a context switch away from a task whose lowest stack
  word is no longer the canary is refused.\<close>

theorem overflow_caught:
  assumes "use_assert k" and "current_task k = Some t"
    and "load32 (stack_base (tcbs k t)) (mem k) \<noteq> kStackCanary"
  shows "schedule_next_task k = Inl AssertFailed"
  using stack_overflow_caught [of k] assms by (simp add: canary_intact_def)

theorem overflow_caught_witness:
  "schedule_next_task (ex_kernel\<lparr>mem := \<lambda>_. 0\<rparr>) = Inl AssertFailed"
  by (rule overflow_caught [where t = 0]) (simp_all add: load32_def kStackCanary_def)

subsection \<open>Time\<close>

text \<open>C12 The tick: time advances by one modulo 2^32; the tasks whose remaining time was one tick
  become Ready, those that also waited on a list leave it with \<open>timeout_expired\<close> set; no other
  task changes state; every other time limit is one tick shorter; and a context switch is
  requested exactly when a ready task has at least the priority of the running one.\<close>

theorem tick_exact:
  assumes "kinv k L W" and "current_task k = Some c"
  shows "\<exists>k' L'. sched_tick k = Inr k' \<and> tick_count k' = tick_count k + 1 \<and>
           kinv k' L' (map (\<lambda>(t, n). (t, n - 1)) (filter (\<lambda>(t, n). n \<noteq> 1) W)) \<and>
           (\<forall>t. state (tcbs k' t) = (if (t, 1) \<in> set W then Ready else state (tcbs k t))) \<and>
           (\<forall>t. (t, 1) \<in> set W \<longrightarrow> wait_list (tcbs k' t) = None \<and>
              timeout_expired (tcbs k' t) = (wait_list (tcbs k t) \<noteq> None \<or> timeout_expired (tcbs k t))) \<and>
           (pendsv k' \<longleftrightarrow> pendsv k \<or>
              (\<exists>t < ntasks k'. state (tcbs k' t) = Ready \<and> priority (tcbs k c) \<le> priority (tcbs k' t)))"
proof -
  let ?T = "expired (one_tick W)" and ?L = "fold (waken k) (expired (one_tick W)) L"
  obtain k' where k': "sched_tick k = Inr k'"
    "plain k' = plain (yield_if (preempt_due k ?L) (woken_set (set ?T) (k\<lparr>tick_count := tick_count k + 1\<rparr>)))"
    "kinv k' ?L (pending (one_tick W))"
    using sched_tick_ok [OF assms(1) refl refl] by blast
  note f = plainD [OF k'(2)]
  have pos: "0 < n" if "(t, n) \<in> set W" for t n
    using kinv_awake [OF assms(1)] that by (auto simp: awake_none_def)
  have T: "t \<in> set ?T \<longleftrightarrow> (t, 1) \<in> set W" for t
  proof -
    have "t \<in> set ?T \<longleftrightarrow> (\<exists>n. (t, n) \<in> set W \<and> n - 1 = 0)"
      by (force simp: expired_def one_tick_def)
    then show ?thesis using pos by (metis One_nat_def Suc_pred diff_self_eq_0)
  qed
  have P: "pending (one_tick W) = map (\<lambda>(t, n). (t, n - 1)) (filter (\<lambda>(t, n). n \<noteq> 1) W)"
  proof -
    have "pending (one_tick W) = map (\<lambda>(t, n). (t, n - 1)) (filter (\<lambda>(t, n). n - 1 \<noteq> 0) W)"
      by (simp add: pending_def one_tick_def filter_map comp_def case_prod_unfold not_le)
    also have "filter (\<lambda>(t, n). n - 1 \<noteq> 0) W = filter (\<lambda>(t, n). n \<noteq> 1) W"
    proof (rule filter_cong [OF refl])
      fix w assume "w \<in> set W"
      then show "(case w of (t, n) \<Rightarrow> n - 1 \<noteq> 0) = (case w of (t, n) \<Rightarrow> n \<noteq> 1)"
        using pos [of "fst w" "snd w"] by (cases w) auto
    qed
    finally show ?thesis .
  qed
  have rd: "(\<exists>p \<ge> priority (tcbs k c). ?L (Ready_List p) \<noteq> []) \<longleftrightarrow>
      (\<exists>t < ntasks k'. state (tcbs k' t) = Ready \<and> priority (tcbs k c) \<le> priority (tcbs k' t))"
    using kinv_ready_member [OF k'(3)] task_ok_ready [OF kinv_task [OF k'(3)]]
    by (metis (no_types, lifting) empty_iff hd_in_set list.set(1))
  have "state (tcbs k' t) = (if (t, 1) \<in> set W then Ready else state (tcbs k t))" for t
    by (simp add: f T woken_set_def woken_def)
  moreover have "wait_list (tcbs k' t) = None \<and>
      timeout_expired (tcbs k' t) = (wait_list (tcbs k t) \<noteq> None \<or> timeout_expired (tcbs k t))"
    if "(t, 1) \<in> set W" for t
    using that by (simp add: f T woken_set_def woken_def)
  moreover have "pendsv k' \<longleftrightarrow> pendsv k \<or>
      (\<exists>t < ntasks k'. state (tcbs k' t) = Ready \<and> priority (tcbs k c) \<le> priority (tcbs k' t))"
    using assms(2) unfolding rd [symmetric] by (auto simp: f preempt_due_def woken_set_def)
  moreover have "tick_count k' = tick_count k + 1" by (simp add: f)
  ultimately show ?thesis using k'(1,3) unfolding P by blast
qed

theorem tick_exact_witness:
  "\<exists>k'. sched_tick ex_kernel = Inr k' \<and> tick_count k' = 0xFFFFFFFF \<and>
     state (tcbs k' 3) = Ready \<and> state (tcbs k' 5) = Blocked"
proof -
  obtain k' where "sched_tick ex_kernel = Inr k'" "tick_count k' = tick_count ex_kernel + 1"
    "\<forall>t. state (tcbs k' t) = (if (t, 1) \<in> set ex_W then Ready else state (tcbs ex_kernel t))"
    using tick_exact [OF ex_kinv ex_kernel_simps(4)] by blast
  then show ?thesis by (simp add: ex_W_def)
qed

text \<open>C19 The length of a delay in ticks: \<open>delay_ms(n)\<close> with n > 0 keeps the task Blocked for the next
  n - 1 ticks, and the n-th tick, which brings the tick counter to its value at the call plus n,
  makes it Ready, however many other tasks sleep or wait meanwhile. The first of the n ticks may
  follow the call at once, so in time the delay is between n - 1 and n tick periods, where
  scheduler.hpp promises at least n milliseconds.\<close>

theorem delay_length:
  assumes "kinv k L W" and "current_task k = Some t" and "state (tcbs k t) = Running" and "n \<noteq> 0"
  shows "\<exists>k'. delay_ms n k = Inr k' \<and> pendsv k' \<and>
           (\<forall>m < unat n. \<exists>k''. ticks m k' = Inr k'' \<and> state (tcbs k'' t) = Blocked) \<and>
           (\<exists>k''. ticks (unat n) k' = Inr k'' \<and> state (tcbs k'' t) = Ready \<and>
              tick_count k'' = tick_count k + n)"
proof -
  obtain k' where k': "delay_ms n k = Inr k'" "plain k' = plain (task_yield (set_state t Blocked k))"
    "kinv k' L (insert_wake t (unat n) W)"
    using delay_ms_ok [OF assms] by blast
  have "pendsv k'" "tick_count k' = tick_count k" using plainD(18,29) [OF k'(2)] by (simp_all add: task_yield_def)
  then show ?thesis using k'(1) ticks_sleep [OF k'(3), of t "unat n"] by auto
qed

theorem delay_length_witness:
  "\<exists>k' k2 k3. delay_ms 3 ex_kernel = Inr k' \<and> ticks 2 k' = Inr k2 \<and> state (tcbs k2 0) = Blocked \<and>
     ticks 3 k' = Inr k3 \<and> state (tcbs k3 0) = Ready"
proof -
  obtain k' where k': "delay_ms 3 ex_kernel = Inr k'"
    "\<forall>m < unat (3 :: tick). \<exists>k''. ticks m k' = Inr k'' \<and> state (tcbs k'' 0) = Blocked"
    "\<exists>k''. ticks (unat (3 :: tick)) k' = Inr k'' \<and> state (tcbs k'' 0) = Ready \<and>
       tick_count k'' = tick_count ex_kernel + 3"
    using delay_length [OF ex_kinv, of 0 3] by auto
  show ?thesis using k'(1,3) k'(2) [rule_format, of 2] by auto
qed

text \<open>
  The shortest delay: called just before a tick, \<open>delay_ms(1)\<close> is over when this tick comes.
\<close>

lemma shortest_delay:
  assumes "kinv k L W" and "current_task k = Some t" and "state (tcbs k t) = Running"
  shows "\<exists>k' k''. delay_ms 1 k = Inr k' \<and> sched_tick k' = Inr k'' \<and> state (tcbs k'' t) = Ready"
proof -
  obtain k' where k': "delay_ms 1 k = Inr k'" "kinv k' L (insert_wake t 1 W)"
    using delay_ms_ok [OF assms, of 1] by auto
  from ticks_sleep [OF k'(2), of t 1] k'(1) show ?thesis by (auto simp: andthen_eq_Inr)
qed

text \<open>C20 \<open>delay_until\<close> over the wrap-around of the tick counter: a wake time that is ahead of the
  counter in signed 32-bit arithmetic blocks the task, and the tick at which it becomes Ready is
  the one that brings the counter to the wake time; any other wake time returns at once and
  changes nothing.\<close>

theorem delay_until_exact:
  assumes "kinv k L W" and "current_task k = Some t" and "state (tcbs k t) = Running"
  shows "if 0 < sint (wake_time - tick_count k)
         then \<exists>k'. delay_until wake_time k = Inr k' \<and>
           (\<forall>m < unat (wake_time - tick_count k). \<exists>k''. ticks m k' = Inr k'' \<and> state (tcbs k'' t) = Blocked) \<and>
           (\<exists>k''. ticks (unat (wake_time - tick_count k)) k' = Inr k'' \<and> state (tcbs k'' t) = Ready \<and>
              tick_count k'' = wake_time)
         else delay_until wake_time k = Inr k"
proof (cases "0 < sint (wake_time - tick_count k)")
  case True
  let ?n = "wake_time - tick_count k"
  obtain k' where k': "delay_until wake_time k = Inr k'" "plain k' = plain (task_yield (set_state t Blocked k))"
    "kinv k' L (insert_wake t (unat ?n) W)"
    using delay_until_ok [OF assms refl True] by blast
  have "tick_count k' = tick_count k" using plainD(18) [OF k'(2)] by simp
  then show ?thesis using True k'(1) ticks_sleep [OF k'(3), of t "unat ?n"] by auto
next
  case False
  then show ?thesis using delay_until_past [of wake_time k] by simp
qed

theorem delay_until_exact_witness:
  "\<exists>k' k''. delay_until 3 ex_kernel = Inr k' \<and> ticks 5 k' = Inr k'' \<and>
     state (tcbs k'' 0) = Ready \<and> tick_count k'' = 3"
proof -
  have "0 < sint ((3 :: tick) - tick_count ex_kernel)" "unat ((3 :: tick) - tick_count ex_kernel) = 5"
    by simp_all
  then show ?thesis using delay_until_exact [OF ex_kinv, of 0 3] by auto
qed

subsection \<open>Moving tasks between states\<close>

text \<open>C33 Suspending and deleting: the task leaves the ready list, wait list and delay list it is on,
  and all other tasks keep their place; a task that waited sees its wait as expired. Suspending
  the running task requests a context switch.\<close>

theorem suspend_delete_detach:
  assumes "kinv k L W" and "t < ntasks k" and "state (tcbs k t) \<noteq> Suspended" and "state (tcbs k t) \<noteq> Deleted"
  shows "\<exists>k1 k2. suspend_task (Some t) k = Inr k1 \<and> delete_task (Some t) k = Inr k2 \<and>
           state (tcbs k1 t) = Suspended \<and> state (tcbs k2 t) = Deleted \<and>
           kinv k1 (\<lambda>l. remove1 t (L l)) (filter (\<lambda>w. fst w \<noteq> t) W) \<and>
           kinv k2 (\<lambda>l. remove1 t (L l)) (filter (\<lambda>w. fst w \<noteq> t) W) \<and>
           (wait_list (tcbs k t) \<noteq> None \<longrightarrow> timeout_expired (tcbs k1 t) \<and> timeout_expired (tcbs k2 t)) \<and>
           (\<forall>s. s \<noteq> t \<longrightarrow> state (tcbs k1 s) = state (tcbs k s) \<and> wait_list (tcbs k1 s) = wait_list (tcbs k s)) \<and>
           (pendsv k1 \<longleftrightarrow> pendsv k \<or> current_task k = Some t \<and> started k)"
proof -
  obtain k1 where k1: "suspend_task (Some t) k = Inr k1"
    "plain k1 = plain (yield_if (current_task k = Some t \<and> started k)
       (upd_tcb t (\<lambda>b. (unwaited b)\<lparr>state := Suspended\<rparr>) k))"
    "kinv k1 (without t L) (remove_wake t W)"
    using suspend_task_ok [OF assms] by blast
  obtain k2 where k2: "delete_task (Some t) k = Inr k2"
    "plain k2 = plain (yield_if (current_task k = Some t \<and> started k)
       (upd_tcb t (\<lambda>b. (unwaited b)\<lparr>state := Deleted\<rparr>) k))"
    "kinv k2 (without t L) (remove_wake t W)"
    using delete_task_ok [OF assms(1,2,4)] by blast
  note f1 = plainD [OF k1(2)] and f2 = plainD [OF k2(2)]
  show ?thesis
    using k1(1,3) k2(1,3) unfolding without_def remove_wake_def
    by (intro exI [of _ k1] exI [of _ k2]) (simp add: f1 f2 unwaited_def)
qed

theorem suspend_delete_detach_witness:
  "\<exists>k1 k2. suspend_task (Some 3) ex_kernel = Inr k1 \<and> delete_task (Some 3) ex_kernel = Inr k2 \<and>
     timeout_expired (tcbs k1 3) \<and> state (tcbs k2 3) = Deleted"
proof -
  obtain k1 k2 where "suspend_task (Some 3) ex_kernel = Inr k1" "delete_task (Some 3) ex_kernel = Inr k2"
    "state (tcbs k2 3) = Deleted"
    "wait_list (tcbs ex_kernel 3) \<noteq> None \<longrightarrow> timeout_expired (tcbs k1 3) \<and> timeout_expired (tcbs k2 3)"
    using suspend_delete_detach [OF ex_kinv, of 3] by fastforce
  then show ?thesis by simp
qed

text \<open>C35 Resuming: a suspended task goes to the back of the ready list of its priority, and a
  context switch is requested exactly when it outranks the running task; in any other state
  nothing changes, except that with assertions on the call fails for a task on the delay list.\<close>

theorem resume_exact:
  assumes "kinv k L W" and "t < ntasks k"
  shows "(state (tcbs k t) = Suspended \<longrightarrow>
            (\<exists>k'. resume_task (Some t) k = Inr k' \<and> state (tcbs k' t) = Ready \<and>
               kinv k' (L(Ready_List (priority (tcbs k t)) := L (Ready_List (priority (tcbs k t))) @ [t])) W \<and>
               (pendsv k' \<longleftrightarrow> pendsv k \<or> outranks_current t k))) \<and>
         (state (tcbs k t) \<noteq> Suspended \<longrightarrow> resume_task (Some t) k =
            (if use_assert k \<and> in_delay_list (tcbs k t) then Inl AssertFailed else Inr k))"
proof (intro conjI impI)
  assume st: "state (tcbs k t) = Suspended"
  obtain k' where k': "resume_task (Some t) k = Inr k'"
    "plain k' = plain (yield_if (outranks_current t k) (set_state t Ready k))" "kinv k' (enqueue k t L) W"
    using resume_task_ok [OF assms st] by blast
  show "\<exists>k'. resume_task (Some t) k = Inr k' \<and> state (tcbs k' t) = Ready \<and>
      kinv k' (L(Ready_List (priority (tcbs k t)) := L (Ready_List (priority (tcbs k t))) @ [t])) W \<and>
      (pendsv k' \<longleftrightarrow> pendsv k \<or> outranks_current t k)"
    using k'(1,3) plainD(2,29) [OF k'(2)] by (intro exI [of _ k']) (simp add: enqueue_def Let_def)
qed (rule resume_task_other)

theorem resume_exact_witness:
  "(\<exists>k'. resume_task (Some 6) ex_kernel = Inr k' \<and> state (tcbs k' 6) = Ready) \<and>
   resume_task (Some 5) ex_kernel = Inl AssertFailed"
proof -
  have "in_delay_list (ex_tcb 5)" by (simp add: ex_tcb_def)
  then show ?thesis using resume_exact [OF ex_kinv, of 6] resume_exact [OF ex_kinv, of 5] by auto
qed

text \<open>C34 Changing the effective priority of a task, to any one not below its base priority: a ready task
  moves to the back of the ready list of the new priority, a waiting task to its place by priority
  on the list it waits on; every other list keeps its tasks in their order, no state, base
  priority or time limit changes, and no other task changes its priority. Nothing moves if the
  task has the priority already.\<close>

theorem priority_change_moves:
  assumes "kinv k L W" and "t < ntasks k" and "p < 32" and "base_priority (tcbs k t) \<le> p"
  shows "\<exists>k' L'. set_task_priority (Some t) p k = Inr k' \<and> kinv k' L' W \<and>
           (\<forall>s. state (tcbs k' s) = state (tcbs k s) \<and> base_priority (tcbs k' s) = base_priority (tcbs k s) \<and>
              priority (tcbs k' s) = (if s = t then p else priority (tcbs k s))) \<and>
           (if priority (tcbs k t) = p then L' = L
            else case state (tcbs k t) of
              Ready \<Rightarrow> (\<forall>l. L' l = (if l = Ready_List p then L l @ [t]
                 else if l = Ready_List (priority (tcbs k t)) then remove1 t (L l) else L l))
            | _ \<Rightarrow> (\<forall>l. L' l = (if wait_list (tcbs k t) = Some l
                 then insert_prio (\<lambda>x. priority (tcbs k' x)) t (remove1 t (L l)) else L l)))"
proof -
  obtain k' where k': "set_task_priority (Some t) p k = Inr k'"
    "plain k' = plain (upd_tcb t (\<lambda>b. b\<lparr>priority := p\<rparr>) k)" "kinv k' (reprioritize k t p L) W"
    using set_task_priority_ok [OF assms(1-4)] by blast
  note f = plainD [OF k'(2)]
  have pr: "(\<lambda>x. priority (tcbs k' x)) = (\<lambda>x. priority (tcbs k x))(t := p)" by (auto simp: f)
  then have ins: "insert_prio (\<lambda>x. priority (tcbs k' x)) = insert_prio ((\<lambda>x. priority (tcbs k x))(t := p))"
    by simp
  have fields: "state (tcbs k' s) = state (tcbs k s) \<and> base_priority (tcbs k' s) = base_priority (tcbs k s) \<and>
      priority (tcbs k' s) = (if s = t then p else priority (tcbs k s))" for s
    by (simp add: f)
  have ok: "task_ok k L W t" by (rule kinv_task [OF assms(1,2)])
  have out: "remove1 t (L l) = L l" if "state (tcbs k t) = Ready" "l \<noteq> Ready_List (priority (tcbs k t))" for l
    using that task_ok_ready [OF ok] task_ok_wait [OF ok] task_ok_blocked [OF ok]
    by (intro remove1_idem) (cases l; auto)
  have lists: "if priority (tcbs k t) = p then reprioritize k t p L = L
      else case state (tcbs k t) of
        Ready \<Rightarrow> (\<forall>l. reprioritize k t p L l = (if l = Ready_List p then L l @ [t]
           else if l = Ready_List (priority (tcbs k t)) then remove1 t (L l) else L l))
      | _ \<Rightarrow> (\<forall>l. reprioritize k t p L l = (if wait_list (tcbs k t) = Some l
           then insert_prio (\<lambda>x. priority (tcbs k' x)) t (remove1 t (L l)) else L l))"
  proof (cases "state (tcbs k t) = Ready")
    case True
    then show ?thesis using out by (auto simp: reprioritize_def without_def)
  next
    case False
    then show ?thesis by (simp add: ins reprioritize_def split: task_state.split option.split)
  qed
  show ?thesis using k'(1,3) fields lists by blast
qed

theorem priority_change_moves_witness:
  "\<exists>k' L'. set_task_priority (Some 1) 3 ex_kernel = Inr k' \<and> kinv k' L' ex_W \<and> L' (Ready_List 3) = [8, 1]"
proof -
  have "base_priority (ex_tcb 1) = 1" by (simp add: ex_tcb_def)
  then obtain k' L' where "set_task_priority (Some 1) 3 ex_kernel = Inr k'" "kinv k' L' ex_W"
    "\<forall>l. L' l = (if l = Ready_List 3 then ex_L l @ [1]
       else if l = Ready_List (priority (tcbs ex_kernel 1)) then remove1 1 (ex_L l) else ex_L l)"
    using priority_change_moves [OF ex_kinv, of 1 3] by auto
  then show ?thesis by (intro exI [of _ k'] exI [of _ L']) simp
qed

subsection \<open>Creating tasks\<close>

text \<open>C32 A created task: under the static assertions of \<open>create_task\<close>, with a free slot in the table
  and an unused call site, the call returns the next slot; the task is Ready at the back of its
  ready list; its lowest stack word is the canary; its stack pointer lies inside the stack, above
  the canary; and from there memory holds the frame that makes the first context switch enter the
  trampoline with the callable as its argument, with the hardware part 8-byte aligned.\<close>

theorem created_task:
  assumes "kinv k L W" and "ntasks k < kMaxTasks" and "p < 32" and "\<not> site_created k site"
    and "64 \<le> words" and "obj_size < 4 * words div 2"
  shows "\<exists>k'. create_task site buf words obj_size construct tramp p k = Inr (Some (ntasks k), k') \<and>
           ntasks k' = ntasks k + 1 \<and> site_created k' site \<and>
           kinv k' (L(Ready_List p := L (Ready_List p) @ [ntasks k])) W \<and>
           (let b = tcbs k' (ntasks k); slot = callable_slot buf words obj_size
            in state b = Ready \<and> priority b = p \<and> base_priority b = p \<and> stack_base b = buf \<and>
               load32 buf (mem k') = kStackCanary \<and>
               buf + 4 \<le> sp b \<and> sp b + 68 = slot \<and> slot + obj_size \<le> buf + 4 * words \<and>
               (sp b + 36) mod 8 = 0 \<and>
               (\<forall>i < 17. load32 (sp b + 4 * i) (mem k') = frame_words tramp slot ! i))"
proof -
  let ?slot = "callable_slot buf words obj_size" and ?t = "ntasks k"
  let ?k0 = "k\<lparr>site_created := (site_created k)(site := True), mem := construct ?slot (mem k)\<rparr>"
  let ?m = "store32 buf kStackCanary (construct ?slot (mem k))"
  obtain k' c where k': "create_task site buf words obj_size construct tramp p k = Inr (Some ?t, k')"
    "plain k' = plain (yield_if c (created ?t buf words tramp ?slot p ?k0))"
    "kinv k' (L(Ready_List p := L (Ready_List p) @ [?t])) W"
    using create_task_ok [OF assms(1-3) refl assms(4) refl refl] by blast
  note f = plainD [OF k'(2)]
  have slot: "buf + 72 \<le> ?slot" "?slot + obj_size \<le> buf + 4 * words" "?slot mod 8 = 0"
    using callable_slot_bounds [OF assms(5,6), of buf] by simp_all
  have sp: "fst (init_task_stack ?slot tramp ?slot ?m) = ?slot - 68" by (rule init_task_stack_sp)
  have mem: "mem k' = snd (init_task_stack ?slot tramp ?slot ?m)"
    by (simp add: f created_def Let_def case_prod_unfold)
  have "snd (init_task_stack ?slot tramp ?slot ?m) a = ?m a" if "a < buf + 4" for a
    using init_task_stack_outside [of ?slot a] slot(1) that by simp
  then have can: "load32 buf (mem k') = kStackCanary"
    unfolding mem load32_def using load32_store32 [of buf kStackCanary] by (simp add: load32_def)
  have fr: "load32 (?slot - 68 + 4 * i) (mem k') = frame_words tramp ?slot ! i" if "i < 17" for i
    unfolding mem using slot(1) that by (intro init_task_stack_frame) simp_all
  have b: "state (tcbs k' ?t) = Ready" "priority (tcbs k' ?t) = p" "base_priority (tcbs k' ?t) = p"
    "stack_base (tcbs k' ?t) = buf" "sp (tcbs k' ?t) = ?slot - 68"
    using sp by (simp_all add: f created_def Let_def case_prod_unfold)
  have si: "site_created k' site"
    using arg_cong [OF k'(2), of site_created]
    by (simp add: plain_def created_def yield_if_def task_yield_def Let_def case_prod_unfold)
  have "ntasks k' = ntasks k + 1"
    using ntasks_Suc [OF assms(2)] by (simp add: ntasks_def f created_def Let_def case_prod_unfold)
  moreover have "(?slot - 68 + 36) mod 8 = 0"
  proof -
    have "?slot - 68 + 36 = ?slot - 32" using slot(1) by simp
    then show ?thesis using slot by (simp add: mod_eq_0_iff_dvd dvd_diff_nat)
  qed
  ultimately show ?thesis using k'(1,3) b si can fr slot
    by (intro exI [of _ k']) (simp add: Let_def)
qed

theorem created_task_witness:
  "\<exists>k'. create_task 4 12000 64 16 (\<lambda>_ m. m) 64 5 ex_kernel = Inr (Some 11, k') \<and>
     state (tcbs k' 11) = Ready \<and> load32 12000 (mem k') = kStackCanary"
  using created_task [OF ex_kinv, of 5 4 64 16 12000 "\<lambda>_ m. m" 64]
  by (auto simp: kMaxTasks_def Let_def)

text \<open>C37 Failed creation: a full task table, a priority out of range and a call site reached a second
  time all give no task and leave the table as it is; with assertions on they stop the program.\<close>

theorem create_task_fails:
  assumes "\<not> p < 32 \<or> kMaxTasks \<le> ntasks k \<or> site_created k site"
  shows "if use_assert k
         then create_task site buf words obj_size construct tramp p k = Inl AssertFailed
         else \<exists>k'. create_task site buf words obj_size construct tramp p k = Inr (None, k') \<and>
                tcbs k' = tcbs k \<and> task_count k' = task_count k \<and> lists k' = lists k"
proof (cases "site_created k site")
  case True
  then show ?thesis using create_task_again [of k site] by simp
next
  case False
  let ?slot = "callable_slot buf words obj_size"
  let ?k = "k\<lparr>site_created := (site_created k)(site := True), mem := construct ?slot (mem k)\<rparr>"
  have first: "create_task site buf words obj_size construct tramp p k = create_task_impl buf words tramp ?slot p ?k"
    using False by (simp add: create_task_def acr_assert_def Let_def)
  have "create_task_impl buf words tramp ?slot p ?k = (if use_assert k then Inl AssertFailed else Inr (None, ?k))"
  proof (cases "p < 32")
    case True
    then show ?thesis using create_task_full [of p ?k] False assms by (simp add: ntasks_def)
  next
    case False
    then have "32 \<le> unat p" by (simp add: word8_less_32)
    then show ?thesis by (simp add: create_task_impl_def acr_assert_def kMaxPriorities_def)
  qed
  then show ?thesis unfolding first by simp
qed

theorem create_task_fails_witness:
  "create_task 4 12000 64 16 (\<lambda>_ m. m) 64 32 ex_kernel = Inl AssertFailed"
  using create_task_fails [of 32 ex_kernel 4 12000 64 16 "\<lambda>_ m. m" 64] by simp

end
