(* ===== verification/Props_Structures.thy ===== *)
theory Props_Structures
  imports Example_Kernel
begin

text \<open>
  The properties of the data structures: the linked task lists, the delta list of sleepers, the
  ready manager with its bit mask, and the termination of the loops over them. Each is followed
  by its instance on the state of theory Example_Kernel.
\<close>

subsection \<open>Task lists\<close>

text \<open>C25 The linked lists implement sequences: where every list l of the kernel is linked as the
  sequence L l, empty or not, adding a task that is on no list at the end, taking from the front
  and removing from anywhere do that to the sequence of the one list, leave the links of all others
  intact, and change nothing of the kernel but links, heads and tails. The first task and the test
  for emptiness are those of the sequence, and taking from an empty list changes nothing.\<close>

theorem task_list_refines:
  assumes "wf_lists k L"
  shows "(\<forall>t. (\<forall>l'. t \<notin> set (L l')) \<longrightarrow>
            (\<exists>k'. push_back l (Some t) k = Inr k' \<and> relinked k k' \<and> wf_lists k' (L(l := L l @ [t])))) \<and>
         (case L l of
            [] \<Rightarrow> pop_front l k = Inr (None, k) \<and> peek_front l k = None \<and> is_empty l k
          | x # xs \<Rightarrow> (\<exists>k'. pop_front l k = Inr (Some x, k') \<and> relinked k k' \<and> wf_lists k' (L(l := xs))) \<and>
              peek_front l k = Some x \<and> \<not> is_empty l k) \<and>
         (\<forall>s \<in> set (L l). \<exists>k'. list_remove l (Some s) k = Inr k' \<and> relinked k k' \<and>
            wf_lists k' (L(l := remove1 s (L l))))"
proof -
  have "peek_front l k = first_of (L l)" "is_empty l k \<longleftrightarrow> L l = []"
    using wf_lists_head [OF assms, of l] by (simp_all add: peek_front_def is_empty_def)
  then have "case L l of
      [] \<Rightarrow> pop_front l k = Inr (None, k) \<and> peek_front l k = None \<and> is_empty l k
    | x # xs \<Rightarrow> (\<exists>k'. pop_front l k = Inr (Some x, k') \<and> relinked k k' \<and> wf_lists k' (L(l := xs))) \<and>
        peek_front l k = Some x \<and> \<not> is_empty l k"
    using pop_front_empty [OF assms] pop_front_ok [OF assms] by (simp split: list.split)
  then show ?thesis using push_back_ok [OF assms] list_remove_ok [OF assms] by blast
qed

theorem task_list_refines_witness:
  "(\<exists>k'. list_remove (Ready_List 1) (Some 2) ex_kernel = Inr k' \<and> wf_lists k' (ex_L(Ready_List 1 := [1]))) \<and>
   (\<exists>k'. push_back (Ready_List 5) (Some 6) ex_kernel = Inr k' \<and> wf_lists k' (ex_L(Ready_List 5 := [6])))"
proof -
  have "\<forall>l. 6 \<notin> set (ex_L l)" by (intro allI, case_tac l) simp_all
  then show ?thesis
    using task_list_refines [OF ex_wf_lists, of "Ready_List 5", THEN conjunct1, rule_format, of 6]
      task_list_refines [OF ex_wf_lists, of "Ready_List 1", THEN conjunct2, THEN conjunct2, rule_format, of 2]
    by auto
qed

text \<open>C24 Insertion by priority: in a wait list sorted from high to low priority the task goes behind
  those of at least its priority and before all lower ones, so the list stays sorted and tasks of
  one priority stay in order of arrival.\<close>

theorem insert_by_priority_stable:
  assumes "wf_lists k L" and "\<forall>l. t \<notin> set (L l)"
    and "sorted_wrt (\<lambda>x y. priority (tcbs k y) \<le> priority (tcbs k x)) (L l)"
  shows "\<exists>k' ts. insert_by_priority l (Some t) k = Inr k' \<and> relinked k k' \<and> wf_lists k' (L(l := ts)) \<and>
           ts = filter (\<lambda>x. priority (tcbs k t) \<le> priority (tcbs k x)) (L l) @
                t # filter (\<lambda>x. priority (tcbs k x) < priority (tcbs k t)) (L l) \<and>
           sorted_wrt (\<lambda>x y. priority (tcbs k' y) \<le> priority (tcbs k' x)) ts"
proof -
  let ?pr = "\<lambda>x. priority (tcbs k x)" and ?ts = "insert_prio (\<lambda>x. priority (tcbs k x)) t (L l)"
  obtain k' where k': "insert_by_priority l (Some t) k = Inr k'" "relinked k k'" "wf_lists k' (L(l := ?ts))"
    using insert_by_priority_ok [OF assms(1)] assms(2) by blast
  have s: "prio_sorted ?pr (L l)" using assms(3) by (simp add: prio_sorted_def)
  have "priority (tcbs k' x) = priority (tcbs k x)" for x
    using reshuffled_tcb(5) [OF relinked_reshuffled [OF k'(2)]] .
  then have "sorted_wrt (\<lambda>x y. priority (tcbs k' y) \<le> priority (tcbs k' x)) ?ts"
    using prio_sorted_insert_prio [OF s, of t] by (simp add: prio_sorted_def)
  then show ?thesis using k' insert_prio_filter [OF s, of t] by blast
qed

theorem insert_by_priority_stable_witness:
  "\<exists>k'. insert_by_priority (Mutex_Wait 0) (Some 6) ex_kernel = Inr k' \<and>
     wf_lists k' (ex_L(Mutex_Wait 0 := [6, 4]))"
proof -
  have new: "\<forall>l. 6 \<notin> set (ex_L l)" by (intro allI, case_tac l) simp_all
  from insert_by_priority_stable [OF ex_wf_lists this, of "Mutex_Wait 0"] show ?thesis by auto
qed

subsection \<open>The delay list\<close>

text \<open>C23 The delta list keeps absolute times: W gives each sleeping task the number of ticks it still
  sleeps, the sum of the deltas up to it. Inserting a task adds its time behind all that are not
  later, and keeps every other time; removing it again gives back the list as it was, and removing
  any task keeps the times of the others.\<close>

theorem delay_list_round_trip:
  assumes "wf_delay k W" and "t \<notin> fst ` set W"
  shows "\<exists>k' W'. delay_insert (Some t) n k = Inr k' \<and> delay_relinked k k' \<and> wf_delay k' W' \<and>
           W' = filter (\<lambda>w. snd w \<le> unat n) W @ (t, unat n) # filter (\<lambda>w. unat n < snd w) W \<and>
           wf_delay (delay_remove (Some t) k') W \<and>
           (\<forall>s. wf_delay (delay_remove (Some s) k') (filter (\<lambda>w. fst w \<noteq> s) W'))"
proof -
  let ?W = "insert_wake t (unat n) W"
  obtain k' where k': "delay_insert (Some t) n k = Inr k'" "delay_relinked k k'" "wf_delay k' ?W"
    using delay_insert_ok [OF assms] by blast
  have "sorted (map snd W)" by (rule wf_delay_sorted [OF assms(1)])
  then have "takeWhile (\<lambda>w. snd w \<le> unat n) W = filter (\<lambda>w. snd w \<le> unat n) W \<and>
      dropWhile (\<lambda>w. snd w \<le> unat n) W = filter (\<lambda>w. unat n < snd w) W"
  proof (induction W)
    case (Cons w W)
    show ?case
    proof (cases "snd w \<le> unat n")
      case False
      then have "filter (\<lambda>w. snd w \<le> unat n) W = []" "filter (\<lambda>w. unat n < snd w) W = W"
        using Cons.prems by (force simp: filter_empty_conv filter_id_conv)+
      then show ?thesis using False by simp
    qed (use Cons in auto)
  qed simp
  then have W': "?W = filter (\<lambda>w. snd w \<le> unat n) W @ (t, unat n) # filter (\<lambda>w. unat n < snd w) W"
    by (simp add: insert_wake_def)
  have rm: "wf_delay (delay_remove (Some s) k') (filter (\<lambda>w. fst w \<noteq> s) ?W)" for s
    using delay_remove_ok [OF k'(3), of s] by (simp add: remove_wake_def)
  have "filter (\<lambda>w. fst w \<noteq> t) ?W = filter (\<lambda>w. fst w \<noteq> t) W"
    by (simp add: insert_wake_def) (metis filter_append takeWhile_dropWhile_id)
  also have "\<dots> = W" using assms(2) by (force simp: filter_id_conv)
  finally show ?thesis using k' W' rm rm [of t] by (intro exI [of _ k'] exI [of _ ?W]) simp
qed

theorem delay_list_round_trip_witness:
  "\<exists>k'. delay_insert (Some 0) 2 ex_kernel = Inr k' \<and> wf_delay k' [(3, 1), (0, 2), (5, 4)] \<and>
     wf_delay (delay_remove (Some 0) k') [(3, 1), (5, 4)]"
  using delay_list_round_trip [OF wf_kernelD(3) [OF ex_wf_kernel], of 0 2] by (auto simp: ex_W_def)

subsection \<open>The ready manager\<close>

text \<open>A linear search for the highest priority with a ready task, from 31 down.\<close>

definition search_ready :: "kernel \<Rightarrow> prio option" where
  "search_ready k = find (\<lambda>p. head (lists k (Ready_List p)) \<noteq> None) (rev (map of_nat [0..<32]))"

lemma search_ready_Some:
  assumes "p < 32" and "head (lists k (Ready_List p)) \<noteq> None"
    and "\<And>q. head (lists k (Ready_List q)) \<noteq> None \<Longrightarrow> q \<le> p"
  shows "search_ready k = Some p"
  unfolding search_ready_def find_Some_iff
proof (intro exI [of _ "31 - unat p"] conjI allI impI)
  have p: "unat p < 32" using assms(1) by (simp add: word8_less_32)
  have nth: "rev (map (of_nat :: nat \<Rightarrow> prio) [0..<32]) ! i = of_nat (31 - i)" if "i < 32" for i
    using that by (simp add: rev_nth)
  show "31 - unat p < length (rev (map (of_nat :: nat \<Rightarrow> prio) [0..<32]))" by simp
  show "p = rev (map of_nat [0..<32]) ! (31 - unat p)" using p by (simp add: nth)
  then show "head (lists k (Ready_List (rev (map of_nat [0..<32]) ! (31 - unat p)))) \<noteq> None"
    using assms(2) by simp
  fix j assume j: "j < 31 - unat p"
  have "unat (of_nat (31 - j) :: prio) = 31 - j" by (simp add: unat_of_nat)
  then have "p < of_nat (31 - j)" using j p by (simp add: word_less_nat_alt)
  moreover have "rev (map of_nat [0..<32]) ! j = (of_nat (31 - j) :: prio)" using j by (intro nth) simp
  ultimately show "\<not> head (lists k (Ready_List (rev (map of_nat [0..<32]) ! j))) \<noteq> None"
    using assms(3) by (metis leD)
qed

text \<open>C26 Finding the next task in constant time: counting the leading zeros of the bit mask gives what a
  linear search over the ready lists from priority 31 down would; the task taken is the oldest
  of that list, and with no ready task there is none.\<close>

theorem highest_priority_equals_search:
  assumes "wf_kernel k L W"
  shows "case search_ready k of
      None \<Rightarrow> get_highest_priority_task k = Inr (None, k) \<and> rm_is_empty k
    | Some p \<Rightarrow> \<exists>k'. get_highest_priority_task k = Inr (head (lists k (Ready_List p)), k') \<and>
        peek_highest_priority k = Inr p \<and> \<not> rm_is_empty k \<and>
        wf_kernel k' (L(Ready_List p := tl (L (Ready_List p)))) W"
proof -
  have hd: "head (lists k l) = first_of (L l)" for l
    using wf_lists_head [OF wf_kernelD(1) [OF assms]] .
  have wr: "wf_ready k L" by (rule wf_kernelD(2) [OF assms])
  show ?thesis
  proof (cases "ready_bitmask k = 0")
    case True
    have none: "L (Ready_List p) = []" for p by (rule wf_ready_empty [OF wr True])
    have "search_ready k = None" by (simp add: search_ready_def find_None_iff hd none)
    then show ?thesis using get_highest_none [OF assms none] True by (simp add: rm_is_empty_def)
  next
    case False
    let ?p = "top_priority (ready_bitmask k)"
    obtain t ts where t: "L (Ready_List ?p) = t # ts"
      using wf_ready_top(1) [OF wr False] by (cases "L (Ready_List ?p)") auto
    have "search_ready k = Some ?p"
      using wf_ready_top(2,3) [OF wr False] t by (intro search_ready_Some) (auto simp: hd)
    moreover have "peek_highest_priority k = Inr ?p"
      using False by (simp add: peek_highest_priority_def acr_assert_def)
    ultimately show ?thesis using get_highest_ok [OF assms t wf_ready_top(3) [OF wr False]] False t
      by (auto simp: hd rm_is_empty_def)
  qed
qed

theorem highest_priority_equals_search_witness:
  "\<exists>k'. get_highest_priority_task ex_kernel = Inr (Some 8, k')"
proof -
  have "search_ready ex_kernel = Some 3"
    by (rule search_ready_Some) (auto simp: ex_lists_def initial_list_def split: if_splits)
  then show ?thesis using highest_priority_equals_search [OF ex_wf_kernel] by (auto simp: ex_lists_def)
qed

subsection \<open>Termination\<close>

lemma head_time_left:
  assumes "kinv_but {} k L (pending W)" and "delay_head k = Some h"
  shows "delay_ticks (tcbs k h) \<noteq> 0"
proof -
  have wd: "wf_delay k (pending W)" by (rule wf_kernelD(3) [OF kinv_but_wf [OF assms(1)]])
  obtain x W' where p: "pending W = (h, x) # W'" using assms(2) wf_delay_head [OF wd] by (cases "pending W") auto
  then have "x \<noteq> 0" by (auto simp: pending_def dest: filter_eq_ConsD)
  moreover have "x = unat (delay_ticks (tcbs k h))" using wd unfolding p by (simp add: wf_delay_def)
  ultimately show ?thesis by auto
qed

text \<open>C22 Every loop over a list ends, in every reachable state and in the states in which the code
  enters it: the searches for a place in a wait list and in the delay list; the walk over the
  expired tasks after the tick has taken one from the head of the delay list, which leaves no task
  at the head whose time is up; the search in a list of held mutexes and the maximum over them; and
  the scan of the waiters of an event group after its bits have changed to any value.\<close>

theorem loops_terminate:
  assumes "sys_ok k0" and "reach k0 k"
  shows "(\<exists>c. lower_from k p (head (lists k l)) = Some c) \<and>
         (\<exists>c. delay_scan k n None (delay_head k) = Some c) \<and>
         (\<forall>h. delay_head k = Some h \<longrightarrow>
            (\<exists>k'. expire_loop (upd_tcb h (\<lambda>b. b\<lparr>delay_ticks := delay_ticks b - 1\<rparr>) k) = Some (Inr k') \<and>
              (\<forall>h'. delay_head k' = Some h' \<longrightarrow> delay_ticks (tcbs k' h') \<noteq> 0))) \<and>
         (owner (mutexes k m) = Some t \<longrightarrow> (\<exists>pp. held_scan k m (Held_Head t) = Some pp)) \<and>
         (\<exists>p. recompute_loop k (held_mutexes (tcbs k t)) b = Some p) \<and>
         (\<exists>r. scan_loop e False (peek_front (Event_Waiters e) k) (set_event_bits e w k) = Some (Inr r))"
proof -
  obtain L W H where inv: "kinv k L W" and ob: "objects_ok k L H"
    using reach_sys_ok [OF assms(2,1)] by (auto simp: sys_ok_def)
  note wf = kinv_wf [OF inv]
  have hl: "held_lists k H" and ow: "owners k H" using objects_okD(6) [OF ob] by (auto simp: mutexes_ok_def)
  have "linked_list k l ([] @ L l)" using wf_lists_linked [OF wf_kernelD(1) [OF wf]] by simp
  then have 1: "\<exists>c. lower_from k p (head (lists k l)) = Some c"
    using lower_from_ok wf_lists_head [OF wf_kernelD(1) [OF wf], of l] by metis
  have wd: "wf_delay k W" by (rule wf_kernelD(3) [OF wf])
  have "unat n < 2 ^ 32" using unsigned_less [of n] by simp
  then have 2: "\<exists>c. delay_scan k n None (delay_head k) = Some c"
    using delay_scan_ok [of k "[]" W 0 n "unat n", OF _ _ _ _ _ refl refl refl] wd wf_delay_head [OF wd]
    by (auto simp: wf_delay_def)
  have 3: "\<exists>k'. expire_loop (upd_tcb h (\<lambda>b. b\<lparr>delay_ticks := delay_ticks b - 1\<rparr>) k) = Some (Inr k') \<and>
      (\<forall>h'. delay_head k' = Some h' \<longrightarrow> delay_ticks (tcbs k' h') \<noteq> 0)" if hd: "delay_head k = Some h" for h
  proof -
    let ?k = "upd_tcb h (\<lambda>b. b\<lparr>delay_ticks := delay_ticks b - 1\<rparr>) k"
    obtain x W' where W: "W = (h, x) # W'" using hd wf_delay_head [OF wd] by (cases W) auto
    have "kinv_but {} ?k L (one_tick W)"
      using inv unfolding W by (intro kinv_but_head_tick) (simp_all add: kinv_def awake_none_def)
    from expire_loop_ok [OF this] obtain k' L' where
      k': "expire_loop ?k = Some (Inr k')" "kinv_but {} k' L' (pending (one_tick W))" by blast
    have "delay_ticks (tcbs k' h') \<noteq> 0" if "delay_head k' = Some h'" for h'
      using that by (rule head_time_left [OF k'(2)])
    then show ?thesis using k'(1) by blast
  qed
  have 4: "\<exists>pp. held_scan k m (Held_Head t) = Some pp" if own: "owner (mutexes k m) = Some t"
  proof -
    have "m \<in> set (H t)" using ow own by (simp add: owners_def)
    then obtain as cs where H: "H t = as @ m # cs" "m \<notin> set as" by (meson split_list_first)
    have "held_chain k (held_mutexes (tcbs k t)) (H t)" using hl by (simp add: held_lists_def)
    then show ?thesis using held_scan_ok [of k t "[]" as m cs] H by (auto simp: loc_after_def)
  qed
  have 5: "\<exists>p. recompute_loop k (held_mutexes (tcbs k t)) b = Some p"
    using recompute_loop_ok [OF _ wf, of "held_mutexes (tcbs k t)" "H t" b] hl by (simp add: held_lists_def)
  have "peek_front (Event_Waiters e) k = first_of (L (Event_Waiters e))" by (rule peek_front_ok [OF wf])
  moreover have "kinv (set_event_bits e w k) L W" using inv by (simp add: set_event_bits_def)
  ultimately have 6: "\<exists>r. scan_loop e False (peek_front (Event_Waiters e) k) (set_event_bits e w k) = Some (Inr r)"
    using scan_loop_ok [of "set_event_bits e w k" L W e "[]" "L (Event_Waiters e)", OF _ _ refl refl, of False] by auto
  show ?thesis using 1 2 3 4 5 6 by blast
qed

theorem loops_terminate_witness:
  "(\<exists>k'. expire_loop (upd_tcb 3 (\<lambda>b. b\<lparr>delay_ticks := delay_ticks b - 1\<rparr>) ex_kernel) = Some (Inr k')) \<and>
   (\<exists>pp. held_scan ex_kernel 0 (Held_Head 0) = Some pp) \<and>
   (\<exists>r. scan_loop 0 False (peek_front (Event_Waiters 0) ex_kernel) (set_event_bits 0 3 ex_kernel) = Some (Inr r))"
  using loops_terminate [OF ex_sys_ok reach_refl, of 2 "Ready_List 1" 0 0 0 0 0 3]
  by (auto simp: ex_kernel_def)

end
