(* ===== verification/Props_Ipc.thy ===== *)
theory Props_Ipc
  imports Example_Kernel Preemption
begin

text \<open>
  The properties of semaphores and mutexes. Each is followed by its instance on
  the state of theory Example_Kernel.
\<close>

subsection \<open>Semaphores\<close>

text \<open>C30 Taking: a token that is there is taken without blocking; without one a call with time
  limit 0 fails and changes nothing, and any other blocks the caller on the wait list, behind
  the waiters of its priority, with its time limit, and requests a context switch.\<close>

theorem semaphore_take:
  assumes "kinv k L W" and "current_task k = Some t" and "state (tcbs k t) = Running" and "ipsr k = 0"
  shows "if sem_count k s \<noteq> 0
         then take_sem s n k = Inr (Returned True, k\<lparr>sem_count := (sem_count k)(s := sem_count k s - 1)\<rparr>)
         else if n = 0 then take_sem s n k = Inr (Returned False, k)
         else \<exists>k'. take_sem s n k = Inr (Waiting, k') \<and> state (tcbs k' t) = Blocked \<and> pendsv k' \<and>
           wait_list (tcbs k' t) = Some (Sem_Wait s) \<and> sem_count k' = sem_count k \<and>
           kinv k' (L(Sem_Wait s := insert_prio (\<lambda>x. priority (tcbs k x)) t (L (Sem_Wait s))))
             (if n = kWaitForever then W else insert_wake t (unat n) W)"
proof (cases "sem_count k s = 0")
  case False
  then show ?thesis using take_sem_available [OF False, of n] assms(4) by (simp add: set_sem_count_def)
next
  case True
  have "take_sem s 0 k = Inr (Returned False, k)" using True by (simp add: take_sem_def try_take_eq)
  moreover have "\<exists>k'. take_sem s n k = Inr (Waiting, k') \<and> state (tcbs k' t) = Blocked \<and> pendsv k' \<and>
      wait_list (tcbs k' t) = Some (Sem_Wait s) \<and> sem_count k' = sem_count k \<and>
      kinv k' (L(Sem_Wait s := insert_prio (\<lambda>x. priority (tcbs k x)) t (L (Sem_Wait s))))
        (if n = kWaitForever then W else insert_wake t (unat n) W)" if n: "n \<noteq> 0"
  proof -
    obtain k' where k': "take_sem s n k = Inr (Waiting, k')"
      "plain k' = plain (task_yield (blocked_store (Sem_Wait s) t k))"
      "kinv k' (parked k (Sem_Wait s) t L) (time_limit n t W)"
      using take_sem_blocks [OF assms(1-3) True n assms(4)] by blast
    note f = plainD [OF k'(2)]
    show ?thesis using k'(1,3) unfolding parked_def time_limit_def
      by (intro exI [of _ k']) (simp add: f blocked_store_def task_yield_def)
  qed
  ultimately show ?thesis using True by simp
qed

theorem semaphore_take_witness:
  "\<exists>k'. take_sem 0 10 ex_kernel = Inr (Waiting, k') \<and> wait_list (tcbs k' 0) = Some (Sem_Wait 0)"
  using semaphore_take [OF ex_kinv, of 0 0 10] by auto

text \<open>C18 Giving: with tasks waiting the token goes to the first of the wait list, which becomes Ready
  with its time limit cancelled, and the count stays. In every state reached from one in which no
  task on a wait list is marked expired, as after static initialisation (\<open>waits_live_boot\<close>), the
  wait of this task has not expired, so its take returns true. With no task waiting the count goes up by one,
  up to its largest value and never past it.\<close>

theorem semaphore_give:
  assumes "sys_ok k0" and "waits_live k0" and "reach k0 k" and "kinv k L W"
  shows "case L (Sem_Wait s) of
      [] \<Rightarrow> give s k = Inr (if sem_count k s = 0xFFFFFFFF then k
             else k\<lparr>sem_count := (sem_count k)(s := sem_count k s + 1)\<rparr>)
    | t # ts \<Rightarrow> \<exists>k' p. give s k = Inr k' \<and> sem_count k' = sem_count k \<and> state (tcbs k' t) = Ready \<and>
        wait_list (tcbs k' t) = None \<and> \<not> timeout_expired (tcbs k' t) \<and> blocked_result t k' \<and>
        p = Ready_List (priority (tcbs k t)) \<and>
        kinv k' (L(Sem_Wait s := ts, p := L p @ [t])) (filter (\<lambda>w. fst w \<noteq> t) W) \<and>
        (pendsv k' \<longleftrightarrow> pendsv k \<or> outranks_current t k)"
proof (cases "L (Sem_Wait s)")
  case Nil
  have "sem_count k s < 0xFFFFFFFF \<longleftrightarrow> sem_count k s \<noteq> 0xFFFFFFFF"
  proof -
    have m: "(0xFFFFFFFF :: 32 word) = - 1" by simp
    show ?thesis unfolding m by (rule word_order.not_eq_extremum [symmetric])
  qed
  then show ?thesis using Nil give_locked_none [OF assms(4) Nil]
    by (simp add: give_def set_sem_count_def)
next
  case (Cons t ts)
  obtain k1 where k1: "give_locked s k = Inr (outranks_current t k, k1)"
    "plain k1 = plain (upd_tcb t (\<lambda>b. b\<lparr>state := Ready, wait_list := None\<rparr>) k)"
    "kinv k1 (enqueue k t (L(Sem_Wait s := ts))) (remove_wake t W)"
    using give_locked_some [OF assms(4) Cons] by blast
  note f = plainD [OF k1(2)]
  have t: "t < ntasks k" using kinv_member [OF assms(4), of t "Sem_Wait s"] Cons by simp
  have "wait_list (tcbs k t) = Some (Sem_Wait s)"
    using task_ok_wait [OF kinv_task [OF assms(4) t], of "Sem_Wait s"] Cons by simp
  then have "\<not> timeout_expired (tcbs k t)"
    using reach_waits_live [OF assms(3,1,2)] by (metis waits_live_def live_wait_def option.distinct(1))
  then show ?thesis using k1(1,3) Cons
    by (auto simp: give_def f enqueue_def Let_def remove_wake_def blocked_result_def task_yield_def)
qed

lemma ex_waits_live: "waits_live ex_kernel"
  by (simp add: waits_live_def live_wait_def ex_tcb_def initial_tcb_def)

theorem semaphore_give_witness:
  "\<exists>k'. give 0 ex_kernel = Inr k' \<and> state (tcbs k' 3) = Ready \<and> sem_count k' 0 = 0 \<and> blocked_result 3 k'"
  using semaphore_give [OF ex_sys_ok ex_waits_live reach_refl ex_kinv, of 0] by auto

text \<open>C29 Time-out of a take: a caller that blocks with a time limit of n milliseconds, and to which no
  token is given, stays Blocked for n - 1 ticks; at the n-th it is Ready, off the wait list,
  and its call returns false.\<close>

theorem semaphore_timeout:
  assumes "kinv k L W" and "current_task k = Some t" and "state (tcbs k t) = Running" and "ipsr k = 0"
    and "sem_count k s = 0" and "n \<noteq> 0" and "n \<noteq> kWaitForever"
  shows "\<exists>k'. take_sem s n k = Inr (Waiting, k') \<and> blocked_result t k' \<and>
           (\<forall>m < unat n. \<exists>k''. ticks m k' = Inr k'' \<and> state (tcbs k'' t) = Blocked) \<and>
           (\<exists>k''. ticks (unat n) k' = Inr k'' \<and> state (tcbs k'' t) = Ready \<and>
              wait_list (tcbs k'' t) = None \<and> \<not> blocked_result t k'')"
proof -
  obtain k' where k': "take_sem s n k = Inr (Waiting, k')"
    "plain k' = plain (task_yield (blocked_store (Sem_Wait s) t k))"
    "kinv k' (parked k (Sem_Wait s) t L) (time_limit n t W)"
    using take_sem_blocks [OF assms(1-3,5,6,4)] by blast
  have w: "wait_list (tcbs k' t) = Some (Sem_Wait s)" "blocked_result t k'"
    using plainD(8,9) [OF k'(2)] by (simp_all add: blocked_store_def blocked_result_def)
  have "(t, unat n) \<in> set (time_limit n t W)" using assms(7) by (simp add: time_limit_def)
  note sl = ticks_sleep [OF k'(3) this]
  show ?thesis using k'(1) w sl by (auto simp: blocked_result_def)
qed

theorem semaphore_timeout_witness:
  "\<exists>k' k''. take_sem 0 7 ex_kernel = Inr (Waiting, k') \<and> ticks 7 k' = Inr k'' \<and>
     state (tcbs k'' 0) = Ready \<and> \<not> blocked_result 0 k''"
  using semaphore_timeout [OF ex_kinv, of 0 0 7] by (auto simp: kWaitForever_def ex_kernel_def)

subsection \<open>Mutexes\<close>

text \<open>C14 Locking: a free mutex is taken and joins the mutexes the caller holds; the caller's own mutex
  is refused; and a mutex of another task makes the caller wait, with the owner raised to the
  caller's priority if that is higher and no other priority changed.\<close>

theorem mutex_lock:
  assumes "kinv k L W" and "mutex_ok k L H"
    and "current_task k = Some c" and "state (tcbs k c) = Running" and "ipsr k = 0"
  shows "case owner (mutexes k m) of
      None \<Rightarrow> \<exists>k'. lock m k = Inr (Returned True, k') \<and> owner (mutexes k' m) = Some c \<and>
        (\<forall>s. state (tcbs k' s) = state (tcbs k s) \<and> priority (tcbs k' s) = priority (tcbs k s)) \<and>
        kinv k' L W \<and> mutex_ok k' L (H(c := m # H c))
    | Some h \<Rightarrow>
        if h = c then lock m k = (if use_assert k then Inl AssertFailed else Inr (Returned False, k))
        else \<exists>k' L'. lock m k = Inr (Waiting, k') \<and> kinv k' L' W \<and> mutex_ok k' L' H \<and>
          state (tcbs k' c) = Blocked \<and> wait_list (tcbs k' c) = Some (Mutex_Wait m) \<and>
          c \<in> set (L' (Mutex_Wait m)) \<and> owner (mutexes k' m) = Some h \<and> pendsv k' \<and>
          (\<forall>s. priority (tcbs k' s) =
             (if s = h then max (priority (tcbs k h)) (priority (tcbs k c)) else priority (tcbs k s)))"
proof (cases "owner (mutexes k m)")
  case None
  obtain k' h ms where k': "lock m k = Inr (Returned True, k')" "plain k' = plain (holding h ms k)"
    "kinv k' L W" "mutex_ok k' L (H(c := m # H c))" "owner (mutexes k' m) = Some c"
    using lock_free_ok [OF assms(1,2,5,3) None] by blast
  have "\<forall>s. state (tcbs k' s) = state (tcbs k s) \<and> priority (tcbs k' s) = priority (tcbs k s)"
    using plainD(2,5) [OF k'(2)] by simp
  then show ?thesis using k'(1,3-5) None by auto
next
  case (Some h)
  show ?thesis
  proof (cases "h = c")
    case True
    then show ?thesis using Some lock_own [OF assms(5,3)] by simp
  next
    case False
    let ?L = "parked (raise_owner h c k) (Mutex_Wait m) c (raise_lists h c k L)"
    obtain k' where k': "lock m k = Inr (Waiting, k')"
      "plain k' = plain (task_yield (blocked_store (Mutex_Wait m) c (raise_owner h c k)))"
      "kinv k' ?L W"
      using lock_blocks [OF assms(1,2,5,3,4) Some False] by blast
    note f = plainD [OF k'(2)]
    have "mutex_ok k' ?L H" by (rule lock_blocks_mutex_ok [OF assms(1,2) Some k'(2)])
    moreover have "priority (tcbs k' s) =
        (if s = h then max (priority (tcbs k h)) (priority (tcbs k c)) else priority (tcbs k s))" for s
      by (auto simp: f blocked_store_def raise_owner_def max_def)
    moreover have "state (tcbs k' c) = Blocked" "wait_list (tcbs k' c) = Some (Mutex_Wait m)" "pendsv k'"
      "owner (mutexes k' m) = Some h"
      using Some by (simp_all add: f blocked_store_def task_yield_def raise_owner_def)
    ultimately show ?thesis unfolding Some option.case if_not_P [OF False] using k'(1,3)
      by (intro exI [of _ k'] exI [of _ ?L]) simp
  qed
qed

theorem mutex_lock_witness:
  "\<exists>k'. lock 1 ex_kernel = Inr (Returned True, k') \<and> owner (mutexes k' 1) = Some 0"
  using mutex_lock [OF ex_kinv ex_mutex_ok, of 0 1] by (auto simp: initial_mutex_def)

text \<open>C13 Unlocking: the mutex goes to the first of its waiters, who becomes Ready, or becomes free;
  the caller no longer holds it and keeps the highest priority that is still due to it: its own,
  or that of a task waiting for one of the mutexes it still holds. No other owner and no other
  priority changes.\<close>

theorem mutex_unlock:
  assumes "kinv k L W" and "mutex_ok k L H"
    and "current_task k = Some c" and "state (tcbs k c) = Running" and "owner (mutexes k m) = Some c"
  shows "\<exists>k' L' W' H'. unlock m k = Inr (True, k') \<and> kinv k' L' W' \<and> mutex_ok k' L' H' \<and>
           owner (mutexes k' m) = (case L (Mutex_Wait m) of [] \<Rightarrow> None | n # ts \<Rightarrow> Some n) \<and>
           (\<forall>x. x \<noteq> m \<longrightarrow> owner (mutexes k' x) = owner (mutexes k x)) \<and>
           (case L (Mutex_Wait m) of [] \<Rightarrow> True
            | n # ts \<Rightarrow> L' (Mutex_Wait m) = ts \<and> state (tcbs k' n) = Ready \<and> wait_list (tcbs k' n) = None) \<and>
           H' c = remove1 m (H c) \<and>
           priority (tcbs k' c) = Max (insert (base_priority (tcbs k c))
             (\<Union>x \<in> set (H c) - {m}. (\<lambda>t. priority (tcbs k t)) ` set (L (Mutex_Wait x)))) \<and>
           (\<forall>s. s \<noteq> c \<longrightarrow> priority (tcbs k' s) = priority (tcbs k s))"
proof -
  let ?np = "inherited k L (remove1 m (H c)) (base_priority (tcbs k c))"
  let ?L = "next_owner_lists k m L"
  obtain k' h ms b where k': "unlock m k = Inr (True, k')"
    "plain k' = plain (yield_if b (upd_tcb c (\<lambda>b. b\<lparr>priority := ?np\<rparr>) (holding h ms (next_owner_store m L k))))"
    "kinv k' ?L (next_owner_wake m L W)" "mutex_ok k' ?L (next_owner_held c m L H)"
    "owner (mutexes k' m) = first_of (L (Mutex_Wait m))"
    using unlock_ok [OF assms refl] by blast
  note f = plainD [OF k'(2)]
  have H: "distinct (H c)" using assms(2) by (simp add: mutex_ok_def held_lists_def)
  have nc: "n \<noteq> c" if "L (Mutex_Wait m) = n # ts" for n ts
    using first_waiter(2) [OF assms(1), of m n] that assms(4) by (auto simp: first_of_def)
  have H': "next_owner_held c m L H c = remove1 m (H c)"
    using nc by (auto simp: next_owner_held_def Let_def split: list.splits)
  have "owner (mutexes k' x) = owner (mutexes k x)" if "x \<noteq> m" for x
  proof -
    have "x \<in> set (next_owner_held c m L H t) \<longleftrightarrow> x \<in> set (H t)" for t
      using that by (auto simp: next_owner_held_def Let_def split: list.splits)
    then have "owner (mutexes k' x) = Some t \<longleftrightarrow> owner (mutexes k x) = Some t" for t
      using k'(4) assms(2) unfolding mutex_ok_def owners_def by blast
    then show ?thesis by (metis option.exhaust)
  qed
  moreover have "wait_sorted k L" using assms(1) by (simp add: kinv_def kinv_but_def)
  from inherited_Max [OF this, of "remove1 m (H c)"]
  have "priority (tcbs k' c) = Max (insert (base_priority (tcbs k c))
      (\<Union>x \<in> set (H c) - {m}. (\<lambda>t. priority (tcbs k t)) ` set (L (Mutex_Wait x))))"
    using H by (simp add: f)
  moreover have "priority (tcbs k' s) = priority (tcbs k s)" if "s \<noteq> c" for s
    using that by (simp add: f next_owner_store_simps)
  moreover have "?L (Mutex_Wait m) = ts \<and> state (tcbs k' n) = Ready \<and> wait_list (tcbs k' n) = None"
    if "L (Mutex_Wait m) = n # ts" for n ts
    using that nc [OF that] by (simp add: f next_owner_lists_def next_owner_store_def enqueue_def Let_def)
  ultimately show ?thesis using k'(1,3-5) H'
    by (intro exI [of _ k'] exI [of _ ?L] exI [of _ "next_owner_wake m L W"]
        exI [of _ "next_owner_held c m L H"]) (auto split: list.splits)
qed

theorem mutex_unlock_witness:
  "\<exists>k'. unlock 0 ex_kernel = Inr (True, k') \<and> owner (mutexes k' 0) = Some 4 \<and> priority (tcbs k' 0) = 2"
  using mutex_unlock [OF ex_kinv ex_mutex_ok, of 0 0] by (auto simp: ex_H_def)

text \<open>C36 Wrong unlocks: a task that does not own the mutex is refused, with assertions on by a failed
  assertion. Before the scheduler starts, though, a free mutex passes the ownership test, null
  being equal to null, and the routine dereferences the null pointer.\<close>

theorem mutex_unlock_errors:
  assumes "current_task k \<noteq> owner (mutexes k m) \<or> current_task k = None"
  shows "unlock m k =
     (if current_task k = owner (mutexes k m) then Inl NullDeref
      else if use_assert k then Inl AssertFailed else Inr (False, k))"
  using assms unlock_other [of k m] unlock_before_start [of k m] by auto

theorem mutex_unlock_errors_witness:
  "unlock 1 ex_kernel = Inl AssertFailed \<and> unlock 0 ex_boot = Inl NullDeref"
  using mutex_unlock_errors [of ex_kernel 1] mutex_unlock_errors [of ex_boot 0]
  by (simp add: ex_boot_def boot_def initial_mutex_def)

text \<open>
  The documentation says that an owner runs at the highest of its own priority and those of
  its waiters. The priority is raised in \<open>lock\<close> and computed again in \<open>unlock\<close> only: when the
  waiter is suspended the owner stays raised, although the mutex has no waiter any more.
\<close>

lemma raised_after_waiter_left:
  "\<exists>k'. suspend_task (Some 4) ex_kernel = Inr k' \<and> owner (mutexes k' 0) = Some 0 \<and>
     priority (tcbs k' 0) = 3 \<and> base_priority (tcbs k' 0) = 2 \<and>
     kinv k' (without 4 ex_L) (remove_wake 4 ex_W) \<and> without 4 ex_L (Mutex_Wait 0) = []"
proof -
  obtain k' where k': "suspend_task (Some 4) ex_kernel = Inr k'"
    "plain k' = plain (yield_if (current_task ex_kernel = Some 4 \<and> started ex_kernel)
       (upd_tcb 4 (\<lambda>b. (unwaited b)\<lparr>state := Suspended\<rparr>) ex_kernel))"
    "kinv k' (without 4 ex_L) (remove_wake 4 ex_W)"
    using suspend_task_ok [OF ex_kinv, of 4] by auto
  note f = plainD [OF k'(2)]
  show ?thesis using k'(1,3) by (intro exI [of _ k']) (simp add: f without_def)
qed

end
