(* ===== verification/Props_Events.thy ===== *)
theory Props_Events
  imports Example_Kernel
begin

text \<open>
  The properties of event groups. Each is followed by its instance on the state of theory
  Example_Kernel.
\<close>

subsection \<open>Setting and waiting for bits\<close>

text \<open>C17 Setting bits: the waiters are visited in the order of the wait list. Each whose condition
  the bits meet at its turn becomes Ready, and takes away the bits it waits for if it asked to;
  the others stay, in order, and the bits that are left meet none of their conditions.\<close>

theorem set_bits_wakes:
  assumes "kinv k L W" and "ts = L (Event_Waiters e)" and "w = event_bits k e OR m"
    and "ws = scan_woken (tcbs k) w ts"
  shows "\<exists>k' L' W'. set_bits e m k = Inr (event_bits k' e, k') \<and> kinv k' L' W' \<and>
           event_bits k' e = scan_bits (tcbs k) w ts \<and> L' (Event_Waiters e) = scan_rest (tcbs k) w ts \<and>
           (\<forall>(t, b) \<in> set ws. condition_met (tcbs k t) b \<and> state (tcbs k' t) = Ready \<and>
              wait_list (tcbs k' t) = None) \<and>
           (\<forall>t \<in> set (L' (Event_Waiters e)). \<not> condition_met (tcbs k' t) (event_bits k' e)) \<and>
           set ts = fst ` set ws \<union> set (L' (Event_Waiters e)) \<and>
           (pendsv k' \<longleftrightarrow> pendsv k \<or> (\<exists>t \<in> fst ` set ws. outranks_current t k))"
proof -
  let ?rest = "scan_rest (tcbs k) w ts"
  let ?L = "scan_lists e k (map fst ws) ?rest L"
  obtain k' where k': "set_bits e m k = Inr (scan_bits (tcbs k) w ts, k')"
    "plain k' = plain (yield_if (\<exists>t \<in> fst ` set ws. outranks_current t k)
       (scan_store e ws (set_event_bits e w k)))"
    "event_bits k' e = scan_bits (tcbs k) w ts" "kinv k' ?L (fold remove_wake (map fst ws) W)"
    using set_bits_ok [OF assms(1,3)] assms(2,4) by blast
  note f = plainD [OF k'(2)]
  have "distinct ts" using wf_lists_distinct [OF wf_kernelD(1) [OF kinv_wf [OF assms(1)]]] assms(2) by simp
  then have part: "set ts = set ?rest \<union> fst ` set ws" using scan_partition assms(4) by blast
  have L: "?L (Event_Waiters e) = ?rest" by (simp add: scan_lists_other)
  have "condition_met (tcbs k t) b \<and> state (tcbs k' t) = Ready \<and> wait_list (tcbs k' t) = None"
    if "(t, b) \<in> set ws" for t b
  proof -
    have "t \<in> fst ` set ws" using that by force
    then show ?thesis using that scan_woken_met assms(4) by (simp add: f scan_store_woken)
  qed
  moreover have "\<not> condition_met (tcbs k' t) (event_bits k' e)" if "t \<in> set ?rest" for t
    using scan_rest_unmet [OF that] k'(3) by (auto simp: condition_met_def f split: if_splits)
  moreover have "pendsv (scan_store e ws (set_event_bits e w k)) = pendsv k"
    by (simp add: scan_store_pendsv set_event_bits_def)
  then have "pendsv k' \<longleftrightarrow> pendsv k \<or> (\<exists>t \<in> fst ` set ws. outranks_current t k)"
    by (simp add: f yield_if_def task_yield_def)
  ultimately show ?thesis using k'(1,3,4) part L
    by (intro exI [of _ k'] exI [of _ ?L] exI [of _ "fold remove_wake (map fst ws) W"]) auto
qed

theorem set_bits_wakes_witness:
  "\<exists>k'. set_bits 0 2 ex_kernel = Inr (0, k') \<and> state (tcbs k' 7) = Ready"
proof -
  have *: "scan_woken (tcbs ex_kernel) (event_bits ex_kernel 0 OR 2) (ex_L (Event_Waiters 0)) = [(7, 3)]"
    "scan_bits (tcbs ex_kernel) (event_bits ex_kernel 0 OR 2) (ex_L (Event_Waiters 0)) = 0"
    by (simp_all add: condition_met_def bits_after_def ex_tcb_def initial_tcb_def)
  show ?thesis using set_bits_wakes [OF ex_kinv refl refl refl, of 0 2] unfolding * by auto
qed

text \<open>C27 What a waiter gets: where the buffers of the waiters do not overlap, a task woken by setting
  bits returns from \<open>wait_bits\<close> with the bits as they were at its turn, before it cleared any,
  and they meet its condition.\<close>

theorem event_bits_delivered:
  assumes "kinv k L W" and "ts = L (Event_Waiters e)"
    and "(t, b) \<in> set (scan_woken (tcbs k) (event_bits k e OR m) ts)"
    and "xfer_ptr (tcbs k t) = Some ret" and "\<not> timeout_expired (tcbs k t)"
    and "\<forall>s \<in> set ts. s \<noteq> t \<longrightarrow> words_apart (xfer_ptr (tcbs k s)) (Some ret)"
  shows "\<exists>k' r. set_bits e m k = Inr (r, k') \<and> wait_bits_result e ret t k' = Inr (b, k') \<and>
           condition_met (tcbs k t) b"
proof -
  let ?ws = "scan_woken (tcbs k) (event_bits k e OR m) ts"
  obtain k' c where k': "set_bits e m k = Inr (scan_bits (tcbs k) (event_bits k e OR m) ts, k')"
    "plain k' = plain (yield_if c (scan_store e ?ws (set_event_bits e (event_bits k e OR m) k)))"
    using set_bits_ok [OF assms(1) refl refl] assms(2) by blast
  note f = plainD [OF k'(2)]
  have "distinct ts" using wf_lists_distinct [OF wf_kernelD(1) [OF kinv_wf [OF assms(1)]]] assms(2) by simp
  then have "load32 ret (mem k') = b"
    using assms(3-6) scan_woken_subset [of "tcbs k" "event_bits k e OR m" ts]
    by (auto simp: f intro!: scan_store_delivers [where t = t] scan_woken_distinct) 
  moreover have "\<not> timeout_expired (tcbs k' t)" using assms(5) by (simp add: f scan_store_woken)
  ultimately show ?thesis using k'(1) scan_woken_met [OF assms(3)]
    by (auto simp: wait_bits_result_def)
qed

theorem event_bits_delivered_witness:
  "\<exists>k' r. set_bits 0 6 ex_kernel = Inr (r, k') \<and> wait_bits_result 0 8000 7 k' = Inr (7, k')"
  using event_bits_delivered [OF ex_kinv refl, of 7 7 0 6 8000]
  by (auto simp: condition_met_def ex_tcb_def initial_tcb_def)

text \<open>C31 Waiting: an empty mask returns the bits at once and changes nothing, whether all or any were
  asked for. With a mask, a condition that holds already is returned without blocking, with the
  bits cleared if asked for; one that does not hold is a poll with time limit 0, and otherwise the
  caller is Blocked on the wait list with its condition and buffer recorded.\<close>

theorem wait_bits_exact:
  assumes "kinv k L W" and "current_task k = Some t" and "state (tcbs k t) = Running" and "ipsr k = 0"
  shows "if m = 0 then wait_bits e m al clr n ret k = Inr (Returned (event_bits k e), k)
         else if (if al then event_bits k e AND m = m else event_bits k e AND m \<noteq> 0)
         then wait_bits e m al clr n ret k = Inr (Returned (event_bits k e),
           k\<lparr>mem := store32 ret (event_bits k e) (store32 ret 0 (mem k)),
             event_bits := (event_bits k)(e := if clr then event_bits k e AND NOT m else event_bits k e)\<rparr>)
         else if n = 0
         then wait_bits e m al clr n ret k = Inr (Returned (event_bits k e), k\<lparr>mem := store32 ret 0 (mem k)\<rparr>)
         else \<exists>k'. wait_bits e m al clr n ret k = Inr (Waiting, k') \<and> state (tcbs k' t) = Blocked \<and>
           wait_list (tcbs k' t) = Some (Event_Waiters e) \<and> xfer_ptr (tcbs k' t) = Some ret \<and>
           event_wait_mask (tcbs k' t) = m \<and> event_wait_all (tcbs k' t) = al \<and>
           event_clear_on_exit (tcbs k' t) = clr \<and> event_bits k' = event_bits k \<and> pendsv k' \<and>
           kinv k' (L(Event_Waiters e := insert_prio (\<lambda>x. priority (tcbs k x)) t (L (Event_Waiters e))))
             (if n = kWaitForever then W else insert_wake t (unat n) W)"
proof -
  consider "m = 0" | "m \<noteq> 0" "bits_satisfy (event_bits k e) m al" | "m \<noteq> 0" "\<not> bits_satisfy (event_bits k e) m al"
    by blast
  then show ?thesis
  proof cases
    case 1
    then show ?thesis by (simp add: wait_bits_def get_bits_eq)
  next
    case 2
    then show ?thesis using wait_bits_match [OF assms(2,4) 2 refl, of clr n ret]
      by (simp add: bits_satisfy_def split: if_splits)
  next
    case 3
    have "\<exists>k'. wait_bits e m al clr n ret k = Inr (Waiting, k') \<and> state (tcbs k' t) = Blocked \<and>
        wait_list (tcbs k' t) = Some (Event_Waiters e) \<and> xfer_ptr (tcbs k' t) = Some ret \<and>
        event_wait_mask (tcbs k' t) = m \<and> event_wait_all (tcbs k' t) = al \<and>
        event_clear_on_exit (tcbs k' t) = clr \<and> event_bits k' = event_bits k \<and> pendsv k' \<and>
        kinv k' (L(Event_Waiters e := insert_prio (\<lambda>x. priority (tcbs k x)) t (L (Event_Waiters e))))
          (if n = kWaitForever then W else insert_wake t (unat n) W)" if n0: "n \<noteq> 0"
    proof -
      obtain k' where k': "wait_bits e m al clr n ret k = Inr (Waiting, k')"
        "plain k' = plain (task_yield (event_wait_store e m al clr ret t k))"
        "kinv k' (parked k (Event_Waiters e) t L) (time_limit n t W)"
        using wait_bits_blocks [OF assms(1-4) 3(1) n0 3(2)] by blast
      note f = plainD [OF k'(2)]
      show ?thesis using k'(1,3) unfolding parked_def time_limit_def
        by (intro exI [of _ k']) (simp add: f event_wait_store_def task_yield_def)
    qed
    then show ?thesis using wait_bits_poll [OF assms(2,4) 3, of clr ret] 3
      by (simp add: bits_satisfy_def split: if_splits)
  qed
qed

theorem wait_bits_exact_witness:
  "\<exists>k'. wait_bits 0 3 True False 5 8300 ex_kernel = Inr (Waiting, k') \<and> state (tcbs k' 0) = Blocked"
  using wait_bits_exact [OF ex_kinv, of 0 3 0 True False 5 8300] by auto

text \<open>
  The other calls that can block accept a time limit of zero before the start and in an
  interrupt handler; \<open>wait_bits\<close> stops at an assertion there, whatever the time limit, and
  even if the condition holds.
\<close>

lemma wait_bits_needs_task:
  assumes "use_assert k" and "current_task k = None \<or> in_isr k" and "m \<noteq> 0"
  shows "wait_bits e m al clr n ret k = Inl AssertFailed"
  using assms by (auto simp: wait_bits_def acr_assert_def in_isr_def Let_def)

end
