(* ===== verification/Props_Queues.thy ===== *)
theory Props_Queues
  imports Example_Kernel
begin

text \<open>
  The properties of message queues. Each is followed by its instance on the state of theory
  Example_Kernel.
\<close>

subsection \<open>The ring\<close>

text \<open>The ring is a bounded first-in first-out queue of items: storing items, as many as there is
  room for, appends their bytes in order whatever the position of head and tail, and taking one
  removes the oldest and copies its bytes out.\<close>

theorem ring_first_in_first_out:
  assumes "ring_ok (queues k q)" and "length (queue_items q k) + length bs \<le> capacity (queues k q)"
    and "\<forall>b \<in> set bs. ring_outside b (queues k q)"
    and "queue_items q (fold (push_raw q) bs k) = x # xs" and "ring_outside out (queues k q)"
  shows "queue_items q (fold (push_raw q) bs k) =
           queue_items q k @ map (\<lambda>b. read_bytes b (item_size (queues k q)) (mem k)) bs \<and>
         (let k' = pop_raw q out (fold (push_raw q) bs k)
          in queue_items q k' = xs \<and> read_bytes out (item_size (queues k q)) (mem k') = x \<and>
             ring_ok (queues k' q))"
proof -
  let ?n = "item_size (queues k q)"
  have ring: "ring_of q (fold (push_raw q) bs k) = fold ring_push bs (ring_of q k)" for bs
    by (induction bs arbitrary: k) (simp_all add: push_raw_eq)
  have n: "item_size (fst (fold ring_push bs s)) = item_size (fst s)" for bs s
    by (induction bs arbitrary: s) simp_all
  have o: "ring_outside b (fst (fold ring_push bs s)) = ring_outside b (fst s)" for b bs s
    by (induction bs arbitrary: s) (simp_all add: rb.fixed)
  let ?s = "fold ring_push bs (ring_of q k)"
  have push: "ring_ok (fst ?s)" "ring_items ?s = queue_items q k @ map (\<lambda>b. read_bytes b ?n (mem k)) bs"
    using rb.push_many [of "ring_of q k" bs] assms(1-3) by (auto simp: queue_items_def)
  have x: "ring_items ?s = x # xs" using assms(4) by (simp add: queue_items_def ring)
  have pop: "ring_items (ring_pop out ?s) = xs" "read_bytes out ?n (snd (ring_pop out ?s)) = x"
    "ring_ok (fst (ring_pop out ?s))"
    using rb.pop [OF push(1) x, of out] assms(5) by (simp_all add: n o)
  show ?thesis using push(2) pop by (simp add: queue_items_def ring pop_raw_eq Let_def)
qed

theorem ring_first_in_first_out_witness:
  "queue_items 0 (pop_raw 0 8200 (push_raw 0 8100 ex_kernel)) = [[5, 6]]"
proof -
  have r: "ring_ok (queues ex_kernel 0)" using ex_queue_ok [of 0] by (simp add: queue_ok_def)
  have i: "queue_items 0 ex_kernel = [[7, 8]]"
    by (simp add: queue_items_def ring_items_def ring_of_def ex_queues_def slot_def read_bytes_def
        store32_def ex_mem_def upt_rec)
  have "queue_items 0 (push_raw 0 8100 ex_kernel) = [[7, 8], [5, 6]]"
    using queue_ok_push(2) [OF ex_queue_ok, of 0 8100]
    by (simp add: i read_bytes_def store32_def ex_mem_def ex_queues_def upt_rec)
  then show ?thesis
    using ring_first_in_first_out [OF r, of "[8100]" "[7, 8]" "[[5, 6]]" 8200]
    by (simp add: i ring_outside_def ex_queues_def Let_def)
qed

subsection \<open>Sending and receiving\<close>

text \<open>C15 Receiving: from a queue that is not empty the oldest item is taken, counting the items of the
  blocked senders, in the order of their wait list, behind those in the ring: the space it leaves
  goes to the first of them. From an empty queue a call with time limit 0 fails and changes
  nothing; any other blocks the caller with its buffer recorded.\<close>

theorem queue_receive_exact:
  assumes "kinv k L W" and "queue_ok q k L"
    and "current_task k = Some t" and "state (tcbs k t) = Running" and "ipsr k = 0"
    and "buffers_apart q k L out"
  shows "if 0 < q_count (queues k q)
         then \<exists>k' L' W'. queue_receive q out n k = Inr (Returned True, k') \<and>
           kinv k' L' W' \<and> queue_ok q k' L' \<and>
           backlog q k L = read_bytes out (item_size (queues k q)) (mem k') # backlog q k' L'
         else if n = 0 then queue_receive q out n k = Inr (Returned False, k)
         else \<exists>k' L' W'. queue_receive q out n k = Inr (Waiting, k') \<and> kinv k' L' W' \<and> queue_ok q k' L' \<and>
           state (tcbs k' t) = Blocked \<and> wait_list (tcbs k' t) = Some (Queue_Receivers q) \<and>
           xfer_ptr (tcbs k' t) = Some out \<and> queue_items q k' = queue_items q k \<and> pendsv k'"
proof (cases "0 < q_count (queues k q)")
  case True
  then show ?thesis using queue_receive_takes [OF assms(1,2) True assms(6), of n] by simp
next
  case False
  then have c: "q_count (queues k q) = 0" by simp
  have "\<exists>k' L' W'. queue_receive q out n k = Inr (Waiting, k') \<and> kinv k' L' W' \<and> queue_ok q k' L' \<and>
      state (tcbs k' t) = Blocked \<and> wait_list (tcbs k' t) = Some (Queue_Receivers q) \<and>
      xfer_ptr (tcbs k' t) = Some out \<and> queue_items q k' = queue_items q k \<and> pendsv k'" if n: "n \<noteq> 0"
  proof -
    obtain k' where k': "queue_receive q out n k = Inr (Waiting, k')"
      "plain k' = plain (task_yield (queue_blocked_store (Queue_Receivers q) out t k))"
      "kinv k' (parked k (Queue_Receivers q) t L) (time_limit n t W)"
      using queue_receive_blocks [OF assms(1) c assms(3,4) n assms(5)] by blast
    have "queue_ok q k' (parked k (Queue_Receivers q) t L)"
      using queue_ok_block [OF assms(2) _ k'(2)] c by simp
    moreover have "queue_items q k' = queue_items q k"
      using ring_of_plain [OF k'(2), of q] by (simp add: queue_items_def queue_blocked_store_def)
    ultimately show ?thesis using k'(1,3) plainD(2,8,10,29) [OF k'(2)]
      by (intro exI [of _ k'] exI [of _ "parked k (Queue_Receivers q) t L"] exI [of _ "time_limit n t W"])
        (simp add: queue_blocked_store_def task_yield_def)
  qed
  then show ?thesis using c queue_receive_empty(1) [OF c, of out] by simp
qed

theorem queue_receive_exact_witness:
  "\<exists>k' L' W'. queue_receive 1 8400 5 ex_kernel = Inr (Returned True, k') \<and> kinv k' L' W' \<and>
     backlog 1 ex_kernel ex_L = read_bytes 8400 2 (mem k') # backlog 1 k' L'"
proof -
  have "buffers_apart 1 ex_kernel ex_L 8400"
    by (simp add: buffers_apart_def ring_outside_def ex_queues_def)
  from queue_receive_exact [OF ex_kinv ex_queue_ok _ _ _ this, of 0 5]
  show ?thesis by (auto simp: ex_queues_def)
qed

text \<open>C16 Sending: a waiting receiver gets the item in its own buffer and becomes Ready, and the ring is
  untouched; without one the item is appended to the ring if there is room. On a full queue a
  call with time limit 0 fails and changes nothing; any other blocks the caller, behind the
  senders of its priority, with its item recorded.\<close>

theorem queue_send_exact:
  assumes "kinv k L W" and "queue_ok q k L"
    and "current_task k = Some t" and "state (tcbs k t) = Running" and "ipsr k = 0"
  shows "case L (Queue_Receivers q) of
      r # rs \<Rightarrow> \<exists>k' x. xfer_ptr (tcbs k r) = Some x \<and> queue_send q item n k = Inr (Returned True, k') \<and>
        read_bytes x (item_size (queues k q)) (mem k') = read_bytes item (item_size (queues k q)) (mem k) \<and>
        state (tcbs k' r) = Ready \<and> wait_list (tcbs k' r) = None \<and> queues k' q = queues k q
    | [] \<Rightarrow>
        if q_count (queues k q) < capacity (queues k q)
        then \<exists>k'. queue_send q item n k = Inr (Returned True, k') \<and> kinv k' L W \<and> queue_ok q k' L \<and>
          queue_items q k' = queue_items q k @ [read_bytes item (item_size (queues k q)) (mem k)]
        else if n = 0 then queue_send q item n k = Inr (Returned False, k)
        else \<exists>k' L'. queue_send q item n k = Inr (Waiting, k') \<and> queue_ok q k' L' \<and>
          kinv k' L' (if n = kWaitForever then W else insert_wake t (unat n) W) \<and>
          L' = L(Queue_Senders q := insert_prio (\<lambda>x. priority (tcbs k x)) t (L (Queue_Senders q))) \<and>
          xfer_ptr (tcbs k' t) = Some item \<and> queue_items q k' = queue_items q k \<and> pendsv k'"
proof (cases "L (Queue_Receivers q)")
  case (Cons r rs)
  obtain x where x: "q_count (queues k q) = 0" "xfer_ptr (tcbs k r) = Some x"
    using queue_ok_receivers [OF assms(2) Cons] by blast
  obtain k' where k': "queue_send q item n k = Inr (Returned True, yield_if (outranks_current r k) k')"
    "plain k' = plain (set_ring q (queues k q, memcpy x item (item_size (queues k q)) (mem k)) (woken_store r k))"
    using queue_send_hand_over [OF assms(1) Cons x refl] by blast
  note f = plainD [OF k'(2)]
  show ?thesis using Cons k'(1) x(2) by (simp add: f woken_store_def)
next
  case Nil
  show ?thesis
  proof (cases "q_count (queues k q) < capacity (queues k q)")
    case True
    have "kinv (push_raw q item k) L W" using assms(1) by (simp add: push_raw_eq)
    then show ?thesis using Nil True queue_send_stored(1) [OF assms(1) Nil True]
        queue_ok_push [OF assms(2) Nil True] by simp
  next
    case False
    have full: "q_count (queues k q) = capacity (queues k q)"
      using False assms(2) by (simp add: queue_ok_def ring_ok_def)
    have "\<exists>k' L'. queue_send q item n k = Inr (Waiting, k') \<and> queue_ok q k' L' \<and>
        kinv k' L' (if n = kWaitForever then W else insert_wake t (unat n) W) \<and>
        L' = L(Queue_Senders q := insert_prio (\<lambda>x. priority (tcbs k x)) t (L (Queue_Senders q))) \<and>
        xfer_ptr (tcbs k' t) = Some item \<and> queue_items q k' = queue_items q k \<and> pendsv k'" if n: "n \<noteq> 0"
    proof -
      obtain k' where k': "queue_send q item n k = Inr (Waiting, k')"
        "plain k' = plain (task_yield (queue_blocked_store (Queue_Senders q) item t k))"
        "kinv k' (parked k (Queue_Senders q) t L) (time_limit n t W)"
        using queue_send_blocks [OF assms(1) Nil False assms(3,4) n assms(5)] by blast
      have "queue_ok q k' (parked k (Queue_Senders q) t L)"
        using queue_ok_block [OF assms(2) _ k'(2)] full by simp
      moreover have "queue_items q k' = queue_items q k"
        using ring_of_plain [OF k'(2), of q] by (simp add: queue_items_def queue_blocked_store_def)
      ultimately show ?thesis using k'(1,3) plainD(10,29) [OF k'(2)] unfolding parked_def time_limit_def
        by (intro exI [of _ k'] exI, intro conjI) (assumption | simp add: queue_blocked_store_def task_yield_def)+
    qed
    then show ?thesis using Nil False queue_send_full(1) [OF assms(1) Nil False, of item] by simp
  qed
qed

theorem queue_send_exact_witness:
  "(\<exists>k'. queue_send 2 8100 5 ex_kernel = Inr (Returned True, k') \<and> state (tcbs k' 10) = Ready \<and>
      read_bytes 8200 2 (mem k') = [5, 6]) \<and>
   queue_send 1 8300 0 ex_kernel = Inr (Returned False, ex_kernel)"
proof -
  have "read_bytes 8100 2 (mem ex_kernel) = [5, 6]"
    by (simp add: read_bytes_def store32_def ex_mem_def upt_rec)
  then show ?thesis
    using queue_send_exact [OF ex_kinv ex_queue_ok, of 0 2 8100 5]
      queue_send_exact [OF ex_kinv ex_queue_ok, of 0 1 8300 0]
    by (auto simp: ex_queues_def)
qed

text \<open>C28 Round trip: an item sent to an empty queue nobody waits on, and then received, arrives
  unchanged, and leaves the queue empty.\<close>

theorem queue_round_trip:
  assumes "kinv k L W" and "queue_ok q k L" and "L (Queue_Receivers q) = []"
    and "q_count (queues k q) = 0" and "ring_outside out (queues k q)"
  shows "\<exists>k1 k2. queue_send q item n k = Inr (Returned True, k1) \<and> queue_count q k1 = Inr (1, k1) \<and>
           queue_receive q out n' k1 = Inr (Returned True, k2) \<and> queue_count q k2 = Inr (0, k2) \<and>
           read_bytes out (item_size (queues k q)) (mem k2) = read_bytes item (item_size (queues k q)) (mem k)"
proof -
  let ?k = "push_raw q item k" and ?x = "read_bytes item (item_size (queues k q)) (mem k)"
  have rok: "ring_ok (queues k q)" using assms(2) by (simp add: queue_ok_def)
  then have room: "q_count (queues k q) < capacity (queues k q)" using assms(4) by (simp add: ring_ok_def)
  have S: "L (Queue_Senders q) = []"
    using assms(2,4) rok by (auto simp: queue_ok_def ring_ok_def)
  have "queue_items q k = []" using length_queue_items [of q k] assms(4) by simp
  then have it: "ring_items (ring_push item (ring_of q k)) = ?x # []"
    using queue_ok_push(2) [OF assms(2,3) room, of item] by (simp add: queue_items_def push_raw_eq)
  have ok: "ring_ok (fst (ring_push item (ring_of q k)))"
    using queue_ok_push(1) [OF assms(2,3) room, of item] by (simp add: queue_ok_def push_raw_eq)
  have rd: "read_bytes out (item_size (queues k q)) (mem (pop_raw q out ?k)) = ?x"
    using rb.pop [OF ok it, of out] assms(5) by (simp add: push_raw_eq pop_raw_eq rb.fixed)
  have inv: "kinv ?k L W" using assms(1) by (simp add: push_raw_eq)
  have c: "q_count (queues ?k q) = 1" using assms(4) by (simp add: push_raw_eq)
  have "queue_receive q out n' ?k = Inr (Returned True, pop_raw q out ?k)"
    by (rule queue_receive_stored(1) [OF inv S]) (simp add: c)
  moreover have "queue_count q K = Inr (q_count (queues K q), K)" for K
    by (simp add: queue_count_def critical_def enter_critical_def exit_critical_def)
  ultimately show ?thesis using queue_send_stored(1) [OF assms(1,3) room] c rd
    by (simp add: pop_raw_eq)
qed

theorem queue_round_trip_witness:
  "\<exists>k1 k2. queue_send 3 8100 0 ex_kernel = Inr (Returned True, k1) \<and>
     queue_receive 3 8200 0 k1 = Inr (Returned True, k2) \<and> read_bytes 8200 2 (mem k2) = [5, 6]"
proof -
  have "read_bytes 8100 2 (mem ex_kernel) = [5, 6]"
    by (simp add: read_bytes_def store32_def ex_mem_def upt_rec)
  moreover have "ring_outside 8200 (queues ex_kernel 3)" by (simp add: ring_outside_def ex_queues_def)
  ultimately show ?thesis
    using queue_round_trip [OF ex_kinv ex_queue_ok, of 3 8200 8100 0 0] by (auto simp: ex_queues_def)
qed

text \<open>Construction: a queue made under the static assertions of the template, from a type of at
  least one byte, is an empty ring at the given storage, and the lists stay as they are where
  nobody waits; with assertions on a null buffer, a zero size and a zero capacity are refused.\<close>

theorem queue_construction:
  assumes "kinv k L W" and "L (Queue_Senders q) = []" and "L (Queue_Receivers q) = []"
    and "queue_type_ok isz cap" and "0 < isz"
  shows "(\<exists>k'. create_queue q st isz cap k = Inr k' \<and> kinv k' L W \<and> queue_ok q k' L \<and>
            queue_items q k' = [] \<and> storage (queues k' q) = st \<and> item_size (queues k' q) = isz \<and>
            queue_capacity q k' = cap) \<and>
         (use_assert k \<longrightarrow> construct_queue q None isz cap k = Inl AssertFailed \<and>
            construct_queue q p 0 cap k = Inl AssertFailed \<and> construct_queue q p isz 0 k = Inl AssertFailed)"
proof -
  note wf = wf_kernelD(1) [OF kinv_wf [OF assms(1)]]
  have same: "upd_list l (\<lambda>_. initial_list) k = k" if "L l = []" for l
  proof -
    have "lists k l = initial_list"
      using wf_lists_head [OF wf, of l] wf_lists_tail [OF wf, of l] that
      by (simp add: initial_list_def)
    then have "(lists k)(l := initial_list) = lists k" by auto
    then show ?thesis by (simp add: upd_list_def)
  qed
  let ?c = "\<lparr>storage = st, item_size = isz, capacity = cap, q_head = 0, q_tail = 0, q_count = 0\<rparr>"
  let ?k = "set_ring q (?c, mem k) k"
  have "create_queue q st isz cap k = Inr ?k"
    using assms(4,5) same [OF assms(2)] same [OF assms(3)]
    by (simp add: create_queue_def construct_queue_def queue_type_ok_def acr_assert_def upd_queue_def set_ring_def)
  moreover have "queue_ok q ?k L" "queue_items q ?k = []"
    using assms(2-5) by (simp_all add: queue_ok_def ring_ok_def queue_type_ok_def queue_items_def ring_items_def)
  moreover have "construct_queue q p' isz' cap' k = Inl AssertFailed"
    if "use_assert k" "p' = None \<or> isz' = 0 \<or> cap' = 0" for p' isz' cap'
    using that by (auto simp: construct_queue_def acr_assert_def upd_list_def)
  ultimately show ?thesis using assms(1) by (intro conjI exI [of _ ?k] impI) (simp_all add: queue_capacity_def)
qed

theorem queue_construction_witness:
  "(\<exists>k'. create_queue 0 9000 4 8 ex_kernel = Inr k' \<and> queue_items 0 k' = [] \<and> queue_capacity 0 k' = 8) \<and>
   construct_queue 0 None 4 8 ex_kernel = Inl AssertFailed"
  using queue_construction [OF ex_kinv, of 0 4 8 9000 "Some 9000"] by (auto simp: queue_type_ok_def)

end
