(* ===== verification/Interrupt_Masking.thy ===== *)
theory Interrupt_Masking
  imports Kept_Facts
begin

text \<open>
  PRIMASK over a whole call: no operation returns with another value of it than it found. A
  critical section needs no look inside for this, as it restores the value itself.
\<close>

abbreviation leaves :: "bool \<Rightarrow> ('a \<Rightarrow> kernel) \<Rightarrow> 'a res \<Rightarrow> bool" where
  "leaves p \<equiv> keeps (\<lambda>k. primask k = p)"

lemma leaves_critical:
  "p = primask k \<Longrightarrow> leaves p snd (critical body k)"
  "p = primask k \<Longrightarrow> leaves p (\<lambda>k. k) (critical_u body' k)"
  by (auto simp: keeps_def critical_def critical_u_def enter_critical_def exit_critical_def andthen_eq_Inr)

lemmas leaves_rules = leaves_critical keeps_rules

subsection \<open>Tasks and time\<close>

lemma primask_fields [simp]:
  "primask (task_yield k) = primask k" "primask (set_event_bits e w k) = primask k"
  by (simp_all add: task_yield_def)

lemma leaves_ready:
  "p = primask k \<Longrightarrow> leaves p (\<lambda>k. k) (rm_add (Some t) k)"
  "p = primask k \<Longrightarrow> leaves p snd (get_highest_priority_task k)"
  "p = primask k \<Longrightarrow> leaves p (\<lambda>k. k) (add_to_ready_queue t' k)"
  "p = primask k \<Longrightarrow> leaves p snd (allocate_tcb k)"
  unfolding rm_add_def get_highest_priority_task_def add_to_ready_queue_def allocate_tcb_def Let_def
  by (simp_all, (intro leaves_rules; simp)+)

lemma leaves_handler: "leaves False snd (PendSV_Handler c k)"
  by (auto simp: keeps_def PendSV_Handler_def andthen_eq_Inr case_prod_unfold Let_def)

lemma leaves_tasks:
  "leaves (primask k) (\<lambda>k. k) (delay_ms n k)" "leaves (primask k) (\<lambda>k. k) (delay_until n k)"
  "leaves (primask k) (\<lambda>k. k) (sched_tick k)" "leaves (primask k) (\<lambda>k. k) (suspend_task t k)"
  "leaves (primask k) (\<lambda>k. k) (resume_task t k)" "leaves (primask k) (\<lambda>k. k) (delete_task t k)"
  unfolding delay_ms_def delay_until_def sched_tick_def suspend_task_def resume_task_def delete_task_def Let_def
  by (intro leaves_rules; simp)+

lemma leaves_create:
  "m = primask k \<Longrightarrow> leaves m snd (create_task site buf words n construct tramp p k)"
  unfolding create_task_def create_task_impl_def Let_def case_prod_unfold
  by (intro leaves_ready leaves_rules) simp_all

lemma leaves_start: "leaves (primask k) (\<lambda>k. k) (start site buf construct tramp k)"
  unfolding start_def start_hardware_and_yield_def configure_pendsv_and_systick_def Let_def
  by (intro leaves_create leaves_rules)
    (simp_all add: enable_fpu_lazy_stacking_def write_reg_def Let_def)

subsection \<open>Synchronisation objects\<close>

lemma leaves_ipc:
  "leaves (primask k) snd (take_sem s n k)" "leaves (primask k) snd (try_take s k)"
  "leaves (primask k) (\<lambda>k. k) (give s k)" "leaves (primask k) snd (give_locked s k)"
  "leaves (primask k) snd (lock m k)" "leaves (primask k) snd (unlock m k)"
  unfolding take_sem_def try_take_def give_def give_locked_def lock_def unlock_def Let_def
  by (intro leaves_rules; simp)+

lemma leaves_queue:
  "leaves (primask k) snd (queue_send q a n k)" "leaves (primask k) snd (queue_receive q a n k)"
  "leaves (primask k) snd (queue_send_from_isr q a k)" "leaves (primask k) snd (queue_receive_from_isr q a k)"
  unfolding queue_send_def queue_receive_def queue_send_from_isr_def queue_receive_from_isr_def
  by (intro leaves_rules; simp add: finish_call_def keeps_def split: prod.split option.split)+

lemma leaves_event:
  "leaves (primask k) snd (wait_bits e m al clr n ret k)" "leaves (primask k) snd (set_bits e m k)"
  "leaves (primask k) snd (set_bits_locked e m k)" "leaves (primask k) snd (clear_bits e m k)"
  unfolding wait_bits_def get_bits_def set_bits_def set_bits_locked_def clear_bits_def Let_def
  by (intro leaves_rules; simp add: keeps_def split: prod.split)+

end
