(* ===== verification/Props_Port.thy ===== *)
theory Props_Port
  imports Example_Kernel Interrupt_Masking Lasting_Facts
begin

text \<open>
  The properties of the Cortex-M4 port and of starting and ending: interrupt masking, the
  initial stack frame, the hardware set up for the tick, the start of the
  scheduler and the end of a task. Each is followed by its instance.
\<close>

subsection \<open>Interrupt masking\<close>

text \<open>C21 Interrupts are never left masked: whatever the state, a call, an interrupt handler or a context
  switch that returns leaves PRIMASK as it found it, on every path, early returns included.\<close>

theorem primask_restored:
  assumes "exec c k = Inr k'" and "is_switch c \<Longrightarrow> \<not> primask k"
  shows "primask k' = primask k"
proof -
  have "leaves (primask k) (\<lambda>k. k) (exec c k)"
  proof (cases c)
    case (Switch d)
    then show ?thesis using assms(2) leaves_handler [of d "at_entry k"]
      by (simp add: keeps_state_of)
  next
    case Tick
    then show ?thesis using leaves_tasks(3) [of k]
      by (auto simp: keeps_def SysTick_Handler_def rtos_tick_handler_def acrtos_tick_hook_def andthen_eq_Inr)
  qed (simp_all add: keeps_state_of leaves_tasks leaves_create leaves_start leaves_ipc
      leaves_queue leaves_event task_suspend_def task_resume_def task_terminate_def try_take_from_isr_def
      give_from_isr_def typed_send_def typed_receive_def typed_send_from_isr_def
      typed_receive_from_isr_def set_bits_from_isr_def, simp_all add: keeps_def)
  then show ?thesis using assms(1) by (rule keepsD)
qed

theorem primask_restored_witness:
  "\<exists>k'. exec (Unlock 0) ex_kernel = Inr k' \<and> \<not> primask k'"
proof -
  obtain k' where k': "exec (Unlock 0) ex_kernel = Inr k'"
    using exec_ok [OF ex_sys_ok, of "Unlock 0"] by (auto simp: in_task_def)
  then show ?thesis using primask_restored [OF k'] by simp
qed

subsection \<open>The initial stack\<close>

text \<open>The initial frame of a task: seventeen words below the given top, r4 to r11, the exception return
  to thread mode on the process stack, and the hardware frame with the parameter in r0, the entry
  point with the Thumb bit in pc and the Thumb state in xPSR. No other byte of memory is written.\<close>

theorem initial_frame_exact:
  assumes "68 \<le> hi" and "init_task_stack hi entry param m = (s, m')"
  shows "s = hi - 68 \<and>
         (\<forall>i < 8. load32 (s + 4 * i) m' = 0) \<and> load32 (s + 32) m' = 0xFFFFFFFD \<and>
         load32 (s + 36) m' = of_nat param \<and>
         load32 (s + 60) m' = of_nat entry OR 1 \<and> load32 (s + 64) m' = 0x01000000 \<and>
         (\<forall>a. a \<notin> {s..<hi} \<longrightarrow> m' a = m a)"
proof -
  have s: "s = hi - 68" using init_task_stack_sp [of hi entry param m] assms(2) by simp
  have ld: "load32 (s + 4 * i) m' = frame_words entry param ! i" if "i < 17" for i
    using init_task_stack_frame [OF assms(1) that, of entry param m] assms(2) s by simp
  have out: "m' a = m a" if "a \<notin> {s..<hi}" for a
    using init_task_stack_outside [OF assms(1), of a entry param m] assms(2) s that by auto
  have "load32 (s + 4 * i) m' = 0" if "i < 8" for i
    using ld [of i] that by (simp add: frame_words_def nth_append)
  then show ?thesis using s out ld [of 8] ld [of 9] ld [of 15] ld [of 16]
    by (simp add: frame_words_def nth_append)
qed

theorem initial_frame_exact_witness:
  "load32 (932 + 64) (snd (init_task_stack 1000 64 800 ex_mem)) = 0x01000000"
  using initial_frame_exact [of 1000 64 800 ex_mem] init_task_stack_sp [of 1000 64 800 ex_mem]
  by (cases "init_task_stack 1000 64 800 ex_mem") simp

subsection \<open>The context switch\<close>

text \<open>The state of theory Example_Kernel at a switch: task 0 leaves the processor to task 8.\<close>

definition ex_at_switch :: "(addr \<Rightarrow> 8 word) \<Rightarrow> kernel" where
  "ex_at_switch m = ex_kernel\<lparr>pendsv := True, psp := 1900, mem := m\<rparr>"

lemma ex_at_switch_simps [simp]:
  "current_task (ex_at_switch m) = Some 0" "psp (ex_at_switch m) = 1900" "mem (ex_at_switch m) = m"
  "pendsv (ex_at_switch m)" "\<not> primask (ex_at_switch m)" "started (ex_at_switch m)"
  "tcbs (ex_at_switch m) = ex_tcb" "task_count (ex_at_switch m) = 11" "ntasks (ex_at_switch m) = 11"
  by (simp_all add: ex_at_switch_def ntasks_def)

lemma ex_may_switch:
  assumes "load32 1000 m = kStackCanary"
  shows "sys_ok (ex_at_switch m)" and "canary_intact (enter_switch c (ex_at_switch m))"
    and "may_switch c (ex_at_switch m)"
proof -
  show "sys_ok (ex_at_switch m)" using ex_sys_ok by (simp add: ex_at_switch_def)
  show can: "canary_intact (enter_switch c (ex_at_switch m))"
    using assms enter_switch_load [of "ex_at_switch m" 1000 c] by (simp add: canary_intact_def)
  have "can_run (ex_at_switch m)" unfolding can_run_def by (rule exI [of _ 0]) simp
  then show "may_switch c (ex_at_switch m)" using can by (simp add: may_switch_def)
qed

lemma ex_switched:
  assumes "load32 1000 m = kStackCanary"
  shows "\<exists>k1. PendSV_Handler c (at_entry (ex_at_switch m)) =
       Inr (fst (restore_context c k1), (snd (restore_context c k1))\<lparr>primask := False\<rparr>) \<and>
     plain k1 = plain (switch_to 8 (enter_switch c (at_entry (ex_at_switch m)))) \<and>
     kinv k1 (ex_L(Ready_List 3 := [0])) ex_W"
proof -
  have "kinv (ex_at_switch m) ex_L ex_W" using ex_kinv by (simp add: ex_at_switch_def)
  moreover have r: "requeue_current (at_entry (ex_at_switch m)) ex_L = ex_L(Ready_List 3 := [8, 0])"
    by (simp add: requeue_current_def enqueue_def Let_def)
  moreover have "highest_ready (ex_L(Ready_List 3 := [8, 0])) 3" by (simp add: highest_ready_def)
  ultimately show ?thesis
    using PendSV_next [of "at_entry (ex_at_switch m)" ex_L ex_W c 3 8 "[0]"] ex_may_switch(2) [OF assms] by simp
qed

text \<open>C5 The context of a task survives: a task that is switched out comes back, whatever calls, interrupts
  and switches run while it is away, with r4 to r11, the exception return value and, if it has used
  the floating point unit, s16 to s31 as it left them, its stack pointer on the same hardware
  frame, and interrupts unmasked; if only nobody writes to its stack in between.\<close>

theorem context_survives:
  assumes "sys_ok k" and "started k" and "allowed (Switch c) k" and "psp k \<noteq> 0" and "current_task k = Some t"
    and "exec (Switch c) k = Inr k1" and "away_run t k1 k2"
    and "allowed (Switch c2) k2" and "PendSV_Handler c2 (at_entry k2) = Inr (c3, k3)" and "current_task k3 = Some t"
    and "\<forall>a \<in> {psp k - 100..<psp k}. mem k2 a = mem k1 a"
    and "psp k2 \<le> psp k - 100 \<or> psp k + 100 \<le> psp k2"
  shows "map (core_reg c3) [4..<12] = map (core_reg c) [4..<12] \<and> link_reg c3 = link_reg c \<and>
     (uses_fpu (link_reg c) \<longrightarrow> map (fpu_reg c3) [16..<32] = map (fpu_reg c) [16..<32]) \<and>
     psp k3 = psp k \<and> \<not> primask k3"
proof -
  let ?n = "length (context_words c)"
  have n: "4 * ?n \<le> 100" by simp
  obtain L W where inv: "kinv k L W" using assms(1) by (auto simp: sys_ok_def)
  have psp: "100 \<le> psp k" using assms(3,4) by (simp add: may_switch_def)
  have s: "sp (tcbs k1 t) = psp k - 4 * ?n" "holds_words (mem k1) (sp (tcbs k1 t)) (context_words c)"
    using PendSV_switched_out [of "at_entry k" L W c t] inv assms(3-6) by auto
  have ok: "sys_ok k1" using exec_switch [OF assms(1)] assms(3,6) by fastforce
  have "saved t (sp (tcbs k1 t)) (current_task k1) k1"
    using switch_effect(1,2) [OF inv _ assms(6)] assms(3) kinv_current [OF inv assms(5)] assms(2) by (simp add: saved_def)
  then have "sys_ok k2" and sp2: "sp (tcbs k2 t) = sp (tcbs k1 t)"
    using away.run_lasting [OF assms(7) ok] by (simp_all add: saved_def)
  then obtain L2 W2 where inv2: "kinv k2 L2 W2" by (auto simp: sys_ok_def)
  have "load32 (sp (tcbs k1 t) + 4 * i) (mem k2) = load32 (sp (tcbs k1 t) + 4 * i) (mem k1)" if "i < ?n" for i
  proof -
    have "sp (tcbs k1 t) + 4 * i + b \<in> {psp k - 100..<psp k}" if "b < 4" for b
      using s(1) psp n \<open>i < ?n\<close> that by (auto simp del: length_context_words)
    then have "mem k2 (sp (tcbs k1 t) + 4 * i + b) = mem k1 (sp (tcbs k1 t) + 4 * i + b)" if "b < 4" for b
      using assms(11) that by blast
    from this [of 0] this [of 1] this [of 2] this [of 3] show ?thesis by (simp add: load32_def)
  qed
  then have holds: "holds_words (mem k2) (sp (tcbs k2 t)) (context_words c)"
    using s(2) sp2 by (simp add: holds_words_def)
  have apart: "psp k2 \<le> sp (tcbs k2 t) \<or> sp (tcbs k2 t) + 4 * ?n + 100 \<le> psp k2"
    using sp2 assms(12) s(1) psp n by (auto simp del: length_context_words)
  have "sp (tcbs k2 t) + 4 * ?n = psp k"
    using sp2 s(1) psp n by (simp del: length_context_words)
  with PendSV_switched_in [of "at_entry k2" L2 W2 c2 t c] inv2 assms(8-10) apart holds tame_now [OF assms(7)]
  show ?thesis by auto
qed

theorem context_survives_witness:
  "\<exists>k1 k2 c2 c3 k3. exec (Switch ex_cpu) (ex_at_switch (store32 7000 kStackCanary (store32 1000 kStackCanary (\<lambda>_. 0)))) = Inr k1 \<and>
     away_run 0 k1 k2 \<and> current_task k2 = Some 8 \<and> PendSV_Handler c2 (at_entry k2) = Inr (c3, k3) \<and>
     current_task k3 = Some 0 \<and> map (core_reg c3) [4..<12] = replicate 8 7 \<and> psp k3 = 1900"
proof -
  define m where "m = store32 7000 kStackCanary (store32 1000 kStackCanary (\<lambda>_. 0))"
  let ?k = "ex_at_switch m"
  have m: "load32 1000 m = kStackCanary" "load32 7000 m = kStackCanary" "load32 7132 m = 0"
    by (simp_all add: m_def load32_store32_other) (simp add: load32_def)
  note may = ex_may_switch [OF m(1)]
  obtain k1 where k1: "PendSV_Handler ex_cpu (at_entry ?k) =
       Inr (fst (restore_context ex_cpu k1), (snd (restore_context ex_cpu k1))\<lparr>primask := False\<rparr>)"
    "plain k1 = plain (switch_to 8 (enter_switch ex_cpu (at_entry ?k)))" "kinv k1 (ex_L(Ready_List 3 := [0])) ex_W"
    using ex_switched [OF m(1)] by blast
  note f = plainD [OF k1(2)]
  define k' where "k' = (snd (restore_context ex_cpu k1))\<lparr>primask := False\<rparr>"
  define k2 where "k2 = task_yield k'"
  have sp1: "current_sp k1 = 7100" "mem k1 = mem (enter_switch ex_cpu ?k)" "current_task k1 = Some 8"
    by (simp_all add: f switch_to_def save_current_def Let_def ex_tcb_def)
  then have ld: "load32 7132 (mem k1) = 0" "load32 7000 (mem k1) = kStackCanary"
    using m(2,3) enter_switch_load [of ?k _ ex_cpu] by simp_all
  have k2: "psp k2 = 7200" "mem k2 = mem k1" "current_task k2 = Some 8" "current_task k' = Some 8" "mem k' = mem k1"
    "pendsv k2" "\<not> primask k2"
    "kinv k2 (ex_L(Ready_List 3 := [0])) ex_W" and same: "tcbs k2 = tcbs k1" "ntasks k2 = ntasks k1"
    using sp1 k1(3) ld
    by (simp_all add: k2_def k'_def restore_context_def Let_def uses_fpu_def ntasks_def task_yield_def)
  have t8: "state (tcbs k2 8) = Running" "priority (tcbs k2 8) = 3" "stack_base (tcbs k2 8) = 7000" "ntasks k2 = 11"
    by (simp_all add: same f switch_to_def save_current_def Let_def ex_tcb_def)
      (simp add: ntasks_def f switch_to_def save_current_def Let_def)
  have can: "canary_intact (enter_switch ex_cpu (at_entry k2))"
    using ld enter_switch_load [of k2 7000 ex_cpu] by (simp add: canary_intact_def k2 t8)
  have "can_run k2" unfolding can_run_def by (rule exI [of _ 8]) (simp add: t8)
  then have may2: "allowed (Switch ex_cpu) k2" using can by (simp add: may_switch_def k2)
  have r: "requeue_current (at_entry k2) (ex_L(Ready_List 3 := [0])) = ex_L(Ready_List 3 := [0, 8])"
    by (simp add: requeue_current_def enqueue_def Let_def k2 t8)
  have "highest_ready (ex_L(Ready_List 3 := [0, 8])) 3" by (simp add: highest_ready_def)
  with PendSV_next [OF _ can, of "ex_L(Ready_List 3 := [0])" ex_W 3 0 "[8]", unfolded r] k2(8) obtain k3 where
    k3: "PendSV_Handler ex_cpu (at_entry k2) = Inr (fst (restore_context ex_cpu k3), (snd (restore_context ex_cpu k3))\<lparr>primask := False\<rparr>)"
    "plain k3 = plain (switch_to 0 (enter_switch ex_cpu (at_entry k2)))" by auto
  have cur3: "current_task ((snd (restore_context ex_cpu k3))\<lparr>primask := False\<rparr>) = Some 0"
    using plainD(15) [OF k3(2)] by (simp add: switch_to_def Let_def restore_context_fields)
  have al: "allowed (Switch ex_cpu) ?k" using may(3) by simp
  have run: "exec (Switch ex_cpu) ?k = Inr k'" using k1(1) by (simp add: k'_def)
  have "kstep k' Yield k2" by (simp add: kstep_iff k2_def)
  then have aw: "away_run 0 k' k2"
    by (intro tame_step [OF tame_refl]) (simp_all add: k2)
  have "map (core_reg (fst (restore_context ex_cpu k3))) [4..<12] = map (core_reg ex_cpu) [4..<12] \<and>
      psp (snd (restore_context ex_cpu k3)) = 1900"
    using context_survives [OF may(1) _ al _ _ run aw may2 k3(1) cur3] by (simp add: k2 del: upt_rec_numeral)
  moreover have "map (core_reg ex_cpu) [4..<12] = replicate 8 7"
    by (simp add: ex_cpu_def map_replicate_const del: upt_rec_numeral)
  ultimately show ?thesis using run aw k3(1) cur3 k2(3) unfolding m_def
    by (intro exI conjI) (assumption | simp del: upt_rec_numeral)+
qed

text \<open>C39 The first run of a task: when the handler first picks a task whose stack holds the initial
  frame, it leaves r4 to r11 zero, returns to thread mode on the process stack without a floating
  point frame, and the hardware frame at the stack pointer enters the task function with its
  parameter in r0.\<close>

theorem first_switch_in:
  assumes "sys_ok k" and "may_switch c k" and "current_task k \<noteq> Some t"
    and "init_task_stack hi entry param m = (sp (tcbs k t), m')" and "68 \<le> hi"
    and "\<forall>a \<in> {sp (tcbs k t)..<hi}. mem k a = m' a"
    and "psp k \<le> sp (tcbs k t) \<or> hi + 100 \<le> psp k"
  shows "\<exists>c' k'. PendSV_Handler c k = Inr (c', k') \<and> \<not> primask k' \<and>
     (current_task k' = Some t \<longrightarrow>
        map (core_reg c') [4..<12] = replicate 8 0 \<and> link_reg c' = 0xFFFFFFFD \<and> psp k' = hi - 32 \<and>
        holds_words (mem k') (hi - 32) [of_nat param, 0, 0, 0, 0, 0, of_nat entry OR 1, 0x01000000])"
proof -
  let ?s = "sp (tcbs k t)"
  obtain L W where inv: "kinv k L W" using assms(1) by (auto simp: sys_ok_def)
  define d where "d = \<lparr>core_reg = \<lambda>_. 0, fpu_reg = \<lambda>_. 0, link_reg = 0xFFFFFFFD\<rparr>"
  have nofpu: "\<not> uses_fpu (link_reg d)" by (simp add: d_def uses_fpu_def)
  have s: "?s = hi - 68" using init_task_stack_sp [of hi entry param m] assms(4) by simp
  have ld: "load32 (?s + 4 * i) (mem k) = frame_words entry param ! i" if "i < 17" for i
  proof -
    have "?s + 4 * i + b \<in> {?s..<hi}" if "b < 4" for b using s assms(5) \<open>i < 17\<close> that by auto
    then have "mem k (?s + 4 * i + b) = m' (?s + 4 * i + b)" if "b < 4" for b using assms(6) that by blast
    from this [of 0] this [of 1] this [of 2] this [of 3]
    have "load32 (?s + 4 * i) (mem k) = load32 (?s + 4 * i) m'" by (simp add: load32_def)
    then show ?thesis using init_task_stack_frame [OF assms(5) that, of entry param m] assms(4) s by simp
  qed
  have words: "frame_words entry param = context_words d @
      [of_nat param, 0, 0, 0, 0, 0, of_nat entry OR 1, 0x01000000]"
    using nofpu by (simp add: frame_words_def context_words_def) (simp add: d_def numeral_eq_Suc)
  have "holds_words (mem k) ?s (context_words d)"
    unfolding holds_words_def using ld nofpu by (simp add: words nth_append)
  moreover have "psp k \<le> ?s \<or> ?s + 4 * length (context_words d) + 100 \<le> psp k"
    using assms(5,7) s nofpu by auto
  ultimately obtain c' k' where run: "PendSV_Handler c k = Inr (c', k')" "\<not> primask k'"
    and picked: "current_task k' = Some t \<Longrightarrow>
      map (core_reg c') [4..<12] = map (core_reg d) [4..<12] \<and> link_reg c' = link_reg d \<and>
      psp k' = ?s + 36 \<and> mem k' = mem (enter_switch c k)"
    using PendSV_switched_in [OF inv assms(2,3), of d] nofpu by (auto simp del: upt_rec_numeral)
  have "load32 (?s + 36 + 4 * i) (mem (enter_switch c k)) = frame_words entry param ! (9 + i)" if "i < 8" for i
  proof -
    have "psp k \<le> ?s + 4 * (9 + i) \<or> ?s + 4 * (9 + i) + 4 + 100 \<le> psp k" using that s assms(5,7) by auto
    from enter_switch_load [OF _ this, of c] assms(2) show ?thesis
      using ld [of "9 + i"] that by (simp add: may_switch_def add.assoc)
  qed
  then have hw: "holds_words (mem (enter_switch c k)) (?s + 36)
      [of_nat param, 0, 0, 0, 0, 0, of_nat entry OR 1, 0x01000000]"
    using nofpu by (simp add: holds_words_def words nth_append)
  have "map (core_reg d) [4..<12] = replicate 8 0" "link_reg d = 0xFFFFFFFD" "?s + 36 = hi - 32"
    using s assms(5) by (simp_all add: d_def map_replicate_const del: upt_rec_numeral)
  then show ?thesis
    using run picked hw by (intro exI [of _ c'] exI [of _ k']) (auto simp del: upt_rec_numeral)
qed

theorem first_switch_in_witness:
  "\<exists>c' k'. PendSV_Handler ex_cpu (at_entry (ex_at_switch (snd (init_task_stack 7168 64 800 (store32 1000 kStackCanary (\<lambda>_. 0)))))) = Inr (c', k') \<and>
     current_task k' = Some 8 \<and> link_reg c' = 0xFFFFFFFD \<and> psp k' = 7136 \<and> load32 (7136 + 24) (mem k') = 65"
proof -
  define m where "m = snd (init_task_stack 7168 64 800 (store32 1000 kStackCanary (\<lambda>_. 0)))"
  let ?k = "at_entry (ex_at_switch m)"
  have "m (1000 + b) = store32 1000 kStackCanary (\<lambda>_. 0) (1000 + b)" if "b < 4" for b
    unfolding m_def by (rule init_task_stack_outside) (use that in simp_all)
  from this [of 0] this [of 1] this [of 2] this [of 3]
  have "load32 1000 m = load32 1000 (store32 1000 kStackCanary (\<lambda>_. 0))" by (simp add: load32_def)
  then have m: "load32 1000 m = kStackCanary" by simp
  note may = ex_may_switch [OF m]
  obtain k1 where k1: "PendSV_Handler ex_cpu ?k =
       Inr (fst (restore_context ex_cpu k1), (snd (restore_context ex_cpu k1))\<lparr>primask := False\<rparr>)"
    "plain k1 = plain (switch_to 8 (enter_switch ex_cpu ?k))"
    using ex_switched [OF m] by blast
  have "current_task k1 = Some 8" using plainD(15) [OF k1(2)] by (simp add: switch_to_def Let_def)
  moreover have "init_task_stack 7168 64 800 (store32 1000 kStackCanary (\<lambda>_. 0)) = (sp (tcbs ?k 8), m)"
    using init_task_stack_sp [of 7168 64 800 "store32 1000 kStackCanary (\<lambda>_. 0)"]
    by (simp add: m_def ex_tcb_def prod_eq_iff)
  ultimately obtain c' k' where "PendSV_Handler ex_cpu ?k = Inr (c', k')"
    "link_reg c' = 0xFFFFFFFD" "psp k' = 7136" "current_task k' = Some 8"
    "holds_words (mem k') 7136 [800, 0, 0, 0, 0, 0, 65, 0x01000000]"
    using first_switch_in [of ?k ex_cpu 8 7168 64 800 "store32 1000 kStackCanary (\<lambda>_. 0)" m] k1(1) may
    by (fastforce simp: restore_context_fields ex_tcb_def simp del: upt_rec_numeral)
  then show ?thesis using holds_wordsD [of "mem k'" 7136 _ 6] by (fastforce simp: m_def)
qed

subsection \<open>The tick timer\<close>

lemma reload_period:
  assumes "2000 \<le> hz"
  shows "unat (systick_reload hz) + 1 = unat hz div 1000" and "reload_ok hz"
proof -
  have "unat hz < 2 ^ LENGTH(32)" by (rule unsigned_less)
  moreover have "(2 :: nat) ^ LENGTH(32) = 4294967296" by simp
  ultimately have "unat hz \<le> 4294967295" by linarith
  from div_le_mono [OF this, of 1000] have hz: "2 \<le> unat hz div 1000" "unat hz div 1000 \<le> 4294967"
    using assms by (simp_all add: word_le_nat_alt)
  have d: "unat (hz div 1000) = unat hz div 1000" by (simp add: unat_div)
  then have "(1 :: 32 word) \<le> hz div 1000" using hz(1) by (simp add: word_le_nat_alt)
  then have r: "unat (systick_reload hz) = unat hz div 1000 - 1"
    by (simp add: systick_reload_def kTickRateMs_def unat_sub d)
  then show "unat (systick_reload hz) + 1 = unat hz div 1000" using hz(1) by simp
  show "reload_ok hz" using hz r by (simp add: reload_ok_def word_less_nat_alt word_le_nat_alt)
qed

lemma shpr3_halves:
  fixes x :: "32 word"
  shows "drop_bit 16 ((x AND 0xFFFF) OR 0xFEFF0000) = 0xFEFF"
    and "((x AND 0xFFFF) OR 0xFEFF0000) AND 0xFFFF = x AND 0xFFFF"
proof -
  have m: "(0xFFFF :: 32 word) = mask 16" by (simp add: mask_eq_exp_minus_1)
  have "drop_bit 16 (x AND mask 16) = 0" by (rule bit_word_eqI) (simp add: bit_simps)
  moreover have "drop_bit 16 (0xFEFF0000 :: 32 word) = 0xFEFF" by simp
  ultimately show "drop_bit 16 ((x AND 0xFFFF) OR 0xFEFF0000) = 0xFEFF" by (simp add: drop_bit_or m)
  have "(0xFEFF0000 :: 32 word) AND 0xFFFF = 0" by simp
  then show "((x AND 0xFFFF) OR 0xFEFF0000) AND 0xFFFF = x AND 0xFFFF"
    by (simp only: bit.conj_disj_distrib2 and.assoc and.idem or.right_neutral)
qed

text \<open>C38 The tick period: with a clock of at least 2000 Hz the timer is set to wrap every hz div 1000
  cycles, one millisecond rounded down, with its interrupt on; in the upper half of SHPR3, PendSV
  gets the lowest priority 0xFF and SysTick 0xFE, and the lower half is kept.
  \<open>set_cpu_hz\<close> also accepts 1000 to 1999 Hz; then the start stops at a failed assertion.\<close>

theorem tick_period_exact:
  assumes "use_assert k"
  shows "if 2000 \<le> g_cpu_hz k
         then \<exists>r. start_hardware_and_yield k = Inr (k\<lparr>psp := 0, regs := r, pendsv := True\<rparr>) \<and>
           unat (r kSystickRvr) + 1 = unat (g_cpu_hz k) div 1000 \<and> r kSystickCvr = 0 \<and>
           r kSystickCsr = kSystickClkSource OR kSystickTickInt OR kSystickEnable \<and>
           drop_bit 16 (r kShpr3) = 0xFEFF \<and> r kShpr3 AND 0xFFFF = regs k kShpr3 AND 0xFFFF
         else start_hardware_and_yield k = Inl AssertFailed \<and>
           (1000 \<le> g_cpu_hz k \<longrightarrow> set_cpu_hz (g_cpu_hz k) k = Inr k)"
proof -
  let ?hz = "g_cpu_hz k" and ?r = "systick_reload (g_cpu_hz k)"
  have d: "unat (?hz div 1000) = unat ?hz div 1000" by (simp add: unat_div)
  have r: "?r = ?hz div 1000 - 1" by (simp add: systick_reload_def kTickRateMs_def)
  show ?thesis
  proof (cases "2000 \<le> ?hz")
    case True
    from hardware_fields [OF reload_period(2) [OF True]] obtain r' where
      r': "start_hardware_and_yield k = Inr (k\<lparr>psp := 0, regs := r', pendsv := True\<rparr>)"
      "r' kSystickRvr = ?r" "r' kSystickCvr = 0" "r' kSystickCsr = 7"
      "r' kShpr3 = (regs k kShpr3 AND 0xFFFF) OR 0xFEFF0000" by blast
    have "unat (r' kSystickRvr) + 1 = unat ?hz div 1000" using reload_period(1) [OF True] by (simp only: r'(2))
    moreover have "r' kSystickCsr = kSystickClkSource OR kSystickTickInt OR kSystickEnable"
      by (simp add: r'(4) kSystickClkSource_def kSystickTickInt_def kSystickEnable_def)
    moreover have "drop_bit 16 (r' kShpr3) = 0xFEFF" "r' kShpr3 AND 0xFFFF = regs k kShpr3 AND 0xFFFF"
      unfolding r'(5) by (rule shpr3_halves)+
    ultimately show ?thesis unfolding if_P [OF True] using r'(1,3) by blast
  next
    case False
    then have hz: "unat ?hz div 1000 \<le> 1" by (simp add: word_le_nat_alt)
    have "?hz div 1000 = 0 \<or> ?hz div 1000 = 1"
      using hz d by (auto simp: word_unat_eq_iff le_Suc_eq)
    then have "\<not> (0 < ?r \<and> ?r \<le> 0x00FFFFFF)" unfolding r
      by (elim disjE) (simp_all add: word_le_nat_alt unsigned_minus_1_eq_mask mask_eq_exp_minus_1)
    moreover have "g_cpu_hz (enable_fpu_lazy_stacking k) = ?hz" "use_assert (enable_fpu_lazy_stacking k)"
      using assms by (simp_all add: enable_fpu_lazy_stacking_def write_reg_def Let_def)
    ultimately have "start_hardware_and_yield k = Inl AssertFailed"
      by (simp add: start_hardware_and_yield_def configure_pendsv_and_systick_def Let_def write_reg_def acr_assert_def)
    then show ?thesis using False by (simp add: set_cpu_hz_def acr_assert_def)
  qed
qed

theorem tick_period_exact_witness:
  "(\<exists>r. start_hardware_and_yield ex_kernel = Inr (ex_kernel\<lparr>psp := 0, regs := r, pendsv := True\<rparr>) \<and>
      unat (r kSystickRvr) + 1 = 16000) \<and>
   start_hardware_and_yield (ex_kernel\<lparr>g_cpu_hz := 1500\<rparr>) = Inl AssertFailed"
  using tick_period_exact [of ex_kernel] tick_period_exact [of "ex_kernel\<lparr>g_cpu_hz := 1500\<rparr>"]
  by (auto simp: ex_kernel_def kCpuHz_def)

subsection \<open>Starting, and the end of a task\<close>

text \<open>Starting: the first call adds the idle task, Ready at priority 0, sets the timer, and requests the
  switch to the first task; a second call is refused.\<close>

theorem start_once:
  assumes "sys_ok k" and "\<not> started k" and "current_task k = None"
    and "ntasks k < kMaxTasks" and "\<not> site_created k site" and "2000 \<le> g_cpu_hz k"
  shows "\<exists>k'. start site buf construct tramp k = Inr k' \<and> sys_ok k' \<and> started k' \<and> pendsv k' \<and> psp k' = 0 \<and>
           ntasks k' = ntasks k + 1 \<and> state (tcbs k' (ntasks k)) = Ready \<and> priority (tcbs k' (ntasks k)) = 0 \<and>
           start site' buf' construct' tramp' k' = (if use_assert k' then Inl AssertFailed else Inr k')"
proof -
  obtain L W H where "kinv k L W" "objects_ok k L H" using assms(1) by (auto simp: sys_ok_def)
  from start_ok [OF this assms(2-5) reload_period(2) [OF assms(6)]]
  show ?thesis using start_twice by metis
qed

theorem start_once_witness:
  "\<exists>k'. start 9 2000 (\<lambda>_ m. m) 64 ex_boot = Inr k' \<and> started k' \<and> ntasks k' = 1"
proof -
  have "sys_ok ex_boot" unfolding ex_boot_def by (rule boot_sys_ok [OF ex_rings])
  from start_once [OF this, of 9 2000 "\<lambda>_ m. m" 64 9 2000 "\<lambda>_ m. m" 64]
  show ?thesis by (auto simp: ex_boot_def boot_def ntasks_def kMaxTasks_def kCpuHz_def)
qed

text \<open>C40 The end of a task: when its callable returns the trampoline deletes the task, which leaves every
  list, is never Ready or Running again by this call, and the CPU is requested for another.\<close>

theorem task_ends:
  assumes "kinv k L W" and "current_task k = Some t" and "state (tcbs k t) = Running" and "started k"
  shows "\<exists>k'. trampoline_exit k = Inr k' \<and> state (tcbs k' t) = Deleted \<and> pendsv k' \<and>
           kinv k' L W \<and> (\<forall>l. t \<notin> set (L l)) \<and> resume_task (Some t) k' = Inr k' \<and>
           delete_task (Some t) k' = Inr k' \<and> suspend_task (Some t) k' = Inr k'"
proof -
  have t: "t < ntasks k" by (rule kinv_current [OF assms(1,2)])
  have ok: "task_ok k L W t" by (rule kinv_task [OF assms(1) t])
  obtain k' where k': "delete_task (Some t) k = Inr k'"
    "plain k' = plain (yield_if (current_task k = Some t \<and> started k)
       (upd_tcb t (\<lambda>b. (unwaited b)\<lparr>state := Deleted\<rparr>) k))"
    "kinv k' (without t L) (remove_wake t W)"
    using delete_task_ok [OF assms(1) t] assms(3) by auto
  note f = plainD [OF k'(2)]
  have out: "t \<notin> set (L l)" for l
  proof (cases "is_ready_list l")
    case True
    then show ?thesis using task_ok_ready [OF ok] assms(3) by (cases l) simp_all
  next
    case False
    then show ?thesis using task_ok_wait [OF ok False] task_ok_blocked [OF ok] assms(3) by simp
  qed
  have "t \<notin> fst ` set W" using task_ok_blocked [OF ok] assms(3) by auto
  then have W: "remove_wake t W = W" by (force simp: remove_wake_def filter_id_conv)
  have L: "without t L = L" using out by (auto simp: without_def remove1_idem)
  have d: "state (tcbs k' t) = Deleted" by (simp add: f)
  have "\<not> in_delay_list (tcbs k' t)"
    using wf_kernel_in_delay [OF kinv_wf [OF k'(3)], of t] W \<open>t \<notin> fst ` set W\<close> by simp
  then have "resume_task (Some t) k' = Inr k'"
    using resume_task_other [of k' t] d by simp
  moreover have "trampoline_exit k = Inr k'" using k'(1) assms(2) by (simp add: trampoline_exit_def)
  moreover have "pendsv k'" using assms(2,4) by (simp add: f yield_if_def task_yield_def)
  ultimately show ?thesis using k'(3) d out W L
    by (intro exI [of _ k']) (simp add: delete_task_def suspend_task_def)
qed

theorem task_ends_witness:
  "\<exists>k'. trampoline_exit ex_kernel = Inr k' \<and> state (tcbs k' 0) = Deleted \<and> pendsv k'"
  using task_ends [OF ex_kinv, of 0] by auto

end
