(* ===== verification/Spec2Isabelle.thy ===== *)
theory Spec2Isabelle
  imports Props_System Props_Scheduler Props_Structures Props_Ipc Props_Events Props_Queues Props_Port
begin

text \<open>
  acRTOS, a preemptive priority kernel for the Cortex-M4 in C++20: a model of its implementation
  and the properties that make it correct.

  \<^bold>\<open>The program.\<close> One object, the \<open>Scheduler\<close>, owns a table of task control blocks, a FIFO list
  per priority with a bit mask of the lists that are not empty (\<open>ReadyManager\<close>), and a list of
  the sleeping tasks, each with the difference to the time of the one before (\<open>DelayList\<close>).
  Semaphores, mutexes, queues and event groups keep their waiters in lists ordered by priority
  (\<open>WaitQueue\<close>). All lists are threaded through the control blocks, so a task is on at most one
  task list and, independently, on the delay list. SysTick advances the time and wakes tasks;
  whoever makes a task ready that should run asks for PendSV, whose handler saves the registers
  of the running task, lets \<open>schedule_next_task\<close> choose, and loads the registers of the task
  chosen. Every access to shared data is a critical section under PRIMASK.

  \<^bold>\<open>The model.\<close> One record, \<open>kernel\<close>, is the whole state: the scheduler's members, the members of
  all synchronisation objects (addressed by number), a byte-addressed memory, and the processor
  registers the kernel uses. Pointers to control blocks are options of table indices, list links
  are fields of the control blocks, as in the code, and time, priorities, masks and counters are
  words of the code's width. A routine maps the state to a result or a \<open>fault\<close>: a failed
  assertion, a null dereference, an index out of bounds, \<open>__builtin_clz\<close> of zero, or a loop that
  does not end. Assertions can be compiled out (\<open>use_assert\<close>).

  \<^bold>\<open>Runs.\<close> A step of a run is a call up to the point where it returns or gives up the processor, a
  tick, a call from an interrupt handler, the switch handler \<open>PendSV_Handler\<close>, which is taken while a
  switch is pending and interrupts are not masked, or the application's own computation, which may
  store anywhere and move its stack pointer. Interrupts come between steps. The calls of the code
  make their accesses to shared data in one critical section (creating a task in two), and ask
  for a switch after it; the step \<open>Yield\<close> is allowed everywhere, so a run may also take the switch
  first and ask later, as when an interrupt comes between the two. Left out are interrupts
  between the entry tests of a call and its critical section, and between the two of creating a
  task, the one that takes the slot and the one that makes the task ready.

  \<^bold>\<open>The theories\<close>, each importing those it needs:
  \<^item> Kernel_Prelude: results, sequencing, loops, rule collections. Link_Chain: doubly linked
    chains and the sequences they hold.
  \<^item> Kernel_State: acRtosConfig.hpp, types.hpp, the records of task.hpp, scheduler.hpp, ipc.hpp
    and queue.hpp.
  \<^item> Task_List and Delay_List: \<open>TaskList\<close> and \<open>DelayList\<close> of task.cpp; each operation is proved to
    do to the links what its abstract counterpart does to a sequence. Delay_Tick: \<open>tick\<close>.
  \<^item> Port: port.hpp and port_cm4.cpp. Pend_Sv: port_asm.s.
  \<^item> Ready_Manager: \<open>ReadyManager\<close> of scheduler.cpp, with the reading of the bit mask.
  \<^item> Kernel_Structure, Kernel_Frame, Kernel_Invariant: the invariant \<open>kinv k L W\<close>, with \<open>L\<close> the
    sequence of every list and \<open>W\<close> the remaining ticks of the sleepers; \<open>plain\<close>, the state without
    links, in which a lemma lists all other stores of an operation as one equation; and the
    intermediate state \<open>detached\<close> of a task that is on no list.
  \<^item> Ready_Queue and Time_Limits: the interfaces of the ready manager and of the delay list to the
    scheduler, as locales with the moves that follow from their laws.
  \<^item> Scheduler: the methods of scheduler.cpp and the task handles of task.hpp; Scheduler_Ops and
    Context_Switch: what each of them does, in every state of its argument.
  \<^item> Wait_Queue: \<open>WaitQueue\<close> of ipc.cpp and its interface as a locale; Semaphore, Mutex,
    Event_Group: the other classes of ipc.cpp. Ring_Buffer and Queue_Core: queue.cpp and the
    class template of queue.hpp, the ring behind the locale of a bounded FIFO buffer.
  \<^item> Kernel_Objects: the invariant of all objects together (why each waiter waits, who owns which
    mutex, the rings). Kernel_Calls, Kernel_Ipc_Calls: the calls as a datatype, what the
    documentation asks of a caller (\<open>allowed\<close>), and \<open>exec_ok\<close>: in a state with the invariant every
    allowed call returns, and the invariant holds again. Kernel_Run: sequences of calls, interrupts
    and application code as a step relation, from the state after static initialisation.
  \<^item> Kept_Facts, Interrupt_Masking: facts that hold on every path of every routine, by following
    its control flow: PRIMASK is restored. Settled_Tasks: the laws a fact about undisturbed tasks
    must obey, as a locale, from which it follows that every call keeps it, and its extension to
    the switch and to whole runs. Lasting_Facts: its instances. The scheduler stays started; a task
    that nobody stops and that makes no blocking call stays able to run; a task that is not chosen
    keeps its saved stack pointer.
  \<^item> Call_Effects: what each call does to the states of the tasks. Preemption: from it, that every
    step follows the state diagram, that a task on a wait list is never marked expired, and that
    after every call a more urgent ready task has a switch pending. Time_Slices: runs of
    computing, a tick and the switch, taken if the tick left it pending.
  \<^item> Example_Kernel: a state with a task in every situation, on which the theorems are instantiated.
  \<^item> Props_System, Props_Scheduler, Props_Structures, Props_Ipc, Props_Events, Props_Queues,
    Props_Port: the properties.

  \<^bold>\<open>What is shown.\<close> No run faults, loses a wake-up, leaves a dangling pointer,
  lets two tasks own a mutex, leaves the processor without a task or forgets a preemption that is
  due, and no task leaves the documented state diagram. The switch runs a task of the highest priority, and equals take turns tick by tick; the
  tick wakes exactly the tasks whose time is up; sleeping and waiting for n milliseconds end at the
  n-th tick after the call (the first of which may come at once). A wait that is satisfied is never
  marked expired. Each
  call of a semaphore, mutex, event group or queue has its exact effect on every branch, with
  hand-over to the first waiter and priority inheritance over all mutexes held. The linked lists,
  the ring, the delta list and the bit mask refine sequences, a bounded FIFO, a list of wake-up
  times and a search over all tasks. A task comes back with the registers it left with, whatever
  ran while it was away. Where the code and its documentation differ, the behaviour of the code is
  what is proved.

  \<^bold>\<open>Loops and bounds.\<close> A loop over links is a \<open>partial_function\<close> on options, so a cycle in the
  links is the value None and the fault \<open>NoReturn\<close>; under the invariant every loop is proved to
  end, by induction on the sequence the links hold. There is no fuel. Tick arithmetic wraps modulo
  2^32 as in the code, and \<open>delay_until\<close> reads the difference as signed. Task numbers stay below
  \<open>kMaxTasks\<close> = 15, priorities below 32, both by the invariant.

  \<^bold>\<open>Parameters.\<close> The application is arbitrary: the step \<open>App\<close>
  stores anything in memory and the argument of \<open>Switch\<close> is what its registers hold,
  with the obligations in \<open>allowed\<close> (such as an intact canary at a switch). The
  construction of a task's callable in its stack buffer, the addresses of the buffer, of its call
  site and of the trampoline are arguments of \<open>create_task\<close> and \<open>start\<close>;
  \<open>acrtos_tick_hook\<close> is the empty default.

  \<^bold>\<open>Not modelled.\<close> The exception entry and return of the processor, which save and restore the
  scratch registers; memory barriers; the low power loop that \<open>start\<close> ends in and the body of the
  default assertion handler, which never return; the stubs for other targets; interrupts that are
  not the kernel's; copying and moving of objects, which the code deletes; and the self tests.
\<close>

end
